(* ===== verification/Prelude.thy ===== *)
theory Prelude
  imports Main "HOL-Library.Word" "HOL-Library.Signed_Division"
begin

text \<open>
  Shared vocabulary of the development: the machine types of Go (\<open>uint64\<close>, \<open>int64\<close> and
  \<open>time.Duration\<close> are 64-bit words, a \<open>byte\<close> is an 8-bit word, a Go \<open>string\<close> is a list of
  bytes written as characters), run-time panics and the outcome of a call that may panic
  after it has already changed its receiver, the collections the component proofs
  use, and generic lemmas on lists and maps.
\<close>

section \<open>Machine types\<close>

type_synonym byte = "8 word"
type_synonym bytes = "byte list"
type_synonym u64 = "64 word"
type_synonym i64 = "64 word"
type_synonym duration = "64 word"

text \<open>
  \<open>uint64(x)\<close> and \<open>int64(x)\<close> keep the bits, so both are the identity on \<^typ>\<open>64 word\<close>; an
  \<open>int64\<close> is read as a number by \<^const>\<open>sint\<close>, a \<open>uint64\<close> by \<^const>\<open>uint\<close>.
\<close>

lemma sint_of_int64:
  "- (2 ^ 63) \<le> x \<Longrightarrow> x < 2 ^ 63 \<Longrightarrow> sint (word_of_int x :: i64) = x"
  by (simp add: sint_sbintrunc' signed_take_bit_int_eq_self)

lemma sint64_bounds: "- (2 ^ 63) \<le> sint (x :: i64) \<and> sint x < 2 ^ 63"
  using sint_ge [of x] sint_lt [of x] by simp

definition str_of_bytes :: "bytes \<Rightarrow> string" where
  "str_of_bytes bs = map (\<lambda>b. char_of (unat b)) bs"

definition bytes_of_str :: "string \<Rightarrow> bytes" where
  "bytes_of_str s = map (\<lambda>c. word_of_nat (of_char c)) s"

section \<open>Panics and outcomes\<close>

datatype panic =
    IndexOutOfRange
  | SliceBounds
  | MakeSliceLen
  | DivideByZero
  | NilDereference
  | TypeAssertion
  | CloseOfClosed
  | ExplicitPanic string

text \<open>
  The outcome of a method call: it returns a value and the receiver's new state, or it
  panics and leaves the receiver in the state the statements before the panic made.
\<close>

datatype ('s, 'a) outcome = Ret 'a 's | Panic panic 's

fun outcome_state :: "('s, 'a) outcome \<Rightarrow> 's" where
  "outcome_state (Ret x s) = s"
| "outcome_state (Panic p s) = s"

fun returns :: "('s, 'a) outcome \<Rightarrow> bool" where
  "returns (Ret x s) = True"
| "returns (Panic p s) = False"

lemma returnsE:
  assumes "returns r"
  obtains x s where "r = Ret x s"
  using assms by (cases r) auto

lemma returns_iff: "returns r \<longleftrightarrow> (\<exists>x s. r = Ret x s)"
  by (cases r) auto

section \<open>Collections used by the component proofs\<close>

named_theorems inv_intros \<open>an operation keeps its component's invariant\<close>
named_theorems branch_simps \<open>the value of an operation on one of its branches\<close>
named_theorems frame_simps \<open>what an operation leaves unchanged\<close>

section \<open>Bytes and strings\<close>

lemma length_str_of_bytes [simp]: "length (str_of_bytes bs) = length bs"
  by (simp add: str_of_bytes_def)

lemma length_bytes_of_str [simp]: "length (bytes_of_str s) = length s"
  by (simp add: bytes_of_str_def)

lemma byte_of_char_of_byte: "word_of_nat (of_char (char_of (unat b) :: char)) = (b :: byte)"
proof -
  have "unat b < 2 ^ LENGTH(8)"
    by (rule unsigned_less)
  then have "unat b < 256" by simp
  then have "of_char (char_of (unat b) :: char) = unat b"
    by simp
  then show ?thesis by simp
qed

lemma char_of_byte_of_char: "char_of (unat (word_of_nat (of_char c) :: byte)) = (c :: char)"
proof -
  have "(of_char c :: nat) < 256"
    by (metis of_char_of mod_less_divisor zero_less_numeral char_of_char)
  then have "unat (word_of_nat (of_char c) :: byte) = of_char c"
    by (simp add: unat_of_nat)
  then show ?thesis by simp
qed

lemma bytes_of_str_of_bytes [simp]: "bytes_of_str (str_of_bytes bs) = bs"
  by (simp add: bytes_of_str_def str_of_bytes_def comp_def byte_of_char_of_byte del: of_char_of)

lemma str_of_bytes_of_str [simp]: "str_of_bytes (bytes_of_str s) = s"
  by (simp add: bytes_of_str_def str_of_bytes_def comp_def char_of_byte_of_char)

lemma str_of_bytes_Nil [simp]: "str_of_bytes [] = []"
  by (simp add: str_of_bytes_def)

lemma str_of_bytes_eq_iff [simp]: "str_of_bytes a = str_of_bytes b \<longleftrightarrow> a = b"
  by (metis bytes_of_str_of_bytes)

section \<open>Lists and maps\<close>

lemma set_list_update_distinct:
  "distinct xs \<Longrightarrow> i < length xs \<Longrightarrow> set (xs[i := x]) = insert x (set xs - {xs ! i})"
  by (simp add: set_update_distinct)

lemma nth_list_update_if:
  "i < length xs \<Longrightarrow> xs[i := x] ! j = (if j = i then x else xs ! j)"
  by simp

lemma nth_append_old: "a < length xs \<Longrightarrow> (xs @ ys) ! a = xs ! a"
  by (simp add: nth_append)

section \<open>Truncating integer division\<close>

text \<open>Go's \<open>/\<close> and \<open>%\<close> on signed integers truncate towards zero: \<^const>\<open>signed_divide\<close> and
  \<^const>\<open>signed_modulo\<close> on \<^typ>\<open>int\<close>. On non-negative operands they are \<open>div\<close> and \<open>mod\<close>.\<close>

lemma sdiv_nonneg: "0 \<le> a \<Longrightarrow> 0 \<le> b \<Longrightarrow> a sdiv b = a div (b :: int)"
  by (cases "a = 0"; cases "b = 0") (simp_all add: signed_divide_int_def)

lemma smod_nonneg: "0 \<le> a \<Longrightarrow> 0 \<le> b \<Longrightarrow> a smod b = a mod (b :: int)"
  by (cases "a = 0") (simp_all add: signed_modulo_int_def)

lemma smod_neg:
  assumes "a < 0" "0 < b" "a smod b \<noteq> (0 :: int)"
  shows "a smod b < 0"
proof -
  have "a smod b = - (\<bar>a\<bar> mod b)" using assms(1,2) by (simp add: signed_modulo_int_def)
  moreover have "0 \<le> \<bar>a\<bar> mod b" using assms(2) by simp
  ultimately show ?thesis using assms(3) by linarith
qed

end
