(* ===== verification/Delay_Queue.thy ===== *)
theory Delay_Queue
  imports Prelude
begin

text \<open>
  The contract a delay queue keeps with its client: an abstract queue is a map from the
  pending identifiers to the number of ticks left, and each operation of an
  implementation acts on that map as the abstract machine here does. The locale
  \<open>delay_queue\<close> states the contract; its lemmas say what a client may rely on over any
  sequence of operations, in particular when an item fires.
\<close>

section \<open>The abstract machine\<close>

datatype 'k queue_op = OpAdd nat 'k | OpDelete 'k | OpTick

type_synonym 'k pending = "'k \<rightharpoonup> nat"

definition tick_down :: "'k pending \<Rightarrow> 'k pending" where
  "tick_down p = (\<lambda>k. case p k of None \<Rightarrow> None | Some 0 \<Rightarrow> None | Some (Suc n) \<Rightarrow> Some n)"

definition due :: "'k pending \<Rightarrow> 'k set" where
  "due p = {k. p k = Some 0}"

fun spec_state :: "'k pending \<Rightarrow> 'k queue_op \<Rightarrow> 'k pending" where
  "spec_state p (OpAdd n k) = p(k \<mapsto> n)"
| "spec_state p (OpDelete k) = p(k := None)"
| "spec_state p OpTick = tick_down p"

fun spec_fired :: "'k pending \<Rightarrow> 'k queue_op \<Rightarrow> 'k set" where
  "spec_fired p OpTick = due p"
| "spec_fired p _ = {}"

fun spec_run :: "'k pending \<Rightarrow> 'k queue_op list \<Rightarrow> 'k set list \<times> 'k pending" where
  "spec_run p [] = ([], p)"
| "spec_run p (x # xs) =
     (let (fs, q) = spec_run (spec_state p x) xs in (spec_fired p x # fs, q))"

text \<open>
  An identifier that is already pending must not be added again, and a caller adds only
  what the implementation accepts; \<open>ops_fresh\<close> says so for a whole sequence.
\<close>

fun op_fresh :: "'k pending \<Rightarrow> 'k queue_op \<Rightarrow> bool" where
  "op_fresh p (OpAdd n k) = (p k = None)"
| "op_fresh p _ = True"

fun ops_fresh :: "'k pending \<Rightarrow> 'k queue_op list \<Rightarrow> bool" where
  "ops_fresh p [] = True"
| "ops_fresh p (x # xs) = (op_fresh p x \<and> ops_fresh (spec_state p x) xs)"

fun touches :: "'k \<Rightarrow> 'k queue_op \<Rightarrow> bool" where
  "touches k (OpAdd n k') = (k' = k)"
| "touches k (OpDelete k') = (k' = k)"
| "touches k OpTick = False"

definition ticks :: "'k queue_op list \<Rightarrow> nat" where
  "ticks xs = length (filter (\<lambda>x. case x of OpTick \<Rightarrow> True | _ \<Rightarrow> False) xs)"

lemma ticks_simps [simp]:
  "ticks [] = 0"
  "ticks (OpAdd n k # xs) = ticks xs"
  "ticks (OpDelete k # xs) = ticks xs"
  "ticks (OpTick # xs) = Suc (ticks xs)"
  by (simp_all add: ticks_def)

lemma tick_down_Some_iff: "tick_down p k = Some n \<longleftrightarrow> p k = Some (Suc n)"
  by (auto simp: tick_down_def split: option.splits nat.splits)

lemma tick_down_None_iff: "tick_down p k = None \<longleftrightarrow> p k = None \<or> p k = Some 0"
  by (auto simp: tick_down_def split: option.splits nat.splits)

lemma spec_run_length [simp]: "length (fst (spec_run p xs)) = length xs"
  by (induction xs arbitrary: p) (auto simp: split_beta)

lemma spec_run_not_pending:
  "p k = None \<Longrightarrow> \<forall>x \<in> set xs. \<not> touches k x \<Longrightarrow>
     \<forall>f \<in> set (fst (spec_run p xs)). k \<notin> f"
proof (induction xs arbitrary: p)
  case (Cons x xs)
  from Cons.prems have "spec_state p x k = None"
    by (cases x) (auto simp: tick_down_None_iff)
  with Cons have "\<forall>f \<in> set (fst (spec_run (spec_state p x) xs)). k \<notin> f" by simp
  with Cons.prems show ?case by (cases x) (auto simp: split_beta due_def)
qed simp

lemma spec_run_keeps_absent:
  "p k = None \<Longrightarrow> \<forall>x \<in> set xs. \<not> touches k x \<Longrightarrow> snd (spec_run p xs) k = None"
proof (induction xs arbitrary: p)
  case (Cons x xs)
  from Cons.prems have "spec_state p x k = None"
    by (cases x) (auto simp: tick_down_None_iff)
  with Cons show ?case by (simp add: split_beta)
qed simp

text \<open>
  The timing law: an item with \<open>n\<close> ticks left that is neither added again nor deleted
  fires at the tick that has \<open>n\<close> ticks before it, and at no other operation.
\<close>

lemma spec_run_fires:
  assumes "p k = Some n" "\<forall>x \<in> set xs. \<not> touches k x" "i < length xs"
  shows "k \<in> fst (spec_run p xs) ! i \<longleftrightarrow> xs ! i = OpTick \<and> ticks (take i xs) = n"
  using assms
proof (induction xs arbitrary: p n i)
  case (Cons x xs)
  let ?q = "spec_state p x"
  have ih: "k \<in> fst (spec_run ?q xs) ! j \<longleftrightarrow> xs ! j = OpTick \<and> ticks (take j xs) = m"
    if "?q k = Some m" "j < length xs" for j m
    using Cons.IH [of ?q m j] that Cons.prems(2) by simp
  have run: "fst (spec_run p (x # xs)) = spec_fired p x # fst (spec_run ?q xs)"
    by (simp add: split_beta)
  show ?case
  proof (cases x)
    case OpTick
    show ?thesis
    proof (cases n)
      case 0
      with Cons.prems OpTick have "?q k = None" by (simp add: tick_down_None_iff)
      then have late: "\<forall>f \<in> set (fst (spec_run ?q xs)). k \<notin> f"
        using spec_run_not_pending [of ?q k xs] Cons.prems(2) by simp
      with Cons.prems OpTick 0 run show ?thesis by (cases i) (auto simp: due_def)
    next
      case (Suc m)
      with Cons.prems OpTick have "?q k = Some m" by (simp add: tick_down_Some_iff)
      with ih Cons.prems OpTick Suc run show ?thesis by (cases i) (auto simp: due_def)
    qed
  next
    case (OpAdd d k')
    with Cons.prems have "?q k = Some n" by auto
    with ih Cons.prems(3) OpAdd run show ?thesis by (cases i) simp_all
  next
    case (OpDelete k')
    with Cons.prems have "?q k = Some n" by auto
    with ih Cons.prems(3) OpDelete run show ?thesis by (cases i) simp_all
  qed
qed simp

section \<open>Running an implementation\<close>

text \<open>
  \<open>queue_step\<close> performs one operation of the abstract machine on an implementation
  given by its three operations; the result holds the identifiers the operation fired.
\<close>

fun queue_step ::
  "(nat \<Rightarrow> 'k \<Rightarrow> 's \<Rightarrow> ('s, 'a) outcome) \<Rightarrow> ('k \<Rightarrow> 's \<Rightarrow> ('s, 'b) outcome) \<Rightarrow>
   ('s \<Rightarrow> ('s, 'k list) outcome) \<Rightarrow> 's \<Rightarrow> 'k queue_op \<Rightarrow> ('s, 'k list) outcome" where
  "queue_step add del tick s (OpAdd n k) =
     (case add n k s of Ret _ s' \<Rightarrow> Ret [] s' | Panic p s' \<Rightarrow> Panic p s')"
| "queue_step add del tick s (OpDelete k) =
     (case del k s of Ret _ s' \<Rightarrow> Ret [] s' | Panic p s' \<Rightarrow> Panic p s')"
| "queue_step add del tick s OpTick = tick s"

fun queue_run ::
  "('s \<Rightarrow> 'k queue_op \<Rightarrow> ('s, 'k list) outcome) \<Rightarrow> 's \<Rightarrow> 'k queue_op list \<Rightarrow>
   ('s, 'k list list) outcome" where
  "queue_run step s [] = Ret [] s"
| "queue_run step s (x # xs) =
     (case step s x of
        Panic p s' \<Rightarrow> Panic p s'
      | Ret f s' \<Rightarrow>
          (case queue_run step s' xs of
             Panic p s'' \<Rightarrow> Panic p s''
           | Ret fs s'' \<Rightarrow> Ret (f # fs) s''))"

section \<open>The contract\<close>

locale delay_queue =
  fixes invar :: "'s \<Rightarrow> bool"
    and pending :: "'s \<Rightarrow> 'k pending"
    and accepts :: "nat \<Rightarrow> bool"
    and add :: "nat \<Rightarrow> 'k \<Rightarrow> 's \<Rightarrow> ('s, 'a) outcome"
    and del :: "'k \<Rightarrow> 's \<Rightarrow> ('s, 'b) outcome"
    and tick :: "'s \<Rightarrow> ('s, 'k list) outcome"
  assumes add_law: "invar s \<Longrightarrow> pending s k = None \<Longrightarrow> accepts n \<Longrightarrow>
      \<exists>x s'. add n k s = Ret x s' \<and> invar s' \<and> pending s' = (pending s)(k \<mapsto> n)"
    and del_law: "invar s \<Longrightarrow>
      \<exists>x s'. del k s = Ret x s' \<and> invar s' \<and> pending s' = (pending s)(k := None)"
    and tick_law: "invar s \<Longrightarrow>
      \<exists>ks s'. tick s = Ret ks s' \<and> invar s' \<and> distinct ks \<and> set ks = due (pending s) \<and>
        pending s' = tick_down (pending s)"
begin

lemma step_refines:
  assumes "invar s" "op_fresh (pending s) x" "\<forall>n k. x = OpAdd n k \<longrightarrow> accepts n"
  shows "\<exists>f s'. queue_step add del tick s x = Ret f s' \<and> invar s' \<and> distinct f \<and>
    set f = spec_fired (pending s) x \<and> pending s' = spec_state (pending s) x"
proof (cases x)
  case (OpAdd n k)
  with assms add_law [of s k n] show ?thesis by auto
next
  case (OpDelete k)
  with assms del_law [of s k] show ?thesis by auto
next
  case OpTick
  with assms tick_law [of s] show ?thesis by auto
qed

lemma run_refines:
  assumes "invar s" "ops_fresh (pending s) xs" "\<forall>n k. OpAdd n k \<in> set xs \<longrightarrow> accepts n"
  shows "\<exists>fs s'. queue_run (queue_step add del tick) s xs = Ret fs s' \<and> invar s' \<and>
    map set fs = fst (spec_run (pending s) xs) \<and> pending s' = snd (spec_run (pending s) xs) \<and>
    (\<forall>f \<in> set fs. distinct f)"
  using assms
proof (induction xs arbitrary: s)
  case (Cons x xs)
  from Cons.prems step_refines [of s x] obtain f t where
    t: "queue_step add del tick s x = Ret f t" "invar t" "distinct f"
      "set f = spec_fired (pending s) x" "pending t = spec_state (pending s) x"
    by auto
  with Cons.prems have "ops_fresh (pending t) xs" "\<forall>n k. OpAdd n k \<in> set xs \<longrightarrow> accepts n"
    by auto
  from Cons.IH [OF t(2) this] t show ?case by (auto simp: split_beta)
qed simp

lemma run_fires:
  assumes "invar s" "ops_fresh (pending s) xs" "\<forall>n k. OpAdd n k \<in> set xs \<longrightarrow> accepts n"
    and "pending s k = Some n" "\<forall>x \<in> set xs. \<not> touches k x"
  shows "\<exists>fs s'. queue_run (queue_step add del tick) s xs = Ret fs s' \<and>
    length fs = length xs \<and>
    (\<forall>i < length xs. k \<in> set (fs ! i) \<longleftrightarrow> xs ! i = OpTick \<and> ticks (take i xs) = n)"
proof -
  from run_refines [OF assms(1-3)] obtain fs s' where
    run: "queue_run (queue_step add del tick) s xs = Ret fs s'"
      "map set fs = fst (spec_run (pending s) xs)"
    by blast
  from arg_cong [OF run(2), of length] have len: "length fs = length xs" by simp
  have "k \<in> set (fs ! i) \<longleftrightarrow> xs ! i = OpTick \<and> ticks (take i xs) = n" if "i < length xs" for i
    using spec_run_fires [where p = "pending s", OF assms(4,5) that] run(2) len that
    by (metis nth_map)
  with run len show ?thesis by blast
qed

end

end
