(* ===== verification/Go_Std.thy ===== *)
theory Go_Std
  imports Prelude
begin

text \<open>
  The functions of Go's standard library that the program calls, as far as it uses them:
  \<open>strings.Split\<close> on a one-byte separator, \<open>strings.TrimSpace\<close>, \<open>strings.HasSuffix\<close>,
  \<open>filepath.Clean\<close>, \<open>Join\<close> and \<open>Base\<close> (Unix), decimal formatting of integers,
  \<open>strconv.ParseInt\<close>, and \<open>time.Duration.Seconds\<close> with the rounding of its
  \<open>float64\<close> result.
\<close>

section \<open>strings\<close>

fun split_on :: "char \<Rightarrow> string \<Rightarrow> string list" where
  "split_on c [] = [[]]"
| "split_on c (x # xs) =
     (if x = c then [] # split_on c xs
      else (x # hd (split_on c xs)) # tl (split_on c xs))"

fun join_with :: "string \<Rightarrow> string list \<Rightarrow> string" where
  "join_with sep [] = []"
| "join_with sep [x] = x"
| "join_with sep (x # y # ys) = x @ sep @ join_with sep (y # ys)"

definition is_space :: "char \<Rightarrow> bool" where
  "is_space c \<longleftrightarrow> of_char c \<in> {9, 10, 11, 12, 13, 32 :: nat}"

definition trim_space :: "string \<Rightarrow> string" where
  "trim_space s = rev (dropWhile is_space (rev (dropWhile is_space s)))"

definition has_suffix :: "string \<Rightarrow> string \<Rightarrow> bool" where
  "has_suffix s suf \<longleftrightarrow> length suf \<le> length s \<and> drop (length s - length suf) s = suf"

lemma split_on_not_Nil [simp]: "split_on c s \<noteq> []"
  by (cases s) auto

lemma split_on_no_sep: "c \<notin> set s \<Longrightarrow> split_on c s = [s]"
  by (induction s) auto

lemma split_on_append: "c \<notin> set a \<Longrightarrow> split_on c (a @ c # b) = a # split_on c b"
  by (induction a) auto

lemma split_on_sep_free: "x \<in> set (split_on c s) \<Longrightarrow> c \<notin> set x"
proof (induction s arbitrary: x)
  case Nil
  then show ?case by simp
next
  case (Cons y ys)
  have ne: "split_on c ys \<noteq> []" by simp
  show ?case
  proof (cases "y = c")
    case True
    with Cons show ?thesis by auto
  next
    case False
    with Cons.prems have "x = y # hd (split_on c ys) \<or> x \<in> set (tl (split_on c ys))" by simp
    then show ?thesis
    proof
      assume "x = y # hd (split_on c ys)"
      with Cons.IH [OF hd_in_set [OF ne]] False show ?thesis by auto
    next
      assume "x \<in> set (tl (split_on c ys))"
      then show ?thesis by (intro Cons.IH list.set_sel(2) [OF ne])
    qed
  qed
qed

lemma join_split: "join_with [c] (split_on c s) = s"
proof (induction s)
  case Nil
  then show ?case by simp
next
  case (Cons y ys)
  obtain z zs where z: "split_on c ys = z # zs" by (cases "split_on c ys") auto
  with Cons show ?case by (cases zs) auto
qed

lemma length_split_on: "length (split_on c s) = Suc (count_list s c)"
proof (induction s)
  case (Cons y ys)
  then show ?case by (cases "split_on c ys") auto
qed simp

lemma split_on_snoc:
  "x \<noteq> c \<Longrightarrow>
     split_on c (s @ [x]) = butlast (split_on c s) @ [last (split_on c s) @ [x]]"
proof (induction s)
  case Nil
  then show ?case by simp
next
  case (Cons y ys)
  obtain z zs where "split_on c ys = z # zs" by (cases "split_on c ys") auto
  with Cons show ?case by (cases zs) auto
qed

lemma trim_space_id:
  "s = [] \<or> (\<not> is_space (hd s) \<and> \<not> is_space (last s)) \<Longrightarrow> trim_space s = s"
  by (auto simp: trim_space_def dropWhile_eq_self_iff [THEN iffD2] hd_rev)

lemma has_suffix_append [simp]: "has_suffix (a @ b) b"
  by (simp add: has_suffix_def)

lemma has_suffix_iff: "has_suffix s suf \<longleftrightarrow> (\<exists>a. s = a @ suf)"
proof
  assume "has_suffix s suf"
  then have "s = take (length s - length suf) s @ suf"
    by (metis append_take_drop_id has_suffix_def)
  then show "\<exists>a. s = a @ suf" by blast
qed auto

section \<open>Decimal formatting\<close>

definition digit :: "nat \<Rightarrow> char" where
  "digit n = char_of (48 + n)"

fun show_nat :: "nat \<Rightarrow> string" where
  "show_nat n = (if n < 10 then [digit n] else show_nat (n div 10) @ [digit (n mod 10)])"

declare show_nat.simps [simp del]

definition show_int :: "int \<Rightarrow> string" where
  "show_int i = (if i < 0 then CHR ''-'' # show_nat (nat (- i)) else show_nat (nat i))"

text \<open>\<open>fmt.Sprintf("%v", b)\<close> for a byte array prints its elements in brackets.\<close>

definition show_bytes :: "bytes \<Rightarrow> string" where
  "show_bytes bs = ''['' @ join_with '' '' (map (\<lambda>b. show_nat (unat b)) bs) @ '']''"

definition digit_val :: "char \<Rightarrow> nat" where
  "digit_val c = of_char c - 48"

definition is_digit :: "char \<Rightarrow> bool" where
  "is_digit c \<longleftrightarrow> (48 :: nat) \<le> of_char c \<and> of_char c \<le> (57 :: nat)"

definition read_nat :: "string \<Rightarrow> nat" where
  "read_nat s = foldl (\<lambda>n c. 10 * n + digit_val c) 0 s"

lemma of_char_digit: "n < 10 \<Longrightarrow> (of_char (digit n) :: nat) = 48 + n"
  by (simp add: digit_def)

lemma is_digit_digit [simp]: "n < 10 \<Longrightarrow> is_digit (digit n)"
  by (simp add: is_digit_def of_char_digit)

lemma digit_val_digit [simp]: "n < 10 \<Longrightarrow> digit_val (digit n) = n"
  by (simp add: digit_val_def of_char_digit)

lemma show_nat_digits: "\<forall>c \<in> set (show_nat n). is_digit c"
proof (induction n rule: show_nat.induct)
  case (1 n)
  then show ?case
    by (cases "n < 10") (auto simp: show_nat.simps [of n])
qed

lemma show_nat_not_Nil [simp]: "show_nat n \<noteq> []"
  by (simp add: show_nat.simps)

lemma read_show_nat [simp]: "read_nat (show_nat n) = n"
proof (induction n rule: show_nat.induct)
  case (1 n)
  show ?case
  proof (cases "n < 10")
    case True
    then show ?thesis by (simp add: show_nat.simps [of n] read_nat_def)
  next
    case False
    with 1 show ?thesis
      by (simp add: show_nat.simps [of n] read_nat_def)
  qed
qed

lemma show_nat_inj [simp]: "show_nat a = show_nat b \<longleftrightarrow> a = b"
  by (metis read_show_nat)

lemma minus_not_digit: "\<not> is_digit (CHR ''-'')"
  by (simp add: is_digit_def)

lemma show_nat_no_minus: "show_nat n \<noteq> CHR ''-'' # s"
  by (metis list.set_intros(1) minus_not_digit show_nat_digits)

lemma show_int_inj [simp]: "show_int a = show_int b \<longleftrightarrow> a = b"
  by (auto simp: show_int_def show_nat_no_minus show_nat_no_minus [symmetric])

text \<open>\<open>strconv.ParseInt(s, 10, 64)\<close>: an optional sign and digits; the value is 0 on a syntax
  error and the nearest bound on a range error (the second component says which).\<close>

datatype parse_error = SyntaxError | RangeError

definition int64_min :: int where "int64_min = - (2 ^ 63)"
definition int64_max :: int where "int64_max = 2 ^ 63 - 1"

definition parse_int :: "string \<Rightarrow> int \<times> parse_error option" where
  "parse_int s =
     (let neg = (s \<noteq> [] \<and> hd s = CHR ''-'');
          body = (if s \<noteq> [] \<and> (hd s = CHR ''-'' \<or> hd s = CHR ''+'') then tl s else s)
      in if body = [] \<or> \<not> list_all is_digit body then (0, Some SyntaxError)
         else let v = (if neg then - int (read_nat body) else int (read_nat body))
              in if v < int64_min then (int64_min, Some RangeError)
                 else if int64_max < v then (int64_max, Some RangeError)
                 else (v, None))"

lemma show_nat_hd: "hd (show_nat n) \<noteq> CHR ''-'' \<and> hd (show_nat n) \<noteq> CHR ''+''"
proof -
  have "is_digit (hd (show_nat n))"
    using show_nat_digits [of n] by (simp add: hd_in_set)
  then show ?thesis by (auto simp: is_digit_def)
qed

lemma parse_show_int:
  assumes "int64_min \<le> i" "i \<le> int64_max"
  shows "parse_int (show_int i) = (i, None)"
  using assms show_nat_digits show_nat_hd
  by (auto simp: parse_int_def show_int_def list_all_iff Let_def)

section \<open>path/filepath\<close>

text \<open>
  \<open>filepath.Clean\<close>: the components between slashes, where an empty one and \<open>.\<close> are
  dropped and \<open>..\<close> drops the component before it; the components are kept in reverse.
\<close>

fun clean_step :: "bool \<Rightarrow> string list \<Rightarrow> string \<Rightarrow> string list" where
  "clean_step rooted acc c =
     (if c = [] \<or> c = ''.'' then acc
      else if c = ''..'' then
        (case acc of
           [] \<Rightarrow> if rooted then [] else [''..'']
         | x # xs \<Rightarrow> if x = ''..'' then ''..'' # acc else xs)
      else c # acc)"

definition path_clean :: "string \<Rightarrow> string" where
  "path_clean p =
     (let rooted = (p \<noteq> [] \<and> hd p = CHR ''/'');
          comps = rev (foldl (clean_step rooted) [] (split_on (CHR ''/'') p))
      in if rooted then CHR ''/'' # join_with ''/'' comps
         else if comps = [] then ''.'' else join_with ''/'' comps)"

definition path_join :: "string list \<Rightarrow> string" where
  "path_join elems =
     (case dropWhile (\<lambda>e. e = []) elems of
        [] \<Rightarrow> []
      | es \<Rightarrow> path_clean (join_with ''/'' es))"

definition path_base :: "string \<Rightarrow> string" where
  "path_base p =
     (if p = [] then ''.''
      else let q = rev (dropWhile (\<lambda>c. c = CHR ''/'') (rev p))
           in if q = [] then ''/'' else last (split_on (CHR ''/'') q))"

lemma path_base_not_Nil [simp]: "path_base p \<noteq> []"
proof -
  have "last (split_on (CHR ''/'') q) \<noteq> []" if "q \<noteq> []" "last q \<noteq> CHR ''/''" for q
  proof -
    from that obtain r x where "q = r @ [x]" "x \<noteq> CHR ''/''"
      by (metis append_butlast_last_id)
    then show ?thesis by (simp add: split_on_snoc)
  qed
  moreover have "last (rev (dropWhile (\<lambda>c. c = CHR ''/'') (rev p))) \<noteq> CHR ''/''"
    if ne: "rev (dropWhile (\<lambda>c. c = CHR ''/'') (rev p)) \<noteq> []"
  proof -
    from ne have "dropWhile (\<lambda>c. c = CHR ''/'') (rev p) \<noteq> []" by simp
    from hd_dropWhile [OF this] show ?thesis by (simp add: last_rev)
  qed
  ultimately show ?thesis by (simp add: path_base_def Let_def)
qed

lemma path_base_no_slash:
  "p \<noteq> [] \<Longrightarrow> CHR ''/'' \<notin> set p \<Longrightarrow> path_base p = p"
proof -
  assume a: "p \<noteq> []" "CHR ''/'' \<notin> set p"
  then have "last p \<noteq> CHR ''/''"
    by (metis last_in_set)
  then have "dropWhile (\<lambda>c. c = CHR ''/'') (rev p) = rev p"
    by (simp add: dropWhile_eq_self_iff hd_rev)
  with a show ?thesis by (simp add: path_base_def split_on_no_sep)
qed

section \<open>time.Duration.Seconds\<close>

text \<open>
  \<open>int(d.Seconds())\<close> goes through \<open>float64\<close>: the whole seconds plus the nanoseconds
  divided by 1e9, each operation rounded to 53 bits, ties to even. \<open>float_round p q\<close> is the
  rounding of the fraction \<open>p / q\<close> (at least 1 and below \<open>2 ^ 53\<close>) as a pair of a mantissa
  and a shift: the rounded value is the mantissa over \<open>2 ^ shift\<close>.
\<close>

fun bit_count :: "nat \<Rightarrow> nat" where
  "bit_count n = (if n = 0 then 0 else Suc (bit_count (n div 2)))"

declare bit_count.simps [simp del]

definition round_even :: "nat \<Rightarrow> nat \<Rightarrow> nat" where
  "round_even p q =
     (let k = p div q; r = p mod q
      in if 2 * r < q \<or> (2 * r = q \<and> even k) then k else k + 1)"

definition float_round :: "nat \<Rightarrow> nat \<Rightarrow> nat \<times> nat" where
  "float_round p q =
     (let s = 53 - bit_count (p div q) in (round_even (p * 2 ^ s) q, s))"

definition float_trunc :: "nat \<Rightarrow> nat \<Rightarrow> nat" where
  "float_trunc p q = (case float_round p q of (m, s) \<Rightarrow> m div 2 ^ s)"

text \<open>
  The fraction \<open>nsec / 1e9\<close> is scaled by \<open>2 ^ 30\<close> before it is rounded, which does not
  change its mantissa and makes it at least 1.
\<close>

definition float_secs :: "nat \<Rightarrow> nat \<Rightarrow> nat" where
  "float_secs sec nsec =
     (if nsec = 0 \<or> sec = 0 then sec
      else case float_round (nsec * 2 ^ 30) 1000000000 of
             (m, s) \<Rightarrow> float_trunc (sec * 2 ^ (s + 30) + m) (2 ^ (s + 30)))"

definition second :: int where "second = 1000000000"

definition seconds_int :: "int \<Rightarrow> int" where
  "seconds_int d =
     sgn d * int (float_secs (nat \<bar>d sdiv second\<bar>) (nat \<bar>d smod second\<bar>))"

lemma round_even_ge: "p div q \<le> round_even p q"
  by (simp add: round_even_def Let_def)

lemma round_even_le:
  assumes "p \<le> c * q" "0 < q"
  shows "round_even p q \<le> c"
proof (cases "p div q < c")
  case True
  then show ?thesis by (simp add: round_even_def Let_def)
next
  case False
  with assms have "p = c * q"
    by (metis div_le_mono div_mult_self_is_m div_times_less_eq_dividend le_antisym not_less
        dual_order.trans mult_le_mono1)
  with assms show ?thesis by (simp add: round_even_def Let_def)
qed

lemma float_trunc_ge: "0 < q \<Longrightarrow> p div q \<le> float_trunc p q"
proof -
  assume q: "0 < q"
  let ?s = "53 - bit_count (p div q)"
  have "p div q = (p * 2 ^ ?s) div (q * 2 ^ ?s)" by simp
  also have "\<dots> = (p * 2 ^ ?s) div q div 2 ^ ?s" by (rule div_mult2_eq)
  also have "\<dots> \<le> round_even (p * 2 ^ ?s) q div 2 ^ ?s"
    by (intro div_le_mono round_even_ge)
  finally show ?thesis by (simp add: float_trunc_def float_round_def Let_def)
qed

lemma float_trunc_le:
  assumes "p \<le> c * q" "0 < q"
  shows "float_trunc p q \<le> c"
proof -
  let ?s = "53 - bit_count (p div q)"
  have "p * 2 ^ ?s \<le> (c * 2 ^ ?s) * q"
    using assms(1) by (simp add: mult.assoc mult.commute mult.left_commute)
  then have "round_even (p * 2 ^ ?s) q \<le> c * 2 ^ ?s"
    using assms(2) by (rule round_even_le)
  then have "round_even (p * 2 ^ ?s) q div 2 ^ ?s \<le> c * 2 ^ ?s div 2 ^ ?s"
    by (rule div_le_mono)
  then show ?thesis by (simp add: float_trunc_def float_round_def Let_def)
qed

lemma float_secs_bounds:
  assumes "nsec < 1000000000"
  shows "sec \<le> float_secs sec nsec \<and> float_secs sec nsec \<le> sec + 1"
proof (cases "nsec = 0 \<or> sec = 0")
  case True
  then show ?thesis by (auto simp: float_secs_def)
next
  case False
  obtain m s where ms: "float_round (nsec * 2 ^ 30) 1000000000 = (m, s)" by force
  have "nsec * 2 ^ 30 * 2 ^ s \<le> (2 ^ (s + 30)) * 1000000000"
    using assms by (simp add: power_add)
  then have "m \<le> 2 ^ (s + 30)"
    using ms round_even_le [of "nsec * 2 ^ 30 * 2 ^ s" "2 ^ (s + 30)" 1000000000]
    by (auto simp: float_round_def Let_def)
  then have le: "sec * 2 ^ (s + 30) + m \<le> (sec + 1) * 2 ^ (s + 30)" by simp
  have "sec \<le> (sec * 2 ^ (s + 30) + m) div 2 ^ (s + 30)" by simp
  also have "\<dots> \<le> float_trunc (sec * 2 ^ (s + 30) + m) (2 ^ (s + 30))"
    by (rule float_trunc_ge) simp
  finally show ?thesis
    using float_trunc_le [OF le] False ms by (simp add: float_secs_def)
qed

lemma seconds_int_of_seconds: "seconds_int (n * second) = n"
proof -
  have "\<bar>n * second\<bar> div \<bar>second\<bar> = \<bar>n\<bar>"
    by (simp add: abs_mult second_def)
  then have "n * second sdiv second = n"
    by (cases "n = 0") (simp_all add: signed_divide_int_def sgn_mult second_def
        abs_mult abs_sgn [symmetric] mult.assoc, simp add: sgn_mult_abs)
  moreover have "n * second smod second = 0"
    by (simp add: signed_modulo_int_def abs_mult)
  ultimately show ?thesis
    by (simp add: seconds_int_def float_secs_def sgn_mult second_def sgn_mult_abs)
qed

lemma seconds_int_bounds:
  assumes "0 \<le> d"
  shows "d div second \<le> seconds_int d \<and> seconds_int d \<le> d div second + 1"
proof (cases "d = 0")
  case True
  then show ?thesis by (simp add: seconds_int_def)
next
  case False
  with assms have d: "0 < d" by simp
  have "nat (d mod second) < 1000000000"
    by (simp add: second_def nat_less_iff)
  from float_secs_bounds [OF this, of "nat (d div second)"] d show ?thesis
    by (simp add: seconds_int_def sdiv_nonneg smod_nonneg second_def pos_imp_zdiv_nonneg_iff) linarith
qed

section \<open>The last component of a joined path\<close>

lemma foldl_clean_snoc:
  "c \<noteq> [] \<Longrightarrow> c \<noteq> ''.'' \<Longrightarrow> c \<noteq> ''..'' \<Longrightarrow>
     foldl (clean_step b) [] (cs @ [c]) = c # foldl (clean_step b) [] cs"
  by simp

lemma split_on_snoc_sep: "c \<notin> set b \<Longrightarrow> split_on c (a @ c # b) = split_on c a @ [b]"
proof (induction a)
  case (Cons x a)
  then show ?case by (cases "split_on c a") auto
qed (simp add: split_on_no_sep)

lemma join_with_snoc:
  "join_with sep (xs @ [c]) = (if xs = [] then c else join_with sep xs @ sep @ c)"
  by (induction sep xs rule: join_with.induct) auto

lemma path_join_inj:
  assumes "d \<noteq> []" "CHR ''/'' \<notin> set a" "CHR ''/'' \<notin> set b"
    and "a \<notin> {[], ''.'', ''..''}" "b \<notin> {[], ''.'', ''..''}"
    and "path_join [d, a] = path_join [d, b]"
  shows "a = b"
proof -
  define acc where "acc = rev (foldl (clean_step (hd d = CHR ''/'')) [] (split_on (CHR ''/'') d))"
  have join: "path_join [d, c] = (if hd d = CHR ''/'' then [CHR ''/''] else []) @
      (if acc = [] then c else join_with ''/'' acc @ ''/'' @ c)"
    if "CHR ''/'' \<notin> set c" "c \<notin> {[], ''.'', ''..''}" for c
  proof -
    have "split_on (CHR ''/'') (d @ CHR ''/'' # c) = split_on (CHR ''/'') d @ [c]"
      by (rule split_on_snoc_sep [OF that(1)])
    then show ?thesis
      using assms(1) that(2) foldl_clean_snoc [of c]
      by (simp add: path_join_def path_clean_def acc_def join_with_snoc)
  qed
  from assms(6) show ?thesis
    using join [OF assms(2,4)] join [OF assms(3,5)] by (simp split: if_splits)
qed

lemma path_base_slash:
  assumes "b \<noteq> []" "CHR ''/'' \<notin> set b"
  shows "path_base (a @ CHR ''/'' # b) = b"
proof -
  from assms have "last b \<noteq> CHR ''/''" by (metis last_in_set)
  with assms(1) have "dropWhile (\<lambda>c. c = CHR ''/'') (rev (a @ CHR ''/'' # b)) = rev (a @ CHR ''/'' # b)"
    by (subst dropWhile_eq_self_iff) (simp add: hd_append hd_rev)
  then have "rev (dropWhile (\<lambda>c. c = CHR ''/'') (rev (a @ CHR ''/'' # b))) = a @ CHR ''/'' # b"
    by (metis rev_rev_ident)
  then show ?thesis
    using split_on_snoc_sep [OF assms(2), of a] by (simp add: path_base_def Let_def)
qed

end
