(* ===== verification/Time_Wheel.thy ===== *)
theory Time_Wheel
  imports Delay_Queue Go_Std
begin

text \<open>
  The timing wheel of \<open>node/tw/timewheel.go\<close>. A slot is a linked list of pointers to
  \<open>TimeItem\<close> objects, and \<open>mapItems\<close> holds the same pointers, so the objects live in an
  explicit \<open>heap\<close> (a list indexed by address; allocation appends). The model covers
  \<open>NewTimeWheel\<close>, \<open>calcSlotAndCircle\<close>, \<open>Add\<close>, \<open>Delete\<close>, \<open>Check\<close>, \<open>Get\<close>,
  \<open>Trigger\<close>, \<open>retrieve\<close> and the two getters, with every out-of-range index and division
  by zero as a panic. The lemmas show the invariant that links slots, map and heap, what
  each operation does to the ticks an item has left, and that the wheel is a
  \<open>delay_queue\<close>.
\<close>

section \<open>State\<close>

type_synonym addr = nat

record time_item =
  ti_index :: int
  ti_circle :: int
  ti_id :: i64

record time_wheel =
  interval :: duration
  slots :: "addr list list"
  mapItems :: "i64 \<rightharpoonup> addr"
  currentSlot :: int
  maxSlot :: int
  heap :: "time_item list"

definition defaultInterval :: duration where "defaultInterval = 1000000000"
definition defaultSlot :: int where "defaultSlot = 3600"

section \<open>Operations\<close>

text \<open>
  The loop that creates the lists writes \<open>slots[0 .. mx)\<close> into a slice of length \<open>len\<close>. Where
  \<open>len\<close> is the larger, the rest stays nil and is never reached, since every index is taken
  modulo \<open>maxSlot\<close>; only the initialised lists are kept in the model.
\<close>

definition init_slots :: "int \<Rightarrow> int \<Rightarrow> panic + addr list list" where
  "init_slots len mx =
     (if len < 0 then Inl MakeSliceLen
      else if len < mx then Inl IndexOutOfRange
      else Inr (replicate (nat mx) []))"

definition new_time_wheel :: "duration \<Rightarrow> int \<Rightarrow> panic + time_wheel" where
  "new_time_wheel iv mx =
     (let (iv', mx') = (if sint iv \<le> 0 \<or> mx \<le> 0 then (defaultInterval, defaultSlot) else (iv, mx))
      in case init_slots mx mx' of
           Inl p \<Rightarrow> Inl p
         | Inr ls \<Rightarrow> Inr \<lparr>interval = iv', slots = ls, mapItems = Map.empty,
                        currentSlot = 0, maxSlot = mx', heap = []\<rparr>)"

definition calc_slot_and_circle :: "duration \<Rightarrow> duration \<Rightarrow> int \<Rightarrow> int \<Rightarrow> panic + int \<times> int" where
  "calc_slot_and_circle d iv cur mx =
     (let delaySeconds = seconds_int (sint d); intervalSeconds = seconds_int (sint iv)
      in if intervalSeconds = 0 \<or> mx = 0 then Inl DivideByZero
         else Inr ((cur + delaySeconds sdiv intervalSeconds) smod mx,
                   delaySeconds sdiv intervalSeconds sdiv mx))"

definition slot_ok :: "time_wheel \<Rightarrow> int \<Rightarrow> bool" where
  "slot_ok tw i \<longleftrightarrow> 0 \<le> i \<and> i < int (length (slots tw))"

definition tw_add :: "duration \<Rightarrow> i64 \<Rightarrow> time_wheel \<Rightarrow> (time_wheel, int \<times> int) outcome" where
  "tw_add d k tw =
     (case calc_slot_and_circle d (interval tw) (currentSlot tw) (maxSlot tw) of
        Inl p \<Rightarrow> Panic p tw
      | Inr (index, circle) \<Rightarrow>
          let a = length (heap tw);
              tw1 = tw\<lparr>heap := heap tw @ [\<lparr>ti_index = index, ti_circle = circle, ti_id = k\<rparr>],
                       mapItems := (mapItems tw)(k \<mapsto> a)\<rparr>
          in if slot_ok tw1 index
             then Ret (index, circle)
                    (tw1\<lparr>slots := (slots tw1)[nat index := slots tw1 ! nat index @ [a]]\<rparr>)
             else Panic IndexOutOfRange tw1)"

text \<open>
  The scan of \<open>Delete\<close>. \<open>l.Remove(e)\<close> clears the element's links, so the \<open>e.Next()\<close> after it
  is nil and the scan ends with the first match: \<^const>\<open>None\<close> when there is none, else
  the list without it.
\<close>

fun delete_scan :: "time_item list \<Rightarrow> i64 \<Rightarrow> addr list \<Rightarrow> addr list option" where
  "delete_scan h k [] = None"
| "delete_scan h k (e # es) =
     (if ti_id (h ! e) = k then Some es else map_option (Cons e) (delete_scan h k es))"

definition tw_delete :: "i64 \<Rightarrow> time_wheel \<Rightarrow> (time_wheel, bool) outcome" where
  "tw_delete k tw =
     (case mapItems tw k of
        None \<Rightarrow> Ret True tw
      | Some a \<Rightarrow>
          let i = ti_index (heap tw ! a)
          in if slot_ok tw i
             then (case delete_scan (heap tw) k (slots tw ! nat i) of
                     None \<Rightarrow> Ret False tw
                   | Some es \<Rightarrow>
                       Ret True (tw\<lparr>mapItems := (mapItems tw)(k := None),
                                    slots := (slots tw)[nat i := es]\<rparr>))
             else Panic IndexOutOfRange tw)"

definition tw_check :: "i64 \<Rightarrow> time_wheel \<Rightarrow> bool" where
  "tw_check k tw = (case mapItems tw k of None \<Rightarrow> False | Some _ \<Rightarrow> True)"

definition tw_get :: "i64 \<Rightarrow> time_wheel \<Rightarrow> int \<times> int" where
  "tw_get k tw =
     (case mapItems tw k of
        None \<Rightarrow> (0, 0)
      | Some a \<Rightarrow> (ti_index (heap tw ! a), ti_circle (heap tw ! a)))"

text \<open>The loop of \<open>retrieve\<close>: what stays in the slot, what fires, the heap and the map.\<close>

fun retrieve :: "addr list \<Rightarrow> time_item list \<Rightarrow> (i64 \<rightharpoonup> addr) \<Rightarrow>
    addr list \<times> i64 list \<times> time_item list \<times> (i64 \<rightharpoonup> addr)" where
  "retrieve [] h m = ([], [], h, m)"
| "retrieve (e # es) h m =
     (if ti_circle (h ! e) > 0
      then let (kept, fired, h', m') =
             retrieve es (h[e := (h ! e)\<lparr>ti_circle := ti_circle (h ! e) - 1\<rparr>]) m
           in (e # kept, fired, h', m')
      else let (kept, fired, h', m') = retrieve es h (m(ti_id (h ! e) := None))
           in (kept, ti_id (h ! e) # fired, h', m'))"

definition tw_trigger :: "time_wheel \<Rightarrow> (time_wheel, i64 list) outcome" where
  "tw_trigger tw =
     (if slot_ok tw (currentSlot tw)
      then let i = nat (currentSlot tw);
               (kept, fired, h, m) = retrieve (slots tw ! i) (heap tw) (mapItems tw);
               tw1 = tw\<lparr>slots := (slots tw)[i := kept], heap := h, mapItems := m\<rparr>
           in Ret fired (tw1\<lparr>currentSlot :=
                (if currentSlot tw1 = maxSlot tw1 - 1 then 0 else currentSlot tw1 + 1)\<rparr>)
      else Panic IndexOutOfRange tw)"

definition tw_interval :: "time_wheel \<Rightarrow> duration" where
  "tw_interval tw = interval tw"

definition tw_max_slot :: "time_wheel \<Rightarrow> int" where
  "tw_max_slot tw = maxSlot tw"

section \<open>Invariant and abstraction\<close>

definition in_slot :: "time_wheel \<Rightarrow> nat \<Rightarrow> addr \<Rightarrow> bool" where
  "in_slot tw i a \<longleftrightarrow> i < length (slots tw) \<and> a \<in> set (slots tw ! i)"

definition entry_ok :: "time_wheel \<Rightarrow> nat \<Rightarrow> addr \<Rightarrow> bool" where
  "entry_ok tw i a \<longleftrightarrow> a < length (heap tw) \<and> ti_index (heap tw ! a) = int i \<and>
     0 \<le> ti_circle (heap tw ! a) \<and> mapItems tw (ti_id (heap tw ! a)) = Some a"

definition mapped_ok :: "time_wheel \<Rightarrow> i64 \<Rightarrow> addr \<Rightarrow> bool" where
  "mapped_ok tw k a \<longleftrightarrow> a < length (heap tw) \<and> ti_id (heap tw ! a) = k \<and>
     0 \<le> ti_index (heap tw ! a) \<and> in_slot tw (nat (ti_index (heap tw ! a))) a"

definition wheel_ok :: "time_wheel \<Rightarrow> bool" where
  "wheel_ok tw \<longleftrightarrow> 0 < maxSlot tw \<and> maxSlot tw = int (length (slots tw)) \<and>
     0 \<le> currentSlot tw \<and> currentSlot tw < maxSlot tw \<and> 0 < seconds_int (sint (interval tw))"

definition tw_inv :: "time_wheel \<Rightarrow> bool" where
  "tw_inv tw \<longleftrightarrow> wheel_ok tw \<and> (\<forall>i < length (slots tw). distinct (slots tw ! i)) \<and>
     (\<forall>i a. in_slot tw i a \<longrightarrow> entry_ok tw i a) \<and>
     (\<forall>k a. mapItems tw k = Some a \<longrightarrow> mapped_ok tw k a)"

text \<open>The ticks an entry has left: the slots up to its own, and a turn per circle.\<close>

definition ticks_left :: "time_wheel \<Rightarrow> addr \<Rightarrow> nat" where
  "ticks_left tw a =
     nat ((ti_index (heap tw ! a) - currentSlot tw) mod maxSlot tw +
          ti_circle (heap tw ! a) * maxSlot tw)"

definition tw_pending :: "time_wheel \<Rightarrow> i64 pending" where
  "tw_pending tw k = map_option (ticks_left tw) (mapItems tw k)"

definition delay_ticks :: "time_wheel \<Rightarrow> duration \<Rightarrow> int" where
  "delay_ticks tw d = seconds_int (sint d) sdiv seconds_int (sint (interval tw))"

lemma tw_invD:
  assumes "tw_inv tw"
  shows "wheel_ok tw" "i < length (slots tw) \<Longrightarrow> distinct (slots tw ! i)"
    "in_slot tw i a \<Longrightarrow> entry_ok tw i a" "mapItems tw k = Some a \<Longrightarrow> mapped_ok tw k a"
  using assms by (auto simp: tw_inv_def)

lemma wheel_ok_max: "wheel_ok tw \<Longrightarrow> 0 < maxSlot tw"
  and wheel_ok_length: "wheel_ok tw \<Longrightarrow> int (length (slots tw)) = maxSlot tw"
  and wheel_ok_current: "wheel_ok tw \<Longrightarrow> 0 \<le> currentSlot tw \<and> currentSlot tw < maxSlot tw"
  and wheel_ok_interval: "wheel_ok tw \<Longrightarrow> 0 < seconds_int (sint (interval tw))"
  by (auto simp: wheel_ok_def)

lemmas wheel_okD = wheel_ok_max wheel_ok_length wheel_ok_current wheel_ok_interval

lemma slot_ok_current [simp]: "wheel_ok tw \<Longrightarrow> slot_ok tw (currentSlot tw)"
  by (simp add: slot_ok_def wheel_okD)

lemma slot_ok_mod [simp]: "wheel_ok tw \<Longrightarrow> slot_ok tw (n mod maxSlot tw)"
  by (simp add: slot_ok_def wheel_okD)

lemma slot_ok_nat: "slot_ok tw i \<longleftrightarrow> 0 \<le> i \<and> nat i < length (slots tw)"
  by (auto simp: slot_ok_def)

lemma in_slot_id:
  assumes "tw_inv tw" "in_slot tw i a"
  shows "ti_id (heap tw ! a) = k \<longleftrightarrow> mapItems tw k = Some a"
proof -
  from tw_invD(3) [OF assms] have e: "mapItems tw (ti_id (heap tw ! a)) = Some a"
    by (simp add: entry_ok_def)
  then show ?thesis
    using tw_invD(4) [OF assms(1), of k a] by (auto simp: mapped_ok_def)
qed

section \<open>Construction\<close>

lemma new_time_wheel_ok [branch_simps]:
  "0 < sint iv \<Longrightarrow> 0 < mx \<Longrightarrow> new_time_wheel iv mx =
     Inr \<lparr>interval = iv, slots = replicate (nat mx) [], mapItems = Map.empty,
          currentSlot = 0, maxSlot = mx, heap = []\<rparr>"
  by (simp add: new_time_wheel_def init_slots_def)

lemma new_time_wheel_inv [inv_intros]:
  assumes "new_time_wheel iv mx = Inr tw" "0 < seconds_int (sint (interval tw))"
  shows "tw_inv tw"
  using assms
  by (auto simp: new_time_wheel_def init_slots_def tw_inv_def wheel_ok_def in_slot_def
      defaultSlot_def Let_def split: if_splits)

section \<open>Add\<close>

lemma calc_slot_and_circle_nonneg:
  assumes "wheel_ok tw" "0 \<le> delay_ticks tw d"
  shows "calc_slot_and_circle d (interval tw) (currentSlot tw) (maxSlot tw) =
    Inr ((currentSlot tw + delay_ticks tw d) mod maxSlot tw, delay_ticks tw d div maxSlot tw)"
  using assms wheel_okD [OF assms(1)]
  by (simp add: calc_slot_and_circle_def delay_ticks_def Let_def smod_nonneg sdiv_nonneg)

text \<open>What \<open>Add\<close> returns and stores when the delay is not negative.\<close>

lemma tw_add_nonneg:
  assumes "wheel_ok tw" "0 \<le> delay_ticks tw d"
  defines "i \<equiv> (currentSlot tw + delay_ticks tw d) mod maxSlot tw"
    and "c \<equiv> delay_ticks tw d div maxSlot tw"
  shows "tw_add d k tw =
    Ret (i, c) (tw\<lparr>heap := heap tw @ [\<lparr>ti_index = i, ti_circle = c, ti_id = k\<rparr>],
                  mapItems := (mapItems tw)(k \<mapsto> length (heap tw)),
                  slots := (slots tw)[nat i := slots tw ! nat i @ [length (heap tw)]]\<rparr>)"
  using calc_slot_and_circle_nonneg [OF assms(1,2)] slot_ok_mod [OF assms(1)]
  by (simp add: tw_add_def i_def c_def Let_def slot_ok_def)

lemma in_slot_append:
  assumes "j < length (slots tw)"
  shows "in_slot (tw\<lparr>heap := h, mapItems := m, slots := (slots tw)[j := slots tw ! j @ [x]]\<rparr>) i a
    \<longleftrightarrow> in_slot tw i a \<or> (i = j \<and> a = x)"
  using assms by (auto simp: in_slot_def nth_list_update split: if_splits)

lemma tw_add_inv [inv_intros]:
  assumes inv: "tw_inv tw" and new: "mapItems tw k = None" and d: "0 \<le> delay_ticks tw d"
    and add: "tw_add d k tw = Ret r tw'"
  shows "tw_inv tw'"
proof -
  define i where "i = (currentSlot tw + delay_ticks tw d) mod maxSlot tw"
  define c where "c = delay_ticks tw d div maxSlot tw"
  define a where "a = length (heap tw)"
  from inv have ok: "wheel_ok tw" by (rule tw_invD)
  from tw_add_nonneg [OF ok d] add have tw': "tw' =
    tw\<lparr>heap := heap tw @ [\<lparr>ti_index = i, ti_circle = c, ti_id = k\<rparr>],
       mapItems := (mapItems tw)(k \<mapsto> a),
       slots := (slots tw)[nat i := slots tw ! nat i @ [a]]\<rparr>"
    by (simp add: i_def c_def a_def)
  have i: "0 \<le> i" "nat i < length (slots tw)" and c: "0 \<le> c"
    using wheel_okD [OF ok] slot_ok_mod [OF ok] d
    by (simp_all add: i_def c_def pos_imp_zdiv_nonneg_iff slot_ok_nat)
  have old: "b < a \<and> ti_id (heap tw ! b) \<noteq> k" if "in_slot tw j b" for j b
    using tw_invD(3) [OF inv that] new by (auto simp: entry_ok_def a_def)
  have slot: "in_slot tw' j b \<longleftrightarrow> in_slot tw j b \<or> (j = nat i \<and> b = a)" for j b
    unfolding tw' by (rule in_slot_append [OF i(2)])
  have "wheel_ok tw'" using ok by (auto simp: tw' wheel_ok_def)
  moreover have "distinct (slots tw' ! j)" if "j < length (slots tw')" for j
    using that tw_invD(2) [OF inv] old [of "nat i" a] i
    by (auto simp: tw' nth_list_update in_slot_def)
  moreover have "entry_ok tw' j b" if "in_slot tw' j b" for j b
  proof (cases "b = a")
    case True
    with that slot old have "j = nat i" by blast
    with True i c show ?thesis by (simp add: tw' entry_ok_def a_def)
  next
    case False
    with that slot have "in_slot tw j b" by blast
    with old [OF this] tw_invD(3) [OF inv this] show ?thesis
      by (auto simp: tw' entry_ok_def a_def nth_append_old)
  qed
  moreover have "mapped_ok tw' k' b" if "mapItems tw' k' = Some b" for k' b
  proof (cases "k' = k")
    case True
    with that have "b = a" by (simp add: tw')
    with True i slot [of "nat i" a] show ?thesis by (simp add: mapped_ok_def tw' a_def)
  next
    case False
    with that have "mapItems tw k' = Some b" by (simp add: tw')
    from tw_invD(4) [OF inv this] slot show ?thesis
      by (auto simp: mapped_ok_def a_def tw' nth_append_old)
  qed
  ultimately show ?thesis by (simp add: tw_inv_def)
qed

lemma ticks_left_bounds:
  assumes "wheel_ok tw" "0 \<le> ti_circle (heap tw ! a)"
  shows "int (ticks_left tw a) =
    (ti_index (heap tw ! a) - currentSlot tw) mod maxSlot tw + ti_circle (heap tw ! a) * maxSlot tw"
  using wheel_ok_max [OF assms(1)] assms(2) by (simp add: ticks_left_def)

lemma tw_add_pending:
  assumes inv: "tw_inv tw" and d: "0 \<le> delay_ticks tw d" and add: "tw_add d k tw = Ret r tw'"
  shows "tw_pending tw' = (tw_pending tw)(k \<mapsto> nat (delay_ticks tw d))"
proof
  fix k'
  let ?n = "delay_ticks tw d" and ?m = "maxSlot tw"
  from inv have ok: "wheel_ok tw" by (rule tw_invD)
  then have m: "0 < ?m" by (rule wheel_ok_max)
  have "((currentSlot tw + ?n) mod ?m - currentSlot tw) mod ?m = ?n mod ?m"
    by (simp add: mod_diff_left_eq)
  then have new: "((currentSlot tw + ?n) mod ?m - currentSlot tw) mod ?m + ?n div ?m * ?m = ?n"
    by (simp add: mod_div_mult_eq)
  show "tw_pending tw' k' = ((tw_pending tw)(k \<mapsto> nat ?n)) k'"
  proof (cases "k' = k")
    case True
    with add tw_add_nonneg [OF ok d] new show ?thesis
      by (auto simp: tw_pending_def ticks_left_def)
  next
    case False
    have "a < length (heap tw)" if "mapItems tw k' = Some a" for a
      using tw_invD(4) [OF inv that] by (simp add: mapped_ok_def)
    with False add tw_add_nonneg [OF ok d] show ?thesis
      by (cases "mapItems tw k'") (auto simp: tw_pending_def ticks_left_def nth_append_old)
  qed
qed

section \<open>Delete\<close>

text \<open>In a duplicate-free list whose entry \<open>a\<close> is the only one with the identifier, the
  scan removes \<open>a\<close>.\<close>

lemma delete_scan_unique:
  "a \<in> set es \<Longrightarrow> \<forall>b \<in> set es. ti_id (h ! b) = k \<longleftrightarrow> b = a \<Longrightarrow>
     delete_scan h k es = Some (remove1 a es)"
  by (induction es) auto

lemma in_slot_update:
  assumes "j < length (slots tw)" "set es = set (slots tw ! j) - {x}"
    and "\<And>i. in_slot tw i x \<Longrightarrow> i = j"
  shows "in_slot (tw\<lparr>mapItems := m, slots := (slots tw)[j := es]\<rparr>) i a
    \<longleftrightarrow> in_slot tw i a \<and> a \<noteq> x"
  using assms by (auto simp: in_slot_def nth_list_update split: if_splits)

lemma tw_delete_absent [branch_simps]:
  "mapItems tw k = None \<Longrightarrow> tw_delete k tw = Ret True tw"
  by (simp add: tw_delete_def)

lemma tw_delete_present:
  assumes inv: "tw_inv tw" and a: "mapItems tw k = Some a"
  defines "j \<equiv> nat (ti_index (heap tw ! a))"
  shows "tw_delete k tw = Ret True (tw\<lparr>mapItems := (mapItems tw)(k := None),
    slots := (slots tw)[j := remove1 a (slots tw ! j)]\<rparr>)"
proof -
  from tw_invD(4) [OF inv a] have m: "in_slot tw j a" "0 \<le> ti_index (heap tw ! a)"
      "ti_id (heap tw ! a) = k"
    by (simp_all add: mapped_ok_def j_def)
  then have "slot_ok tw (ti_index (heap tw ! a))"
    by (simp add: slot_ok_nat in_slot_def j_def)
  moreover have "\<forall>b \<in> set (slots tw ! j). ti_id (heap tw ! b) = k \<longleftrightarrow> b = a"
    using in_slot_id [OF inv, of j _ k] m(1) a by (auto simp: in_slot_def)
  then have "delete_scan (heap tw) k (slots tw ! j) = Some (remove1 a (slots tw ! j))"
    using m by (intro delete_scan_unique) (auto simp: in_slot_def)
  ultimately show ?thesis using a by (simp add: tw_delete_def j_def Let_def)
qed

lemma tw_delete_inv [inv_intros]:
  assumes inv: "tw_inv tw" and del: "tw_delete k tw = Ret r tw'"
  shows "tw_inv tw'"
proof (cases "mapItems tw k")
  case None
  with inv del show ?thesis by (simp add: branch_simps)
next
  case (Some a)
  define j where "j = nat (ti_index (heap tw ! a))"
  let ?es = "remove1 a (slots tw ! j)"
  from tw_delete_present [OF inv Some] del
  have tw': "tw' = tw\<lparr>mapItems := (mapItems tw)(k := None), slots := (slots tw)[j := ?es]\<rparr>"
    by (simp add: j_def)
  from tw_invD(4) [OF inv Some] have j: "in_slot tw j a" by (simp add: mapped_ok_def j_def)
  then have jlen: "j < length (slots tw)" by (simp add: in_slot_def)
  have only: "i = j" if "in_slot tw i a" for i
    using tw_invD(3) [OF inv that] by (simp add: entry_ok_def j_def)
  have es: "set ?es = set (slots tw ! j) - {a}" "distinct ?es"
    using tw_invD(2) [OF inv jlen] by (simp_all add: set_remove1_eq)
  have slot: "in_slot tw' i b \<longleftrightarrow> in_slot tw i b \<and> b \<noteq> a" for i b
    unfolding tw' by (rule in_slot_update [OF jlen es(1) only])
  have "wheel_ok tw'" using tw_invD(1) [OF inv] by (auto simp: tw' wheel_ok_def)
  moreover have "distinct (slots tw' ! i)" if "i < length (slots tw')" for i
    using that tw_invD(2) [OF inv] es(2) jlen by (cases "i = j") (simp_all add: tw')
  moreover have "entry_ok tw' i b" if "in_slot tw' i b" for i b
  proof -
    from that slot have b: "in_slot tw i b" "b \<noteq> a" by simp_all
    from tw_invD(3) [OF inv b(1)] in_slot_id [OF inv b(1), of k] Some b(2) show ?thesis
      by (auto simp: entry_ok_def tw')
  qed
  moreover have "mapped_ok tw' k' b" if "mapItems tw' k' = Some b" for k' b
  proof -
    from that have k': "k' \<noteq> k" "mapItems tw k' = Some b" by (auto simp: tw' split: if_splits)
    from tw_invD(4) [OF inv Some] tw_invD(4) [OF inv k'(2)] k'(1) have "b \<noteq> a"
      by (auto simp: mapped_ok_def)
    with tw_invD(4) [OF inv k'(2)] slot show ?thesis by (simp add: mapped_ok_def tw')
  qed
  ultimately show ?thesis by (simp add: tw_inv_def)
qed

lemma tw_delete_pending:
  assumes "tw_inv tw" "tw_delete k tw = Ret r tw'"
  shows "tw_pending tw' = (tw_pending tw)(k := None)"
proof (cases "mapItems tw k")
  case None
  with assms show ?thesis by (auto simp: branch_simps tw_pending_def)
next
  case (Some a)
  with tw_delete_present [OF assms(1) Some] assms(2)
  have "ticks_left tw' = ticks_left tw" "mapItems tw' = (mapItems tw)(k := None)"
    by (auto simp: ticks_left_def fun_eq_iff)
  then show ?thesis by (auto simp: tw_pending_def)
qed

lemma tw_delete_returns:
  assumes "tw_inv tw"
  obtains tw' where "tw_delete k tw = Ret True tw'"
  using assms by (cases "mapItems tw k") (auto simp: branch_simps dest: tw_delete_present)

section \<open>Trigger\<close>

text \<open>What the loop of \<open>retrieve\<close> computes on a duplicate-free list.\<close>

abbreviation stays :: "time_item list \<Rightarrow> addr \<Rightarrow> bool" where
  "stays h a \<equiv> ti_circle (h ! a) > 0"

definition retrieved ::
  "addr list \<Rightarrow> time_item list \<Rightarrow> (i64 \<rightharpoonup> addr) \<Rightarrow> addr list \<times> i64 list \<times> time_item list \<times> (i64 \<rightharpoonup> addr) \<Rightarrow> bool" where
  "retrieved l h m = (\<lambda>(kept, fired, h', m'). kept = filter (stays h) l \<and>
     fired = map (\<lambda>a. ti_id (h ! a)) (filter (\<lambda>a. \<not> stays h a) l) \<and> length h' = length h \<and>
     (\<forall>a. h' ! a = (if a \<in> set kept then (h ! a)\<lparr>ti_circle := ti_circle (h ! a) - 1\<rparr> else h ! a)) \<and>
     (\<forall>k. m' k = (if k \<in> set fired then None else m k)))"

lemma retrieved_stays:
  assumes "e \<notin> set es" "e < length h" "stays h e"
    and "retrieved es (h[e := (h ! e)\<lparr>ti_circle := ti_circle (h ! e) - 1\<rparr>]) m (kept, fired, h', m')"
  shows "retrieved (e # es) h m (e # kept, fired, h', m')"
proof -
  let ?h = "h[e := (h ! e)\<lparr>ti_circle := ti_circle (h ! e) - 1\<rparr>]"
  have same: "?h ! a = h ! a" if "a \<in> set es" for a using that assms(1) by (cases "a = e") auto
  then have "filter (stays ?h) es = filter (stays h) es"
    "map (\<lambda>a. ti_id (?h ! a)) (filter (\<lambda>a. \<not> stays ?h a) es) = map (\<lambda>a. ti_id (h ! a)) (filter (\<lambda>a. \<not> stays h a) es)"
    by (simp_all cong: filter_cong map_cong)
  with assms same show ?thesis by (auto simp: retrieved_def nth_list_update)
qed

lemma retrieved_fires:
  "\<not> stays h e \<Longrightarrow> retrieved es h (m(ti_id (h ! e) := None)) (kept, fired, h', m') \<Longrightarrow>
     retrieved (e # es) h m (kept, ti_id (h ! e) # fired, h', m')"
  by (auto simp: retrieved_def)

lemma retrieve_retrieved: "distinct l \<Longrightarrow> \<forall>a \<in> set l. a < length h \<Longrightarrow> retrieved l h m (retrieve l h m)"
proof (induction l h m rule: retrieve.induct)
  case (2 e es h m)
  show ?case
  proof (cases "stays h e")
    case True
    with "2.IH"(1) [OF True] "2.prems" retrieved_stays [of e es h m] show ?thesis by (auto split: prod.split)
  next
    case False
    with "2.IH"(2) [OF False] "2.prems" retrieved_fires [OF False] show ?thesis by (auto simp del: fun_upd_apply split: prod.split)
  qed
qed (simp add: retrieved_def)

lemma retrieve_spec:
  assumes "distinct l" "\<forall>a \<in> set l. a < length h" "retrieve l h m = (kept, fired, h', m')"
  shows "kept = filter (\<lambda>a. ti_circle (h ! a) > 0) l"
    and "fired = map (\<lambda>a. ti_id (h ! a)) (filter (\<lambda>a. \<not> ti_circle (h ! a) > 0) l)"
    and "length h' = length h"
    and "\<And>a. h' ! a = (if a \<in> set kept then (h ! a)\<lparr>ti_circle := ti_circle (h ! a) - 1\<rparr> else h ! a)"
    and "\<And>k. m' k = (if k \<in> set fired then None else m k)"
  using retrieve_retrieved [OF assms(1,2), of m] unfolding assms(3) retrieved_def by simp_all

definition next_slot :: "time_wheel \<Rightarrow> int" where
  "next_slot tw = (if currentSlot tw = maxSlot tw - 1 then 0 else currentSlot tw + 1)"

lemma next_slot_mod: "wheel_ok tw \<Longrightarrow> next_slot tw = (currentSlot tw + 1) mod maxSlot tw"
  using wheel_ok_current [of tw] by (auto simp: next_slot_def)

lemma mod_pred:
  "0 < m \<Longrightarrow> (x - 1) mod m = (if x mod m = 0 then m - 1 else x mod m - (1 :: int))"
  by (smt (verit, ccfv_SIG) mod_diff_left_eq mod_pos_pos_trivial pos_mod_bound pos_mod_sign
      zmod_minus1)

lemma ticks_left_entry:
  assumes "wheel_ok tw" "entry_ok tw i a" "i < length (slots tw)"
  shows "ticks_left tw a = 0 \<longleftrightarrow> int i = currentSlot tw \<and> ti_circle (heap tw ! a) \<le> 0"
    and "(ti_index (heap tw ! a) - currentSlot tw) mod maxSlot tw = 0 \<longleftrightarrow> int i = currentSlot tw"
proof -
  let ?m = "maxSlot tw" and ?c = "currentSlot tw" and ?h = "heap tw ! a"
  have i: "ti_index ?h = int i" "0 \<le> ti_circle ?h" "int i < ?m"
    using assms wheel_ok_length [OF assms(1)] by (auto simp: entry_ok_def)
  have m: "0 < ?m" by (rule wheel_ok_max [OF assms(1)])
  show idx: "(ti_index ?h - ?c) mod ?m = 0 \<longleftrightarrow> int i = ?c"
    using i wheel_ok_current [OF assms(1)]
    by (metis diff_self eq_iff_diff_eq_0 mod_0 mod_diff_eq mod_pos_pos_trivial of_nat_0_le_iff
        mod_eq_dvd_iff dvd_eq_mod_eq_0)
  have "0 \<le> (ti_index ?h - ?c) mod ?m" "0 \<le> ti_circle ?h * ?m" using m i(2) by simp_all
  then show "ticks_left tw a = 0 \<longleftrightarrow> int i = ?c \<and> ti_circle ?h \<le> 0"
    using idx m i(2) ticks_left_bounds [OF assms(1) i(2)]
    by (smt (verit, best) mult_eq_0_iff of_nat_0_eq_iff mult_pos_pos)
qed

text \<open>\<open>Trigger\<close> in one equation, with the facts about what its loop computes.\<close>

lemma tw_trigger_cases:
  assumes inv: "tw_inv tw"
  obtains kept fired h m where
    "tw_trigger tw = Ret fired (tw\<lparr>slots := (slots tw)[nat (currentSlot tw) := kept],
        heap := h, mapItems := m, currentSlot := next_slot tw\<rparr>)"
    "kept = filter (\<lambda>a. ti_circle (heap tw ! a) > 0) (slots tw ! nat (currentSlot tw))"
    "fired = map (\<lambda>a. ti_id (heap tw ! a))
       (filter (\<lambda>a. \<not> ti_circle (heap tw ! a) > 0) (slots tw ! nat (currentSlot tw)))"
    "length h = length (heap tw)"
    "\<And>a. h ! a = (if a \<in> set kept
        then (heap tw ! a)\<lparr>ti_circle := ti_circle (heap tw ! a) - 1\<rparr> else heap tw ! a)"
    "\<And>k. m k = (if k \<in> set fired then None else mapItems tw k)"
proof -
  let ?i = "nat (currentSlot tw)"
  from inv have ok: "wheel_ok tw" by (rule tw_invD)
  then have cur: "slot_ok tw (currentSlot tw)" by simp
  then have i: "?i < length (slots tw)" by (simp add: slot_ok_nat)
  have bound: "\<forall>a \<in> set (slots tw ! ?i). a < length (heap tw)"
    using tw_invD(3) [OF inv, of ?i] i by (auto simp: in_slot_def entry_ok_def)
  obtain kept fired h m where r: "retrieve (slots tw ! ?i) (heap tw) (mapItems tw) = (kept, fired, h, m)"
    by (metis prod_cases4)
  note spec = retrieve_spec [OF tw_invD(2) [OF inv i] bound r]
  have "tw_trigger tw = Ret fired (tw\<lparr>slots := (slots tw)[nat (currentSlot tw) := kept],
      heap := h, mapItems := m, currentSlot := next_slot tw\<rparr>)"
    using cur r by (simp add: tw_trigger_def next_slot_def)
  from this spec show ?thesis by (rule that)
qed

text \<open>What a turn does to slots, entries and the map, without the lists: \<open>turned tw fired tw'\<close>.\<close>

abbreviation passing :: "time_wheel \<Rightarrow> addr \<Rightarrow> bool" where
  "passing tw a \<equiv> in_slot tw (nat (currentSlot tw)) a"

definition turned :: "time_wheel \<Rightarrow> i64 list \<Rightarrow> time_wheel \<Rightarrow> bool" where
  "turned tw fired tw' \<longleftrightarrow> wheel_ok tw' \<and> currentSlot tw' = next_slot tw \<and> maxSlot tw' = maxSlot tw \<and>
     length (heap tw') = length (heap tw) \<and> distinct fired \<and>
     (\<forall>j < length (slots tw'). distinct (slots tw' ! j)) \<and>
     (\<forall>k. k \<in> set fired \<longleftrightarrow> (\<exists>a. mapItems tw k = Some a \<and> passing tw a \<and> ti_circle (heap tw ! a) \<le> 0)) \<and>
     (\<forall>k. mapItems tw' k = (if k \<in> set fired then None else mapItems tw k)) \<and>
     (\<forall>j a. in_slot tw' j a \<longleftrightarrow> in_slot tw j a \<and> (j = nat (currentSlot tw) \<longrightarrow> ti_circle (heap tw ! a) > 0)) \<and>
     (\<forall>a. heap tw' ! a = (if passing tw a \<and> ti_circle (heap tw ! a) > 0
        then (heap tw ! a)\<lparr>ti_circle := ti_circle (heap tw ! a) - 1\<rparr> else heap tw ! a))"

lemma turnedD:
  assumes "turned tw fired tw'"
  shows "wheel_ok tw'" "currentSlot tw' = next_slot tw" "maxSlot tw' = maxSlot tw" "length (heap tw') = length (heap tw)"
    "distinct fired" "j < length (slots tw') \<Longrightarrow> distinct (slots tw' ! j)"
    "k \<in> set fired \<longleftrightarrow> (\<exists>a. mapItems tw k = Some a \<and> passing tw a \<and> ti_circle (heap tw ! a) \<le> 0)"
    "mapItems tw' k = (if k \<in> set fired then None else mapItems tw k)"
    "in_slot tw' j a \<longleftrightarrow> in_slot tw j a \<and> (j = nat (currentSlot tw) \<longrightarrow> ti_circle (heap tw ! a) > 0)"
    "heap tw' ! a = (if passing tw a \<and> ti_circle (heap tw ! a) > 0
        then (heap tw ! a)\<lparr>ti_circle := ti_circle (heap tw ! a) - 1\<rparr> else heap tw ! a)"
  using assms unfolding turned_def by blast+

lemma trigger_turns:
  assumes inv: "tw_inv tw" and trig: "tw_trigger tw = Ret fired tw'"
  shows "turned tw fired tw'"
proof -
  let ?i = "nat (currentSlot tw)" and ?h = "heap tw"
  from inv have ok: "wheel_ok tw" by (rule tw_invD)
  have i: "?i < length (slots tw)" using slot_ok_current [OF ok] by (simp add: slot_ok_nat)
  obtain kept fd h m where tr: "tw_trigger tw = Ret fd (tw\<lparr>slots := (slots tw)[?i := kept],
        heap := h, mapItems := m, currentSlot := next_slot tw\<rparr>)"
    and kept: "kept = filter (\<lambda>a. ti_circle (?h ! a) > 0) (slots tw ! ?i)"
    and fd: "fd = map (\<lambda>a. ti_id (?h ! a)) (filter (\<lambda>a. \<not> ti_circle (?h ! a) > 0) (slots tw ! ?i))"
    and len: "length h = length ?h"
    and h: "\<And>a. h ! a = (if a \<in> set kept
        then (?h ! a)\<lparr>ti_circle := ti_circle (?h ! a) - 1\<rparr> else ?h ! a)"
    and m: "\<And>k. m k = (if k \<in> set fd then None else mapItems tw k)"
    by (rule tw_trigger_cases [OF inv]) (rule that)
  from tr trig have fired: "fired = fd" and tw': "tw' = tw\<lparr>slots := (slots tw)[?i := kept],
      heap := h, mapItems := m, currentSlot := next_slot tw\<rparr>" by simp_all
  have dist: "distinct (slots tw ! ?i)" by (rule tw_invD(2) [OF inv i])
  have "k \<in> set fd \<longleftrightarrow> (\<exists>a. mapItems tw k = Some a \<and> in_slot tw ?i a \<and> ti_circle (?h ! a) \<le> 0)" for k
  proof -
    have "k \<in> set fd \<longleftrightarrow> (\<exists>a. in_slot tw ?i a \<and> ti_id (?h ! a) = k \<and> ti_circle (?h ! a) \<le> 0)"
      using i by (auto simp: fd in_slot_def not_less)
    then show ?thesis using in_slot_id [OF inv, of ?i] by blast
  qed
  moreover have "distinct fd"
    unfolding fd using dist in_slot_id [OF inv, of ?i] i
    by (auto simp: distinct_map in_slot_def intro!: inj_onI) (metis option.inject)
  moreover have "wheel_ok tw'"
    using ok wheel_ok_max [OF ok] next_slot_mod [OF ok] by (auto simp: tw' wheel_ok_def)
  moreover have "distinct (slots tw' ! j)" if "j < length (slots tw')" for j
    using that tw_invD(2) [OF inv] dist i by (cases "j = ?i") (simp_all add: tw' kept)
  moreover have "in_slot tw' j a \<longleftrightarrow> in_slot tw j a \<and> (j = ?i \<longrightarrow> ti_circle (?h ! a) > 0)" for j a
    using i by (auto simp: tw' in_slot_def kept nth_list_update)
  moreover have "a \<in> set kept \<longleftrightarrow> in_slot tw ?i a \<and> ti_circle (?h ! a) > 0" for a
    using i by (auto simp: kept in_slot_def)
  ultimately show ?thesis by (simp add: turned_def fired tw' len h m)
qed

text \<open>An entry of a slot has the slot as its index, so only the entries of the current slot pass.\<close>

lemma in_slot_index: "tw_inv tw \<Longrightarrow> in_slot tw i a \<Longrightarrow> in_slot tw j a \<longleftrightarrow> i = j"
  using tw_invD(3) [of tw i a] tw_invD(3) [of tw j a] by (auto simp: entry_ok_def)

lemma turned_same:
  assumes "turned tw fired tw'"
  shows "ti_id (heap tw' ! a) = ti_id (heap tw ! a)" "ti_index (heap tw' ! a) = ti_index (heap tw ! a)"
  by (simp_all add: turnedD(10) [OF assms])

lemma turned_inv:
  assumes inv: "tw_inv tw" and t: "turned tw fired tw'"
  shows "tw_inv tw'"
  unfolding tw_inv_def
proof (intro conjI allI impI)
  fix j a assume "in_slot tw' j a"
  then have a: "in_slot tw j a" "j = nat (currentSlot tw) \<longrightarrow> ti_circle (heap tw ! a) > 0"
    by (simp_all add: turnedD(9) [OF t])
  from tw_invD(3) [OF inv a(1)] have e: "entry_ok tw j a" .
  with a(2) in_slot_index [OF inv a(1)] have "ti_id (heap tw ! a) \<notin> set fired"
    by (auto simp: turnedD(7) [OF t] entry_ok_def)
  with e a(2) show "entry_ok tw' j a"
    by (simp add: entry_ok_def turned_same [OF t] turnedD(4,8) [OF t]) (simp add: turnedD(10) [OF t])
next
  fix k a assume "mapItems tw' k = Some a"
  then have k: "mapItems tw k = Some a" "k \<notin> set fired" by (auto simp: turnedD(8) [OF t] split: if_splits)
  from tw_invD(4) [OF inv k(1)] k show "mapped_ok tw' k a"
    by (auto simp: mapped_ok_def turned_same [OF t] turnedD(4,7,9) [OF t])
qed (use turnedD(1,6) [OF t] in auto)

lemma mapped_in_slot:
  assumes "tw_inv tw" "mapItems tw k = Some a"
  obtains j where "in_slot tw j a" "j < length (slots tw)" "entry_ok tw j a" "passing tw a \<longleftrightarrow> int j = currentSlot tw"
proof -
  from tw_invD(4) [OF assms] have j: "in_slot tw (nat (ti_index (heap tw ! a))) a" by (simp add: mapped_ok_def)
  moreover from this have "nat (ti_index (heap tw ! a)) < length (slots tw)" by (simp add: in_slot_def)
  moreover have "passing tw a \<longleftrightarrow> int (nat (ti_index (heap tw ! a))) = currentSlot tw"
    using in_slot_index [OF assms(1) j] wheel_ok_current [OF tw_invD(1) [OF assms(1)]] by (metis int_nat_eq nat_int)
  ultimately show thesis using that tw_invD(3) [OF assms(1) j] by blast
qed

lemma ticks_left_zero:
  assumes "tw_inv tw" "mapItems tw k = Some a"
  shows "ticks_left tw a = 0 \<longleftrightarrow> passing tw a \<and> ti_circle (heap tw ! a) \<le> 0"
  using assms
proof (rule mapped_in_slot)
  fix j assume "j < length (slots tw)" "entry_ok tw j a" "passing tw a \<longleftrightarrow> int j = currentSlot tw"
  then show ?thesis using ticks_left_entry(1) [OF tw_invD(1) [OF assms(1)]] by simp
qed

text \<open>One tick less is left for an entry that does not fire.\<close>

lemma turned_ticks_left:
  assumes inv: "tw_inv tw" and t: "turned tw fired tw'" and k: "mapItems tw k = Some a" "ticks_left tw a \<noteq> 0"
  shows "ticks_left tw a = Suc (ticks_left tw' a)"
proof -
  let ?x = "ti_index (heap tw ! a) - currentSlot tw"
  note ok = tw_invD(1) [OF inv]
  obtain j where j: "in_slot tw j a" "j < length (slots tw)" "entry_ok tw j a" "passing tw a \<longleftrightarrow> int j = currentSlot tw"
    by (rule mapped_in_slot [OF inv k(1)])
  have at: "passing tw a \<longleftrightarrow> ?x mod maxSlot tw = 0" using ticks_left_entry(2) [OF ok j(3,2)] j(4) by simp
  have "(ti_index (heap tw ! a) - next_slot tw) mod maxSlot tw = (?x - 1) mod maxSlot tw"
    by (simp add: next_slot_mod [OF ok] mod_diff_right_eq algebra_simps)
  also have "\<dots> = (if ?x mod maxSlot tw = 0 then maxSlot tw - 1 else ?x mod maxSlot tw - 1)"
    by (rule mod_pred [OF wheel_ok_max [OF ok]])
  finally have "int (ticks_left tw' a) = int (ticks_left tw a) - 1"
    using at ticks_left_zero [OF inv k(1)] k(2) j(3) ticks_left_bounds [OF ok, of a]
      ticks_left_bounds [OF turnedD(1) [OF t], of a] wheel_ok_max [OF ok]
    by (auto simp: turned_same [OF t] turnedD(2,3) [OF t] turnedD(10) [OF t] entry_ok_def algebra_simps)
  with k(2) show ?thesis by simp
qed

lemma turned_pending:
  assumes inv: "tw_inv tw" and t: "turned tw fired tw'"
  shows "set fired = due (tw_pending tw)" "tw_pending tw' = tick_down (tw_pending tw)"
proof -
  have fired: "k \<in> set fired \<longleftrightarrow> ticks_left tw a = 0" if "mapItems tw k = Some a" for k a
    using that by (simp add: turnedD(7) [OF t] ticks_left_zero [OF inv that])
  then show "set fired = due (tw_pending tw)"
    using turnedD(7) [OF t] by (fastforce simp: due_def tw_pending_def)
  show "tw_pending tw' = tick_down (tw_pending tw)"
  proof
    fix k show "tw_pending tw' k = tick_down (tw_pending tw) k"
    proof (cases "mapItems tw k")
      case (Some a)
      then show ?thesis using fired turned_ticks_left [OF inv t, of k a]
        by (cases "ticks_left tw a = 0") (auto simp: tw_pending_def tick_down_def turnedD(8) [OF t])
    qed (simp add: tw_pending_def tick_down_def turnedD(8) [OF t])
  qed
qed

lemma trigger_correct:
  assumes inv: "tw_inv tw" and trig: "tw_trigger tw = Ret fired tw'"
  shows "tw_inv tw'" and "distinct fired" and "set fired = due (tw_pending tw)"
    and "tw_pending tw' = tick_down (tw_pending tw)"
  using turned_inv [OF inv] turned_pending [OF inv] turnedD(5) trigger_turns [OF assms] by blast+

section \<open>The wheel is a delay queue\<close>

text \<open>
  The wheel the program creates ticks once a second (\<open>DefaultInterval\<close>). A delay of \<open>n\<close>
  seconds is a duration of \<open>n\<close> times \<open>1e9\<close> nanoseconds when that product fits 63 bits.
\<close>

definition secs :: "nat \<Rightarrow> duration" where
  "secs n = word_of_int (int n * second)"

definition fits_duration :: "nat \<Rightarrow> bool" where
  "fits_duration n \<longleftrightarrow> int n * second < 2 ^ 63"

definition second_wheel :: "time_wheel \<Rightarrow> bool" where
  "second_wheel tw \<longleftrightarrow> tw_inv tw \<and> interval tw = defaultInterval"

lemma sint_secs: "fits_duration n \<Longrightarrow> sint (secs n) = int n * second"
  unfolding secs_def fits_duration_def by (rule sint_of_int64) (simp_all add: second_def)

lemma seconds_defaultInterval [simp]: "seconds_int (sint defaultInterval) = 1"
proof -
  have "sint defaultInterval = 1 * second" by (simp add: defaultInterval_def second_def)
  then show ?thesis by (simp only: seconds_int_of_seconds)
qed

lemma delay_ticks_secs:
  "interval tw = defaultInterval \<Longrightarrow> fits_duration n \<Longrightarrow> delay_ticks tw (secs n) = int n"
  by (simp add: delay_ticks_def sint_secs seconds_int_of_seconds)

lemma tw_add_returns:
  assumes "wheel_ok tw" "0 \<le> delay_ticks tw d"
  obtains r tw' where "tw_add d k tw = Ret r tw'" "interval tw' = interval tw"
proof
  show "tw_add d k tw = Ret
      ((currentSlot tw + delay_ticks tw d) mod maxSlot tw, delay_ticks tw d div maxSlot tw)
      (outcome_state (tw_add d k tw))"
    by (simp add: tw_add_nonneg [OF assms])
qed (simp add: tw_add_nonneg [OF assms])

lemma second_wheel_add:
  assumes "second_wheel tw" "tw_pending tw k = None" "fits_duration n"
  shows "\<exists>r tw'. tw_add (secs n) k tw = Ret r tw' \<and> second_wheel tw' \<and>
    tw_pending tw' = (tw_pending tw)(k \<mapsto> n)"
proof -
  from assms have inv: "tw_inv tw" and d: "delay_ticks tw (secs n) = int n"
    by (simp_all add: second_wheel_def delay_ticks_secs)
  from assms(2) have new: "mapItems tw k = None" by (simp add: tw_pending_def)
  obtain r tw' where r: "tw_add (secs n) k tw = Ret r tw'" "interval tw' = interval tw"
    using tw_add_returns [OF tw_invD(1) [OF inv], of "secs n" k] d by (metis of_nat_0_le_iff)
  with tw_add_inv [OF inv new _ r(1)] tw_add_pending [OF inv _ r(1)] d assms(1) show ?thesis
    by (auto simp: second_wheel_def)
qed

lemma tw_delete_interval [frame_simps]:
  "interval (outcome_state (tw_delete k tw)) = interval tw"
  by (auto simp: tw_delete_def Let_def split: option.splits)

lemma tw_trigger_interval [frame_simps]:
  "interval (outcome_state (tw_trigger tw)) = interval tw"
  by (auto simp: tw_trigger_def Let_def split: prod.splits)

lemma second_wheel_delete:
  assumes "second_wheel tw"
  shows "\<exists>r tw'. tw_delete k tw = Ret r tw' \<and> second_wheel tw' \<and>
    tw_pending tw' = (tw_pending tw)(k := None)"
proof -
  from assms have inv: "tw_inv tw" by (simp add: second_wheel_def)
  obtain tw' where r: "tw_delete k tw = Ret True tw'" by (rule tw_delete_returns [OF inv])
  with tw_delete_inv [OF inv r] tw_delete_pending [OF inv r] tw_delete_interval [of k tw] assms
  show ?thesis by (intro exI [of _ True] exI [of _ tw']) (simp add: second_wheel_def)
qed

lemma tw_trigger_returns:
  assumes "tw_inv tw"
  obtains fired tw' where "tw_trigger tw = Ret fired tw'"
  using assms by (rule tw_trigger_cases) (rule that)

lemma second_wheel_trigger:
  assumes "second_wheel tw"
  shows "\<exists>ks tw'. tw_trigger tw = Ret ks tw' \<and> second_wheel tw' \<and> distinct ks \<and>
    set ks = due (tw_pending tw) \<and> tw_pending tw' = tick_down (tw_pending tw)"
proof -
  from assms have inv: "tw_inv tw" by (simp add: second_wheel_def)
  obtain ks tw' where r: "tw_trigger tw = Ret ks tw'" by (rule tw_trigger_returns [OF inv])
  with trigger_correct [OF inv r] tw_trigger_interval [of tw] assms show ?thesis
    by (simp add: second_wheel_def)
qed

interpretation wheel_queue: delay_queue second_wheel tw_pending fits_duration
    "\<lambda>n. tw_add (secs n)" tw_delete tw_trigger
  by unfold_locales
    (rule second_wheel_add second_wheel_delete second_wheel_trigger; assumption)+

definition wheel_step :: "time_wheel \<Rightarrow> i64 queue_op \<Rightarrow> (time_wheel, i64 list) outcome" where
  "wheel_step = queue_step (\<lambda>n. tw_add (secs n)) tw_delete tw_trigger"

definition wheel_run :: "time_wheel \<Rightarrow> i64 queue_op list \<Rightarrow> (time_wheel, i64 list list) outcome" where
  "wheel_run = queue_run wheel_step"

section \<open>Properties\<close>

lemma fresh_wheel:
  "new_time_wheel defaultInterval 3600 = Inr tw \<Longrightarrow> second_wheel tw \<and> tw_pending tw = Map.empty"
proof -
  assume new: "new_time_wheel defaultInterval 3600 = Inr tw"
  have "0 < sint defaultInterval" by (simp add: defaultInterval_def)
  from new_time_wheel_ok [OF this, of 3600] new
  have tw: "interval tw = defaultInterval" "mapItems tw = Map.empty" by auto
  then have "tw_inv tw" using new by (intro new_time_wheel_inv [of defaultInterval 3600]) simp_all
  with tw show ?thesis by (simp add: second_wheel_def tw_pending_def fun_eq_iff)
qed

lemma fresh_wheel_exists:
  obtains tw where "new_time_wheel defaultInterval 3600 = Inr tw" "second_wheel tw"
    "tw_pending tw = Map.empty"
proof -
  have "0 < sint defaultInterval" by (simp add: defaultInterval_def)
  from new_time_wheel_ok [OF this, of 3600] that fresh_wheel show ?thesis by auto
qed

text \<open>An item added to a wheel of one-second ticks with a delay of \<open>n\<close> seconds, while other
  items are added, deleted and fired around it in any order, is returned by the \<open>Trigger\<close>
  that has exactly \<open>n\<close> others between the \<open>Add\<close> and itself, and by no other call; no call
  panics.\<close>

theorem wheel_fires_on_time:
  assumes "second_wheel tw" "tw_pending tw k = None"
    and "ops_fresh (tw_pending tw) (OpAdd n k # xs)"
    and "\<forall>d j. OpAdd d j \<in> set (OpAdd n k # xs) \<longrightarrow> fits_duration d"
    and "\<forall>x \<in> set xs. \<not> touches k x"
  shows "\<exists>fs tw'. wheel_run tw (OpAdd n k # xs) = Ret ([] # fs) tw' \<and> length fs = length xs \<and>
    (\<forall>i < length xs. k \<in> set (fs ! i) \<longleftrightarrow> xs ! i = OpTick \<and> ticks (take i xs) = n)"
proof -
  from assms(4) have n: "fits_duration n" by auto
  from second_wheel_add [OF assms(1,2) n] obtain r tw1 where
    add: "tw_add (secs n) k tw = Ret r tw1" "second_wheel tw1"
      "tw_pending tw1 = (tw_pending tw)(k \<mapsto> n)" by blast
  with assms(3,4) have "ops_fresh (tw_pending tw1) xs"
    "\<forall>d j. OpAdd d j \<in> set xs \<longrightarrow> fits_duration d" "tw_pending tw1 k = Some n" by auto
  from wheel_queue.run_fires [OF add(2) this assms(5)] add(1) show ?thesis
    by (auto simp: wheel_run_def wheel_step_def)
qed

theorem wheel_fires_on_time_witness:
  "\<exists>tw fs tw'. wheel_run tw [OpAdd 2 7, OpTick, OpAdd 0 8, OpTick, OpTick] = Ret ([] # fs) tw' \<and>
     length fs = 4 \<and> 7 \<in> set (fs ! 3) \<and> 7 \<notin> set (fs ! 0) \<and> 7 \<notin> set (fs ! 2)"
proof -
  let ?xs = "[OpTick, OpAdd 0 8, OpTick, OpTick] :: i64 queue_op list"
  obtain tw where tw: "second_wheel tw" "tw_pending tw = Map.empty"
    by (rule fresh_wheel_exists)
  have fresh: "ops_fresh (tw_pending tw) (OpAdd 2 7 # ?xs)"
    by (simp add: tw tick_down_def)
  have fit: "\<forall>d j. OpAdd d j \<in> set (OpAdd 2 7 # ?xs) \<longrightarrow> fits_duration d"
    by (auto simp: fits_duration_def second_def)
  have other: "\<forall>x \<in> set ?xs. \<not> touches 7 x" by simp
  have new: "tw_pending tw 7 = None" by (simp add: tw)
  obtain fs tw' where run: "wheel_run tw (OpAdd 2 7 # ?xs) = Ret ([] # fs) tw'" "length fs = 4"
    "\<forall>i < 4. 7 \<in> set (fs ! i) \<longleftrightarrow> ?xs ! i = OpTick \<and> ticks (take i ?xs) = 2"
    using wheel_fires_on_time [OF tw(1) new fresh fit other] by auto
  from run(3) have "7 \<in> set (fs ! 3)" "7 \<notin> set (fs ! 0)" "7 \<notin> set (fs ! 2)"
    by (auto simp: numeral_3_eq_3 numeral_2_eq_2)
  with run show ?thesis by blast
qed

text \<open>C4: Over any sequence of \<open>Add\<close>, \<open>Delete\<close> and \<open>Trigger\<close> calls in which no pending
  identifier is added again, the slots, lists and pointers of the wheel behave as the
  abstract map from identifiers to remaining ticks: no call panics, each \<open>Trigger\<close> returns
  exactly the identifiers with no ticks left, each once, and the map at the end is the abstract one.\<close>

theorem wheel_refines_queue:
  assumes "second_wheel tw" "ops_fresh (tw_pending tw) xs"
    and "\<forall>d k. OpAdd d k \<in> set xs \<longrightarrow> fits_duration d"
  shows "\<exists>fs tw'. wheel_run tw xs = Ret fs tw' \<and> second_wheel tw' \<and>
    map set fs = fst (spec_run (tw_pending tw) xs) \<and>
    tw_pending tw' = snd (spec_run (tw_pending tw) xs) \<and> (\<forall>f \<in> set fs. distinct f)"
  unfolding wheel_run_def wheel_step_def
  using wheel_queue.run_refines [OF assms] by blast

theorem wheel_refines_queue_witness:
  "\<exists>tw fs tw'. wheel_run tw [OpAdd 0 5, OpAdd 1 6, OpTick, OpDelete 6, OpTick] = Ret fs tw' \<and>
     map set fs = [{}, {}, {5}, {}, {}] \<and> tw_pending tw' = Map.empty"
proof -
  let ?xs = "[OpAdd 0 5, OpAdd 1 6, OpTick, OpDelete 6, OpTick] :: i64 queue_op list"
  obtain tw where tw: "second_wheel tw" "tw_pending tw = Map.empty"
    by (rule fresh_wheel_exists)
  have fresh: "ops_fresh (tw_pending tw) ?xs" by (simp add: tw)
  have fit: "\<forall>d k. OpAdd d k \<in> set ?xs \<longrightarrow> fits_duration d"
    by (auto simp: fits_duration_def second_def)
  have "due ([5 \<mapsto> 0, 6 \<mapsto> 1] :: i64 pending) = {5}"
    by (auto simp: due_def split: if_splits)
  moreover have "(tick_down ([5 \<mapsto> 0, 6 \<mapsto> 1] :: i64 pending))(6 := None) = Map.empty"
    by (auto simp: tick_down_def split: option.splits nat.splits)
  moreover have "due (Map.empty :: i64 pending) = {}" "tick_down (Map.empty :: i64 pending) = Map.empty"
    by (auto simp: due_def tick_down_def)
  ultimately obtain fs tw' where "wheel_run tw ?xs = Ret fs tw'"
      "map set fs = [{}, {}, {5}, {}, {}]" "tw_pending tw' = Map.empty"
    using wheel_refines_queue [OF tw(1) fresh fit] tw(2) by auto
  then show ?thesis by (intro exI [of _ tw] exI [of _ fs] exI [of _ tw'] conjI)
qed

text \<open>\<open>Get\<close> on a pending identifier returns a slot and a circle count from which the time
  left follows: the slots up to that slot, plus one turn of the wheel per circle; this stays
  true after every \<open>Trigger\<close>, because the map and the slot share the entry.\<close>

theorem get_reports_ticks_left:
  assumes "tw_inv tw" "tw_trigger tw = Ret fired tw'" "tw_pending tw k = Some (Suc n)"
    and "tw_get k tw' = (index, circle)"
  shows "int n = (index - currentSlot tw') mod maxSlot tw' + circle * maxSlot tw' \<and>
    0 \<le> index \<and> index < maxSlot tw' \<and> 0 \<le> circle"
proof -
  from trigger_correct [OF assms(1,2)] have inv: "tw_inv tw'"
    and pend: "tw_pending tw' k = Some n"
    using assms(3) by (simp_all add: tick_down_def)
  then obtain a where a: "mapItems tw' k = Some a" "ticks_left tw' a = n"
    by (auto simp: tw_pending_def)
  from tw_invD(4) [OF inv a(1)] have m: "0 \<le> ti_index (heap tw' ! a)"
      "in_slot tw' (nat (ti_index (heap tw' ! a))) a" by (simp_all add: mapped_ok_def)
  from tw_invD(3) [OF inv m(2)] have c: "0 \<le> ti_circle (heap tw' ! a)" by (simp add: entry_ok_def)
  from a assms(4) have "index = ti_index (heap tw' ! a)" "circle = ti_circle (heap tw' ! a)"
    by (simp_all add: tw_get_def)
  with ticks_left_bounds [OF tw_invD(1) [OF inv] c] a(2) m c
    wheel_ok_length [OF tw_invD(1) [OF inv]]
  show ?thesis by (auto simp: in_slot_def)
qed

theorem get_reports_ticks_left_witness:
  "let tw = \<lparr>interval = defaultInterval, slots = [[0], []], mapItems = [9 \<mapsto> 0], currentSlot = 0,
              maxSlot = 2, heap = [\<lparr>ti_index = 0, ti_circle = 2, ti_id = 9\<rparr>]\<rparr>
   in \<exists>tw'. tw_trigger tw = Ret [] tw' \<and> tw_get 9 tw' = (0, 1) \<and>
        (3 :: int) = (0 - currentSlot tw') mod maxSlot tw' + 1 * maxSlot tw'"
proof -
  define tw where "tw = \<lparr>interval = defaultInterval, slots = [[0], []], mapItems = [9 \<mapsto> 0],
    currentSlot = 0, maxSlot = 2, heap = [\<lparr>ti_index = 0, ti_circle = 2, ti_id = 9\<rparr>]\<rparr>"
  have inv: "tw_inv tw"
    by (auto simp: tw_def tw_inv_def wheel_ok_def in_slot_def entry_ok_def mapped_ok_def
        less_Suc_eq nth_Cons' split: if_splits)
  have pend: "tw_pending tw 9 = Some (Suc 3)" by (simp add: tw_def tw_pending_def ticks_left_def)
  obtain tw' where trig: "tw_trigger tw = Ret [] tw'" "tw_get 9 tw' = (0, 1)"
    by (simp add: tw_def tw_trigger_def slot_ok_def tw_get_def)
  from get_reports_ticks_left [OF inv trig(1) pend trig(2)] trig show ?thesis
    by (auto simp: tw_def [symmetric] Let_def)
qed

text \<open>Every operation keeps the invariant that ties slots, list entries, the identifier map and
  the heap together, for any tick interval of at least a second: \<open>Add\<close> of a new identifier with a
  delay that is not negative, \<open>Delete\<close> and \<open>Trigger\<close> return and leave a wheel that satisfies it.\<close>

theorem wheel_operations_keep_invariant:
  assumes "tw_inv tw" "mapItems tw k = None" "0 \<le> delay_ticks tw d"
  shows "(\<exists>r tw1. tw_add d k tw = Ret r tw1 \<and> tw_inv tw1) \<and>
    (\<exists>tw2. tw_delete j tw = Ret True tw2 \<and> tw_inv tw2) \<and>
    (\<exists>ks tw3. tw_trigger tw = Ret ks tw3 \<and> tw_inv tw3)"
proof (intro conjI)
  obtain r tw1 where "tw_add d k tw = Ret r tw1" "interval tw1 = interval tw"
    by (rule tw_add_returns [OF tw_invD(1) [OF assms(1)] assms(3)])
  with tw_add_inv [OF assms] show "\<exists>r tw1. tw_add d k tw = Ret r tw1 \<and> tw_inv tw1" by blast
  obtain tw2 where "tw_delete j tw = Ret True tw2" by (rule tw_delete_returns [OF assms(1)])
  with tw_delete_inv [OF assms(1)] show "\<exists>tw2. tw_delete j tw = Ret True tw2 \<and> tw_inv tw2" by blast
  obtain ks tw3 where "tw_trigger tw = Ret ks tw3" by (rule tw_trigger_returns [OF assms(1)])
  with trigger_correct(1) [OF assms(1)] show "\<exists>ks tw3. tw_trigger tw = Ret ks tw3 \<and> tw_inv tw3"
    by blast
qed

theorem wheel_operations_keep_invariant_witness:
  "\<exists>tw r tw1. new_time_wheel (secs 2) 3 = Inr tw \<and> tw_add (secs 9) 1 tw = Ret r tw1 \<and> tw_inv tw1"
proof -
  have s: "seconds_int (sint (secs n)) = int n" if "fits_duration n" for n
    using that by (simp add: sint_secs seconds_int_of_seconds)
  have fit: "fits_duration 2" "fits_duration 9" by (simp_all add: fits_duration_def second_def)
  have "0 < sint (secs 2)" by (simp add: sint_secs fit second_def)
  then obtain tw where tw: "new_time_wheel (secs 2) 3 = Inr tw" "interval tw = secs 2"
      "mapItems tw 1 = None"
    by (simp add: new_time_wheel_ok)
  have inv: "tw_inv tw" by (rule new_time_wheel_inv [OF tw(1)]) (simp add: tw s fit)
  have "0 \<le> delay_ticks tw (secs 9)" by (simp add: delay_ticks_def tw s fit)
  from wheel_operations_keep_invariant [OF inv tw(3) this, of 0] tw(1) show ?thesis by blast
qed

text \<open>\<open>Delete\<close> of any identifier returns true and makes \<open>Check\<close> false for it, \<open>Get\<close> return
  zeroes, and no later \<open>Trigger\<close> fire it until it is added again, whatever happens to
  the other identifiers.\<close>

theorem deleted_item_never_fires:
  assumes "second_wheel tw" "tw_delete k tw = Ret b tw1"
    and "ops_fresh (tw_pending tw1) xs" "\<forall>d j. OpAdd d j \<in> set xs \<longrightarrow> fits_duration d"
    and "\<forall>x \<in> set xs. \<not> touches k x"
  shows "b \<and> \<not> tw_check k tw1 \<and> tw_get k tw1 = (0, 0) \<and>
    (\<exists>fs tw'. wheel_run tw1 xs = Ret fs tw' \<and> (\<forall>f \<in> set fs. k \<notin> set f) \<and> \<not> tw_check k tw')"
proof -
  from assms(1) have inv: "tw_inv tw" by (simp add: second_wheel_def)
  from second_wheel_delete [OF assms(1), of k] assms(2)
  have w1: "second_wheel tw1" and p1: "tw_pending tw1 = (tw_pending tw)(k := None)" by auto
  have b: "b" using tw_delete_returns [OF inv, of k] assms(2) by (metis outcome.inject(1))
  have none: "\<not> tw_check k t" "tw_get k t = (0, 0)" if "tw_pending t k = None" for t
    using that by (auto simp: tw_check_def tw_get_def tw_pending_def)
  from wheel_queue.run_refines [OF w1 assms(3,4)] obtain fs tw' where
    run: "wheel_run tw1 xs = Ret fs tw'" "map set fs = fst (spec_run (tw_pending tw1) xs)"
      "tw_pending tw' = snd (spec_run (tw_pending tw1) xs)"
    by (auto simp: wheel_run_def wheel_step_def)
  have "tw_pending tw1 k = None" by (simp add: p1)
  with spec_run_not_pending [of "tw_pending tw1" k xs] spec_run_keeps_absent [of "tw_pending tw1" k xs]
    assms(5) run have "\<forall>f \<in> set fs. k \<notin> set f" "tw_pending tw' k = None"
    by (metis image_eqI list.set_map)+
  with b none p1 run show ?thesis by auto
qed


theorem deleted_item_never_fires_witness:
  "\<exists>tw tw1 fs tw'. tw_delete 7 tw = Ret True tw1 \<and> \<not> tw_check 7 tw1 \<and>
     wheel_run tw1 [OpTick, OpAdd 1 8, OpTick] = Ret fs tw' \<and> (\<forall>f \<in> set fs. 7 \<notin> set f)"
proof -
  let ?xs = "[OpTick, OpAdd 1 8, OpTick] :: i64 queue_op list"
  obtain tw0 where tw0: "second_wheel tw0" "tw_pending tw0 = Map.empty"
    by (rule fresh_wheel_exists)
  obtain r tw where "tw_add (secs 0) 7 tw0 = Ret r tw" and tw: "second_wheel tw"
      "tw_pending tw = [7 \<mapsto> 0]"
    using second_wheel_add [OF tw0(1), of 7 0] tw0(2) by (auto simp: fits_duration_def second_def)
  from second_wheel_delete [OF tw(1), of 7] obtain b tw1 where
    del: "tw_delete 7 tw = Ret b tw1" "tw_pending tw1 = (tw_pending tw)(7 := None)" by auto
  have fresh: "ops_fresh (tw_pending tw1) ?xs"
    by (simp add: del(2) tw(2) tick_down_def)
  have fit: "\<forall>d j. OpAdd d j \<in> set ?xs \<longrightarrow> fits_duration d"
    by (auto simp: fits_duration_def second_def)
  have other: "\<forall>x \<in> set ?xs. \<not> touches 7 x" by simp
  from deleted_item_never_fires [OF tw(1) del(1) fresh fit other] del(1) show ?thesis by auto
qed

lemma tw_add_negative:
  assumes "wheel_ok tw" "currentSlot tw + delay_ticks tw d < 0"
    and "(currentSlot tw + delay_ticks tw d) smod maxSlot tw \<noteq> 0"
  shows "\<exists>tw'. tw_add d k tw = Panic IndexOutOfRange tw' \<and> tw_check k tw' \<and>
    slots tw' = slots tw \<and> \<not> tw_inv tw' \<and> tw_delete k tw' = Panic IndexOutOfRange tw'"
proof -
  let ?n = "currentSlot tw + delay_ticks tw d" and ?c = "delay_ticks tw d sdiv maxSlot tw"
  let ?i = "?n smod maxSlot tw"
  define tw' where "tw' = tw\<lparr>heap := heap tw @ [\<lparr>ti_index = ?i, ti_circle = ?c, ti_id = k\<rparr>],
    mapItems := (mapItems tw)(k \<mapsto> length (heap tw))\<rparr>"
  have neg: "?i < 0"
    by (rule smod_neg [OF assms(2) wheel_ok_max [OF assms(1)] assms(3)])
  have "calc_slot_and_circle d (interval tw) (currentSlot tw) (maxSlot tw) = Inr (?i, ?c)"
    using wheel_ok_max [OF assms(1)] wheel_ok_interval [OF assms(1)]
    by (simp add: calc_slot_and_circle_def delay_ticks_def Let_def)
  with neg have add: "tw_add d k tw = Panic IndexOutOfRange tw'"
    by (simp add: tw_add_def tw'_def slot_ok_def Let_def)
  have at: "mapItems tw' k = Some (length (heap tw))" "ti_index (heap tw' ! length (heap tw)) < 0"
    using neg by (simp_all add: tw'_def)
  then have "\<not> tw_inv tw'"
    using tw_invD(4) [of tw' k "length (heap tw)"] by (auto simp: mapped_ok_def)
  moreover have "tw_delete k tw' = Panic IndexOutOfRange tw'"
    using at by (simp add: tw_delete_def slot_ok_def Let_def)
  ultimately show ?thesis using add at(1) by (auto simp: tw_check_def tw'_def)
qed

text \<open>A delay that is negative and longer than the current slot's number makes \<open>Add\<close> panic
  with an index out of range after it has recorded the identifier; the identifier then passes
  \<open>Check\<close> for ever, no slot holds it, and \<open>Delete\<close> of it panics as well.\<close>

theorem negative_delay_panics:
  assumes "wheel_ok tw" "currentSlot tw + delay_ticks tw d < 0"
    and "(currentSlot tw + delay_ticks tw d) smod maxSlot tw \<noteq> 0"
  shows "\<exists>tw'. tw_add d k tw = Panic IndexOutOfRange tw' \<and> tw_check k tw' \<and>
    slots tw' = slots tw \<and> \<not> tw_inv tw' \<and> tw_delete k tw' = Panic IndexOutOfRange tw'"
  by (rule tw_add_negative [OF assms])

theorem negative_delay_panics_witness:
  "\<exists>tw tw'. new_time_wheel defaultInterval 3600 = Inr tw \<and>
     tw_add (word_of_int (- 5 * second)) 7 tw = Panic IndexOutOfRange tw' \<and>
     tw_delete 7 tw' = Panic IndexOutOfRange tw'"
proof -
  have "0 < sint defaultInterval" by (simp add: defaultInterval_def)
  then obtain tw where tw: "new_time_wheel defaultInterval 3600 = Inr tw" "currentSlot tw = 0"
      "maxSlot tw = 3600" "interval tw = defaultInterval"
    by (simp add: new_time_wheel_ok)
  have ok: "wheel_ok tw" using fresh_wheel [OF tw(1)] by (simp add: second_wheel_def tw_invD)
  have "sint (word_of_int (- 5 * second) :: i64) = - 5 * second"
    by (rule sint_of_int64) (simp_all add: second_def)
  then have d: "delay_ticks tw (word_of_int (- 5 * second)) = - 5"
    by (simp only: delay_ticks_def tw seconds_int_of_seconds seconds_defaultInterval) simp
  from negative_delay_panics [OF ok, of "word_of_int (- 5 * second)" 7] d tw show ?thesis by auto
qed

text \<open>The constructor's fallback for a bad argument does not work: with \<open>maxSlot\<close> zero or
  negative, or with a non-positive interval and fewer than 3600 slots, \<open>NewTimeWheel\<close> panics
  instead of using its defaults, because it makes the slice from the bad argument.\<close>

theorem new_time_wheel_fallback_panics:
  "sint iv \<le> 0 \<or> mx \<le> 0 \<Longrightarrow> mx < 3600 \<Longrightarrow>
     new_time_wheel iv mx = Inl (if mx < 0 then MakeSliceLen else IndexOutOfRange)"
  by (auto simp: new_time_wheel_def init_slots_def defaultSlot_def)

theorem new_time_wheel_fallback_panics_witness:
  "new_time_wheel defaultInterval 0 = Inl IndexOutOfRange \<and>
   new_time_wheel 0 60 = Inl IndexOutOfRange"
  using new_time_wheel_fallback_panics [of defaultInterval 0]
    new_time_wheel_fallback_panics [of 0 60] by simp

text \<open>A tick interval shorter than a second is truncated to zero seconds, so the constructor
  accepts it and every \<open>Add\<close> panics with a division by zero before it changes the wheel.\<close>

theorem subsecond_interval_panics:
  assumes "0 < sint iv" "sint iv < second" "0 < mx" "new_time_wheel iv mx = Inr tw"
  shows "tw_add d k tw = Panic DivideByZero tw"
proof -
  have "sint iv sdiv second = 0" using assms(1,2) by (simp add: sdiv_nonneg)
  then have "seconds_int (sint iv) = 0" by (simp add: seconds_int_def float_secs_def)
  with assms show ?thesis
    by (auto simp: new_time_wheel_ok tw_add_def calc_slot_and_circle_def)
qed

theorem subsecond_interval_panics_witness:
  "\<exists>tw. new_time_wheel 500000000 60 = Inr tw \<and> tw_add (secs 5) 1 tw = Panic DivideByZero tw"
proof -
  have h: "0 < sint (500000000 :: duration)" "sint (500000000 :: duration) < second"
    by (simp_all add: second_def)
  then obtain tw where tw: "new_time_wheel 500000000 60 = Inr tw" by (simp add: new_time_wheel_ok)
  from subsecond_interval_panics [OF h _ tw] tw show ?thesis by auto
qed

end
