(* ===== verification/Errors.thy ===== *)
theory Errors
  imports Go_Std
begin

text \<open>
  The errors of \<open>node/common/errors.go\<close> and the values of Go's \<open>error\<close> type that the task
  components pass around: the package's sentinels, errors made in place by \<open>errors.New\<close>, an
  error of \<open>encoding/json\<close>, and the errors of code outside the repository with their text.
\<close>

datatype error =
    ErrInvalidParameter
  | ErrInvalidDatetime
  | ErrInvalidPluginName
  | ErrInvalidJobType
  | ErrNew string
  | ErrJson string
  | ErrExt string

fun error_text :: "error \<Rightarrow> string" where
  "error_text ErrInvalidParameter = ''invalid parameter''"
| "error_text ErrInvalidDatetime = ''invalid datetime''"
| "error_text ErrInvalidPluginName = ''invalid plugin name''"
| "error_text ErrInvalidJobType = ''no key type''"
| "error_text (ErrNew s) = s"
| "error_text (ErrJson s) = s"
| "error_text (ErrExt s) = s"

definition to_msg :: "error option \<Rightarrow> string" where
  "to_msg e = (case e of None \<Rightarrow> ''success'' | Some err \<Rightarrow> error_text err)"

lemma to_msg_simps [simp]:
  "to_msg None = ''success''" "to_msg (Some e) = error_text e"
  by (simp_all add: to_msg_def)

end
