(* ===== verification/Item_Id.thy ===== *)
theory Item_Id
  imports Errors
begin

unbundle bit_operations_syntax

text \<open>
  Task identifiers, \<open>node/common/item_id.go\<close>: eight bytes, big-endian. The hexadecimal text
  forms come from the package \<open>hexutil\<close> outside the repository, a parameter here
  (\<open>hexutil\<close>) with its documented behaviour as the predicate \<open>hexutil_ok\<close>. The lemmas show
  that the integer conversions are inverse, and what the text conversion does to its receiver.
\<close>

type_synonym item_id = bytes

definition valid_item_id :: "item_id \<Rightarrow> bool" where
  "valid_item_id n \<longleftrightarrow> length n = 8"

definition zero_item_id :: item_id where
  "zero_item_id = replicate 8 0"

text \<open>\<open>binary.BigEndian.PutUint64\<close>: the byte at position \<open>i\<close> holds the bits from \<open>56 - 8 i\<close> on.\<close>

definition encode_item_id :: "u64 \<Rightarrow> item_id" where
  "encode_item_id w = map (\<lambda>i. ucast (drop_bit (56 - 8 * i) w)) [0..<8]"

text \<open>\<open>binary.BigEndian.Uint64\<close>: every byte shifted into its place, joined by \<open>OR\<close>.\<close>

definition item_uint64 :: "item_id \<Rightarrow> u64" where
  "item_uint64 n = foldl (\<lambda>acc b. push_bit 8 acc OR ucast b) 0 n"

definition item_int64 :: "item_id \<Rightarrow> i64" where
  "item_int64 n = item_uint64 n"

definition item_bytes :: "item_id \<Rightarrow> bytes" where
  "item_bytes n = n"

definition hex_digit :: "nat \<Rightarrow> char" where
  "hex_digit n = (if n < 10 then char_of (48 + n) else char_of (87 + n))"

fun show_hex :: "nat \<Rightarrow> string" where
  "show_hex n = (if n < 16 then [hex_digit n] else show_hex (n div 16) @ [hex_digit (n mod 16)])"

declare show_hex.simps [simp del]

text \<open>\<open>EncodeUint64\<close>: \<open>0x\<close> and the digits of \<open>strconv.AppendUint\<close> in base 16.\<close>

definition encode_uint64 :: "u64 \<Rightarrow> bytes" where
  "encode_uint64 i = bytes_of_str (''0x'' @ show_hex (unat i))"

record hexutil =
  hx_encode :: "bytes \<Rightarrow> string"
  hx_encode_uint64 :: "u64 \<Rightarrow> string"
  hx_decode :: "string \<Rightarrow> error + bytes"
  hx_decode_fixed :: "nat \<Rightarrow> string \<Rightarrow> error + bytes"

text \<open>The documented contract of \<open>hexutil\<close>: decoding undoes encoding, and a fixed-size target
  takes the text of as many bytes as it holds.\<close>

definition hexutil_ok :: "hexutil \<Rightarrow> bool" where
  "hexutil_ok H \<longleftrightarrow> (\<forall>b. hx_decode H (hx_encode H b) = Inr b) \<and>
     (\<forall>b. hx_decode_fixed H (length b) (hx_encode H b) = Inr b) \<and>
     (\<forall>b. list_all (\<lambda>c. is_digit c \<or> c \<in> set ''abcdefx'') (hx_encode H b))"

definition item_hex_string :: "hexutil \<Rightarrow> item_id \<Rightarrow> string" where
  "item_hex_string H n = hx_encode H n"

definition item_hex :: "hexutil \<Rightarrow> item_id \<Rightarrow> string" where
  "item_hex H n = hx_encode_uint64 H (item_uint64 n)"

definition item_marshal_text :: "hexutil \<Rightarrow> item_id \<Rightarrow> string" where
  "item_marshal_text H n = hx_encode H n"

text \<open>
  \<open>UnmarshalText\<close> has a value receiver: \<open>n[:]\<close> is a slice of the method's own copy of the
  array, so the bytes decoded into it are lost and the caller's value stays as it was.
  The result is the caller's value afterwards and the error.
\<close>

definition item_unmarshal_text :: "hexutil \<Rightarrow> item_id \<Rightarrow> string \<Rightarrow> item_id \<times> error option" where
  "item_unmarshal_text H n input =
     (let copy = hx_decode_fixed H (length n) input
      in (n, case copy of Inl e \<Rightarrow> Some e | Inr _ \<Rightarrow> None))"

lemma length_encode_item_id [simp]: "length (encode_item_id w) = 8"
  by (simp add: encode_item_id_def)

lemma valid_encode_item_id [simp]: "valid_item_id (encode_item_id w)"
  by (simp add: valid_item_id_def)

lemma valid_zero_item_id [simp]: "valid_item_id zero_item_id"
  by (simp add: valid_item_id_def zero_item_id_def)

lemma upt_8: "[0..<8] = [0, 1, 2, 3, 4, 5, 6, 7 :: nat]"
  by (simp add: upt_rec)

text \<open>Bit \<open>j\<close> of the joined value is bit \<open>j mod 8\<close> of the byte \<open>j div 8\<close> places from the end.\<close>

lemma bit_join_bytes:
  "length n \<le> 8 \<Longrightarrow>
     bit (foldl (\<lambda>acc b. push_bit 8 acc OR ucast b) (0 :: u64) (n :: bytes)) j \<longleftrightarrow>
       j < 8 * length n \<and> bit (n ! (length n - 1 - j div 8)) (j mod 8)"
proof (induction n arbitrary: j rule: rev_induct)
  case (snoc b n)
  show ?case
  proof (cases "j < 8")
    case True
    then show ?thesis
      by (simp add: bit_or_iff bit_push_bit_iff bit_ucast_iff nth_append)
  next
    case False
    then obtain i where j: "j = i + 8" by (metis add.commute le_iff_add not_less)
    have low: "\<not> bit b j"
      using False by (auto dest: bit_imp_le_length)
    have idx: "(n @ [b]) ! (length (n @ [b]) - 1 - j div 8) = n ! (length n - 1 - i div 8)"
      if "i < 8 * length n"
    proof -
      have "(i + 8) div 8 = Suc (i div 8)" by simp
      moreover have "0 < length n" using that by (cases n) auto
      ultimately show ?thesis by (simp add: j nth_append)
    qed
    have "j < 64" if "i < 8 * length n" using that snoc.prems by (simp add: j)
    with snoc.IH [of i] snoc.prems idx low j show ?thesis
      by (auto simp: bit_or_iff bit_push_bit_iff bit_ucast_iff)
  qed
qed simp

lemma bit_item_uint64:
  "valid_item_id n \<Longrightarrow> bit (item_uint64 n) j \<longleftrightarrow> j < 64 \<and> bit (n ! (7 - j div 8)) (j mod 8)"
  using bit_join_bytes [of n j] by (simp add: valid_item_id_def item_uint64_def)

lemma bit_encode_item_id:
  "i < 8 \<Longrightarrow> bit (encode_item_id w ! i) j \<longleftrightarrow> j < 8 \<and> bit w (56 - 8 * i + j)"
  by (auto simp: encode_item_id_def bit_ucast_iff bit_drop_bit_eq dest: bit_imp_le_length)

lemma item_uint64_encode [simp]: "item_uint64 (encode_item_id w) = w"
proof (rule bit_word_eqI)
  fix j assume "j < LENGTH(64)"
  then have "j div 8 \<le> 7" by simp
  then have "56 - 8 * (7 - j div 8) = 8 * (j div 8)" by (simp add: diff_mult_distrib2)
  then have j: "j < 64" "7 - j div 8 < 8" "56 - 8 * (7 - j div 8) + j mod 8 = j"
    using \<open>j < LENGTH(64)\<close> by simp_all
  show "bit (item_uint64 (encode_item_id w)) j \<longleftrightarrow> bit w j"
    using bit_item_uint64 [of "encode_item_id w" j] bit_encode_item_id [OF j(2)] j by simp
qed

lemma encode_item_uint64:
  assumes "valid_item_id n"
  shows "encode_item_id (item_uint64 n) = n"
proof (rule nth_equalityI)
  show "length (encode_item_id (item_uint64 n)) = length n"
    using assms by (simp add: valid_item_id_def)
  fix i assume "i < length (encode_item_id (item_uint64 n))"
  then have i: "i < 8" by simp
  show "encode_item_id (item_uint64 n) ! i = n ! i"
  proof (rule bit_word_eqI)
    fix j assume "j < LENGTH(8)"
    from i have "56 - 8 * i = 8 * (7 - i)" by (simp add: diff_mult_distrib2)
    with i \<open>j < LENGTH(8)\<close>
    have p: "56 - 8 * i + j < 64" "(56 - 8 * i + j) mod 8 = j" "7 - (56 - 8 * i + j) div 8 = i"
      by simp_all
    show "bit (encode_item_id (item_uint64 n) ! i) j \<longleftrightarrow> bit (n ! i) j"
      unfolding bit_encode_item_id [OF i] bit_item_uint64 [OF assms] p(2,3)
      using p(1) \<open>j < LENGTH(8)\<close> by simp
  qed
qed

lemma item_int64_encode [simp]: "item_int64 (encode_item_id w) = w"
  by (simp add: item_int64_def)

lemma encode_item_id_inj [simp]: "encode_item_id a = encode_item_id b \<longleftrightarrow> a = b"
  by (metis item_uint64_encode)

end
