(* ===== verification/Kv_Store.thy ===== *)
theory Kv_Store
  imports Item_Id
begin

text \<open>
  The prefixed tables over LevelDB: \<open>node/store/store.go\<close> and \<open>node/store/schema.go\<close>. The
  database itself (\<open>airfk/pkg/leveldb\<close>) is outside the repository and is a parameter, a record
  of its four calls. The locale \<open>key_value\<close> is the contract of a key-value store in terms
  of a view, a map from keys to values; \<open>leveldb_table\<close> assumes it of the database, and the
  sublocale shows that the tables of this package keep it.
\<close>

section \<open>The database and the tables\<close>

record 'db leveldb =
  db_has :: "'db \<Rightarrow> bytes \<Rightarrow> error + bool"
  db_get :: "'db \<Rightarrow> bytes \<Rightarrow> error + bytes"
  db_put :: "'db \<Rightarrow> bytes \<Rightarrow> bytes \<Rightarrow> error option \<times> 'db"
  db_delete :: "'db \<Rightarrow> bytes \<Rightarrow> error option \<times> 'db"
  db_close :: "'db \<Rightarrow> 'db"

record 'db store =
  st_db :: 'db
  st_prefix :: bytes

definition new_store :: "'db \<Rightarrow> bytes \<Rightarrow> 'db store" where
  "new_store d p = \<lparr>st_db = d, st_prefix = p\<rparr>"

definition store_close :: "'db leveldb \<Rightarrow> 'db store \<Rightarrow> error option \<times> 'db store" where
  "store_close L t = (None, t\<lparr>st_db := db_close L (st_db t)\<rparr>)"

definition store_has :: "'db leveldb \<Rightarrow> 'db store \<Rightarrow> bytes \<Rightarrow> error + bool" where
  "store_has L t key = db_has L (st_db t) (st_prefix t @ key)"

definition store_get :: "'db leveldb \<Rightarrow> 'db store \<Rightarrow> bytes \<Rightarrow> error + bytes" where
  "store_get L t key = db_get L (st_db t) (st_prefix t @ key)"

definition store_put :: "'db leveldb \<Rightarrow> 'db store \<Rightarrow> bytes \<Rightarrow> bytes \<Rightarrow> error option \<times> 'db store" where
  "store_put L t key value =
     (let (e, d) = db_put L (st_db t) (st_prefix t @ key) value in (e, t\<lparr>st_db := d\<rparr>))"

definition store_delete :: "'db leveldb \<Rightarrow> 'db store \<Rightarrow> bytes \<Rightarrow> error option \<times> 'db store" where
  "store_delete L t key =
     (let (e, d) = db_delete L (st_db t) (st_prefix t @ key) in (e, t\<lparr>st_db := d\<rparr>))"

definition TaskPrefix :: bytes where "TaskPrefix = bytes_of_str ''t''"
definition ResultPrefix :: bytes where "ResultPrefix = bytes_of_str ''r''"

definition task_key :: "u64 \<Rightarrow> bytes" where
  "task_key number = TaskPrefix @ item_bytes (encode_item_id number)"

definition result_key :: "u64 \<Rightarrow> bytes" where
  "result_key number = ResultPrefix @ item_bytes (encode_item_id number)"

section \<open>The contract\<close>

locale key_value =
  fixes view :: "'s \<Rightarrow> bytes \<Rightarrow> bytes option"
    and has :: "'s \<Rightarrow> bytes \<Rightarrow> error + bool"
    and get :: "'s \<Rightarrow> bytes \<Rightarrow> error + bytes"
    and put :: "'s \<Rightarrow> bytes \<Rightarrow> bytes \<Rightarrow> error option \<times> 's"
    and del :: "'s \<Rightarrow> bytes \<Rightarrow> error option \<times> 's"
  assumes has_law: "has s k = Inr (view s k \<noteq> None)"
    and get_present: "view s k = Some v \<Longrightarrow> get s k = Inr v"
    and get_absent: "view s k = None \<Longrightarrow> \<exists>e. get s k = Inl e"
    and put_stores: "put s k v = (None, s') \<Longrightarrow> view s' k = Some v"
    and put_frame: "put s k v = (r, s') \<Longrightarrow> k' \<noteq> k \<Longrightarrow> view s' k' = view s k'"
    and put_fails: "put s k v = (Some e, s') \<Longrightarrow> view s' k = view s k"
    and del_removes: "del s k = (None, s') \<Longrightarrow> view s' k = None"
    and del_frame: "del s k = (r, s') \<Longrightarrow> k' \<noteq> k \<Longrightarrow> view s' k' = view s k'"
    and del_fails: "del s k = (Some e, s') \<Longrightarrow> view s' k = view s k"
begin

lemma get_iff: "get s k = Inr v \<longleftrightarrow> view s k = Some v"
  using get_present [of s k] get_absent [of s k] by (cases "view s k") auto

lemma get_error_iff: "(\<exists>e. get s k = Inl e) \<longleftrightarrow> view s k = None"
  using get_present [of s k] get_absent [of s k] by (cases "view s k") auto

lemma put_view: "put s k v = (None, s') \<Longrightarrow> view s' = (view s)(k \<mapsto> v)"
  using put_stores [of s k v s'] put_frame [of s k v None s'] by (auto simp: fun_eq_iff)

lemma put_view_fails: "put s k v = (Some e, s') \<Longrightarrow> view s' = view s"
  using put_fails [of s k v e s'] put_frame [of s k v "Some e" s'] by (metis ext)

lemma del_view: "del s k = (None, s') \<Longrightarrow> view s' = (view s)(k := None)"
  using del_removes [of s k s'] del_frame [of s k None s'] by (auto simp: fun_eq_iff)

lemma del_view_fails: "del s k = (Some e, s') \<Longrightarrow> view s' = view s"
  using del_fails [of s k e s'] del_frame [of s k "Some e" s'] by (metis ext)

end

section \<open>The tables keep the contract\<close>

definition store_view :: "('db \<Rightarrow> bytes \<Rightarrow> bytes option) \<Rightarrow> 'db store \<Rightarrow> bytes \<Rightarrow> bytes option" where
  "store_view v t k = v (st_db t) (st_prefix t @ k)"

locale leveldb_table =
  fixes L :: "'db leveldb" and dbview :: "'db \<Rightarrow> bytes \<Rightarrow> bytes option"
  assumes database: "key_value dbview (db_has L) (db_get L) (db_put L) (db_delete L)"

sublocale leveldb_table \<subseteq> db: key_value dbview "db_has L" "db_get L" "db_put L" "db_delete L"
  by (rule database)

sublocale leveldb_table \<subseteq> table: key_value "store_view dbview" "store_has L" "store_get L"
    "store_put L" "store_delete L"
proof unfold_locales
  fix s :: "'db store" and k
  show "store_has L s k = Inr (store_view dbview s k \<noteq> None)"
    by (simp add: store_has_def store_view_def db.has_law)
qed (auto simp: store_view_def store_get_def store_put_def store_delete_def
      db.get_present db.get_absent db.put_stores db.put_frame db.put_fails db.del_removes
      db.del_frame db.del_fails split: prod.splits)

text \<open>Two tables in one database whose prefixes differ in their first bytes do not share a key.\<close>

lemma prefixed_keys_differ:
  "length p = length q \<Longrightarrow> p \<noteq> q \<Longrightarrow> p @ (k :: bytes) \<noteq> q @ k'"
  by simp

lemma prefixes_differ: "TaskPrefix \<noteq> ResultPrefix" "length TaskPrefix = length ResultPrefix"
  by (simp_all add: TaskPrefix_def ResultPrefix_def bytes_of_str_def)

context leveldb_table
begin

lemma store_key_value:
  "key_value (store_view dbview) (store_has L) (store_get L) (store_put L) (store_delete L)"
  by unfold_locales

lemma other_table_unchanged:
  assumes "length (st_prefix t) = length p" "st_prefix t \<noteq> p"
  shows "store_put L t k v = (e, t') \<Longrightarrow>
      store_view dbview \<lparr>st_db = st_db t', st_prefix = p\<rparr> k' =
      store_view dbview \<lparr>st_db = st_db t, st_prefix = p\<rparr> k'"
    and "store_delete L t k = (e, t') \<Longrightarrow>
      store_view dbview \<lparr>st_db = st_db t', st_prefix = p\<rparr> k' =
      store_view dbview \<lparr>st_db = st_db t, st_prefix = p\<rparr> k'"
  using assms prefixed_keys_differ [OF assms]
  by (auto simp: store_view_def store_put_def store_delete_def db.put_frame db.del_frame
      split: prod.splits)

end

lemma store_put_prefix [frame_simps]: "st_prefix (snd (store_put L t k v)) = st_prefix t"
  by (simp add: store_put_def split: prod.splits)

lemma store_delete_prefix [frame_simps]: "st_prefix (snd (store_delete L t k)) = st_prefix t"
  by (simp add: store_delete_def split: prod.splits)

section \<open>A database in memory\<close>

text \<open>A concrete database that meets the contract, so that hypotheses about the parameter can be
  met: a map, where no call fails and a missing key is reported as the driver does.\<close>

definition sample_leveldb :: "(bytes \<Rightarrow> bytes option) leveldb" where
  "sample_leveldb = \<lparr>
     db_has = (\<lambda>d k. Inr (d k \<noteq> None)),
     db_get = (\<lambda>d k. case d k of None \<Rightarrow> Inl (ErrExt ''leveldb: not found'') | Some v \<Rightarrow> Inr v),
     db_put = (\<lambda>d k v. (None, d(k \<mapsto> v))),
     db_delete = (\<lambda>d k. (None, d(k := None))),
     db_close = (\<lambda>d. d)\<rparr>"

interpretation sample_table: leveldb_table sample_leveldb "\<lambda>d. d"
  by unfold_locales (auto simp: sample_leveldb_def split: option.splits)

section \<open>Properties\<close>

text \<open>C40: The task table and the result table may live in one database: a table reads back what
  it wrote, and writing or deleting any key of the one leaves every key of the other as it was.\<close>

theorem tables_are_isolated:
  assumes "leveldb_table L dbview"
    and "store_put L (new_store d TaskPrefix) k v = (None, t)"
    and "store_delete L t j = (e, t')"
  shows "store_get L t k = Inr v \<and> (k \<noteq> j \<longrightarrow> store_get L t' k = Inr v) \<and>
    (\<forall>k' w. store_get L (new_store (st_db t') ResultPrefix) k' = Inr w \<longleftrightarrow>
            store_get L (new_store d ResultPrefix) k' = Inr w)"
proof -
  have pre: "st_prefix t = TaskPrefix"
    using assms(2) store_put_prefix [of L "new_store d TaskPrefix" k v] by (simp add: new_store_def)
  have kv: "key_value (store_view dbview) (store_has L) (store_get L) (store_put L) (store_delete L)"
    by (rule leveldb_table.store_key_value [OF assms(1)])
  have get: "store_get L s k' = Inr w \<longleftrightarrow> store_view dbview s k' = Some w" for s k' w
    by (rule key_value.get_iff [OF kv])
  have "store_view dbview (new_store (st_db t') ResultPrefix) k'
      = store_view dbview (new_store d ResultPrefix) k'" for k'
    using leveldb_table.other_table_unchanged(1) [OF assms(1) _ _ assms(2), of ResultPrefix]
      leveldb_table.other_table_unchanged(2) [OF assms(1) _ _ assms(3), of ResultPrefix]
      prefixes_differ pre
    by (simp add: new_store_def)
  moreover have "store_view dbview t k = Some v"
    by (rule key_value.put_stores [OF kv assms(2)])
  moreover have "k \<noteq> j \<Longrightarrow> store_view dbview t' k = store_view dbview t k"
    by (rule key_value.del_frame [OF kv assms(3)])
  ultimately show ?thesis by (simp add: get)
qed

theorem tables_are_isolated_witness:
  "\<exists>t t'. store_put sample_leveldb (new_store Map.empty TaskPrefix) [1] [7] = (None, t) \<and>
     store_delete sample_leveldb t [2] = (None, t') \<and> store_get sample_leveldb t' [1] = Inr [7]"
proof -
  obtain t where t: "store_put sample_leveldb (new_store Map.empty TaskPrefix) [1] [7] = (None, t)"
    by (simp add: store_put_def sample_leveldb_def)
  obtain t' where t': "store_delete sample_leveldb t [2] = (None, t')"
    by (simp add: store_delete_def sample_leveldb_def)
  from tables_are_isolated [OF sample_table.leveldb_table_axioms t t'] t t' show ?thesis by simp
qed

end
