(* ===== verification/Job_Type.thy ===== *)
theory Job_Type
  imports Errors
begin

text \<open>
  The kinds of task, \<open>node/common/job_type.go\<close>: an enumeration numbered from 0, its text forms
  and the parser of the text form. The lemmas show that parsing undoes printing on the three
  kinds that have a text, and that the zero value has none.
\<close>

datatype job_type = JobTypeUnkown | JobTypeCmd | JobTypeFile | JobTypePlugin

primrec job_type_code :: "job_type \<Rightarrow> nat" where
  "job_type_code JobTypeUnkown = 0"
| "job_type_code JobTypeCmd = 1"
| "job_type_code JobTypeFile = 2"
| "job_type_code JobTypePlugin = 3"

lemma job_type_code_inj: "job_type_code a = job_type_code b \<Longrightarrow> a = b"
  by (cases a; cases b) simp_all

text \<open>The order of the constants is the order of their numbers.\<close>

instantiation job_type :: linorder
begin

definition less_eq_job_type :: "job_type \<Rightarrow> job_type \<Rightarrow> bool" where
  "less_eq_job_type a b \<longleftrightarrow> job_type_code a \<le> job_type_code b"

definition less_job_type :: "job_type \<Rightarrow> job_type \<Rightarrow> bool" where
  "less_job_type a b \<longleftrightarrow> job_type_code a < job_type_code b"

instance
  by standard (auto simp: less_eq_job_type_def less_job_type_def intro: job_type_code_inj)

end

definition job_type_unmarshal_text :: "string \<Rightarrow> error + job_type" where
  "job_type_unmarshal_text data =
     (let input = trim_space data
      in if input = ''cmd'' then Inr JobTypeCmd
         else if input = ''sh'' then Inr JobTypeFile
         else if input = ''plugin'' then Inr JobTypePlugin
         else Inl ErrInvalidJobType)"

definition job_type_string :: "job_type \<Rightarrow> string" where
  "job_type_string jt =
     (case jt of
        JobTypeCmd \<Rightarrow> ''cmd''
      | JobTypeFile \<Rightarrow> ''sh''
      | JobTypePlugin \<Rightarrow> ''plugin''
      | _ \<Rightarrow> ''unknown type : '' @ show_nat (job_type_code jt))"

definition job_type_marshal_text :: "job_type \<Rightarrow> error + string" where
  "job_type_marshal_text jt =
     (case jt of
        JobTypeCmd \<Rightarrow> Inr ''cmd''
      | JobTypeFile \<Rightarrow> Inr ''sh''
      | JobTypePlugin \<Rightarrow> Inr ''plugin''
      | _ \<Rightarrow> Inl ErrInvalidJobType)"

lemma job_type_marshal_fails_iff:
  "(\<exists>e. job_type_marshal_text jt = Inl e) \<longleftrightarrow> jt = JobTypeUnkown"
  by (cases jt) (simp_all add: job_type_marshal_text_def)

lemma trim_space_names [simp]:
  "trim_space ''cmd'' = ''cmd''" "trim_space ''sh'' = ''sh''" "trim_space ''plugin'' = ''plugin''"
  by (simp_all add: trim_space_def is_space_def)

lemma job_type_unmarshal_marshal:
  "job_type_marshal_text jt = Inr t \<Longrightarrow> job_type_unmarshal_text t = Inr jt"
  by (cases jt) (auto simp: job_type_marshal_text_def job_type_unmarshal_text_def)

lemma job_type_marshal_string:
  "job_type_marshal_text jt = Inr t \<Longrightarrow> job_type_string jt = t"
  by (cases jt) (auto simp: job_type_marshal_text_def job_type_string_def)

end
