(* ===== verification/Json.thy ===== *)
theory Json
  imports Errors Item_Id
begin

text \<open>
  The part of \<open>encoding/json\<close> the program uses: the compact text \<open>json.Marshal\<close> prints, with
  its string escapes, and a parser for JSON texts. Strings are byte lists: a byte sequence
  that is not UTF-8 is printed, and read, as U+FFFD, and U+2028 and U+2029 are escaped.
  The parser takes fuel: every unit but the one an array element costs consumes a character,
  so twice the length of the text is enough.
  The lemmas show that parsing undoes printing on objects of UTF-8 strings and integers.
\<close>

datatype json =
    JNull
  | JBool bool
  | JNum string
  | JStr string
  | JArr "json list"
  | JObj "(string \<times> json) list"

section \<open>UTF-8\<close>

text \<open>The length of the UTF-8 sequence at the head of a string, 0 where there is none.\<close>

fun in_ranges :: "string \<Rightarrow> (nat \<times> nat) list \<Rightarrow> bool" where
  "in_ranges s [] = True"
| "in_ranges [] (r # rs) = False"
| "in_ranges (c # s) ((lo, hi) # rs) = (lo \<le> of_char c \<and> of_char c \<le> hi \<and> in_ranges s rs)"

definition rune_tail :: "nat \<Rightarrow> (nat \<times> nat) list option" where
  "rune_tail n =
     (if n < 128 then Some []
      else if 194 \<le> n \<and> n \<le> 223 then Some [(128, 191)]
      else if n = 224 then Some [(160, 191), (128, 191)]
      else if n = 237 then Some [(128, 159), (128, 191)]
      else if 225 \<le> n \<and> n \<le> 239 then Some [(128, 191), (128, 191)]
      else if n = 240 then Some [(144, 191), (128, 191), (128, 191)]
      else if 241 \<le> n \<and> n \<le> 243 then Some [(128, 191), (128, 191), (128, 191)]
      else if n = 244 then Some [(128, 143), (128, 191), (128, 191)]
      else None)"

definition rune_len :: "char \<Rightarrow> string \<Rightarrow> nat" where
  "rune_len c r =
     (case rune_tail (of_char c) of
        None \<Rightarrow> 0
      | Some rs \<Rightarrow> if in_ranges r rs then Suc (length rs) else 0)"

fun utf8_ok :: "string \<Rightarrow> bool" where
  "utf8_ok [] = True"
| "utf8_ok (c # r) = (rune_len c r \<noteq> 0 \<and> utf8_ok (drop (rune_len c r - 1) r))"

definition ReplacementChar :: string where
  "ReplacementChar = [CHR 0xEF, CHR 0xBF, CHR 0xBD]"

lemma in_ranges_append: "in_ranges r rs \<Longrightarrow> in_ranges (take (length rs) r @ t) rs"
  by (induction r rs rule: in_ranges.induct) auto

lemma in_ranges_length: "in_ranges r rs \<Longrightarrow> length rs \<le> length r"
  by (induction r rs rule: in_ranges.induct) auto

lemma rune_len_take:
  "rune_len c r \<noteq> 0 \<Longrightarrow> rune_len c (take (rune_len c r - 1) r @ t) = rune_len c r"
  by (auto simp: rune_len_def in_ranges_append split: option.splits if_splits)

lemma rune_len_bound: "rune_len c r - 1 \<le> length r"
  by (auto simp: rune_len_def split: option.splits dest: in_ranges_length)

lemma rune_len_ascii [simp]: "of_char c < (128 :: nat) \<Longrightarrow> rune_len c r = 1"
  by (simp add: rune_len_def rune_tail_def)

lemma utf8_ok_ascii: "\<forall>c \<in> set s. of_char c < (128 :: nat) \<Longrightarrow> utf8_ok s"
  by (induction s) auto

section \<open>Printing\<close>

abbreviation (input) dquote :: char where "dquote \<equiv> CHR 0x22"
abbreviation (input) backslash :: char where "backslash \<equiv> CHR 0x5C"

definition json_quote_char :: "char \<Rightarrow> string" where
  "json_quote_char c =
     (if c = dquote \<or> c = backslash then [backslash, c]
      else if c = CHR 0x0A then [backslash, CHR ''n'']
      else if c = CHR 0x0D then [backslash, CHR ''r'']
      else if c = CHR 0x09 then [backslash, CHR ''t'']
      else if of_char c < (32 :: nat) \<or> c \<in> {CHR ''<'', CHR ''>'', CHR ''&''}
      then [backslash, CHR ''u'', CHR ''0'', CHR ''0'',
            hex_digit (of_char c div 16), hex_digit (of_char c mod 16)]
      else [c])"

definition quote_rune :: "string \<Rightarrow> string" where
  "quote_rune rune =
     (if rune = [CHR 0xE2, CHR 0x80, CHR 0xA8] then [backslash] @ ''u2028''
      else if rune = [CHR 0xE2, CHR 0x80, CHR 0xA9] then [backslash] @ ''u2029''
      else rune)"

fun json_quote :: "string \<Rightarrow> string" where
  "json_quote [] = []"
| "json_quote (c # r) =
     (if of_char c < (128 :: nat) then json_quote_char c @ json_quote r
      else if rune_len c r = 0 then [backslash] @ ''ufffd'' @ json_quote r
      else quote_rune (c # take (rune_len c r - 1) r) @ json_quote (drop (rune_len c r - 1) r))"

definition json_string :: "string \<Rightarrow> string" where
  "json_string s = dquote # json_quote s @ [dquote]"

fun json_print :: "json \<Rightarrow> string" where
  "json_print JNull = ''null''"
| "json_print (JBool b) = (if b then ''true'' else ''false'')"
| "json_print (JNum t) = t"
| "json_print (JStr s) = json_string s"
| "json_print (JArr vs) = ''['' @ join_with '','' (map json_print vs) @ '']''"
| "json_print (JObj kvs) =
     ''{'' @ join_with '','' (map (\<lambda>(k, v). json_string k @ '':'' @ json_print v) kvs) @ ''}''"

definition json_int :: "i64 \<Rightarrow> json" where
  "json_int x = JNum (show_int (sint x))"

section \<open>Parsing\<close>

definition is_ws :: "char \<Rightarrow> bool" where
  "is_ws c \<longleftrightarrow> c \<in> {CHR 0x20, CHR 0x09, CHR 0x0A, CHR 0x0D}"

definition skip_ws :: "string \<Rightarrow> string" where
  "skip_ws s = dropWhile is_ws s"

definition hex_val :: "char \<Rightarrow> nat option" where
  "hex_val c =
     (let n = of_char c
      in if 48 \<le> n \<and> n \<le> 57 then Some (n - 48)
         else if 97 \<le> n \<and> n \<le> 102 then Some (n - 87)
         else if 65 \<le> n \<and> n \<le> 70 then Some (n - 55)
         else None)"

definition hex4 :: "char \<Rightarrow> char \<Rightarrow> char \<Rightarrow> char \<Rightarrow> nat option" where
  "hex4 a b c d =
     (case (hex_val a, hex_val b, hex_val c, hex_val d) of
        (Some w, Some x, Some y, Some z) \<Rightarrow> Some (((w * 16 + x) * 16 + y) * 16 + z)
      | _ \<Rightarrow> None)"

definition utf8_encode :: "nat \<Rightarrow> string" where
  "utf8_encode u =
     (if u < 128 then [char_of u]
      else if u < 2048 then [char_of (192 + u div 64), char_of (128 + u mod 64)]
      else if 55296 \<le> u \<and> u < 57344 then ReplacementChar
      else if u < 65536
      then [char_of (224 + u div 4096), char_of (128 + u div 64 mod 64), char_of (128 + u mod 64)]
      else [char_of (240 + u div 262144), char_of (128 + u div 4096 mod 64),
            char_of (128 + u div 64 mod 64), char_of (128 + u mod 64)])"

text \<open>A high surrogate that the escape of a low one follows stands, with it, for one character.\<close>

definition surrogate_pair :: "nat \<Rightarrow> string \<Rightarrow> nat option" where
  "surrogate_pair u r =
     (case r of
        b # v # w # x # y # z # r' \<Rightarrow>
          (case hex4 w x y z of
             None \<Rightarrow> None
           | Some u2 \<Rightarrow>
               if b = backslash \<and> v = CHR ''u'' \<and> 55296 \<le> u \<and> u < 56320 \<and> 56320 \<le> u2 \<and> u2 < 57344
               then Some (65536 + (u - 55296) * 1024 + (u2 - 56320)) else None)
      | _ \<Rightarrow> None)"

definition unescape :: "char \<Rightarrow> char option" where
  "unescape e =
     (if e = dquote \<or> e = backslash \<or> e = CHR ''/'' then Some e
      else if e = CHR ''b'' then Some (CHR 0x08)
      else if e = CHR ''f'' then Some (CHR 0x0C)
      else if e = CHR ''n'' then Some (CHR 0x0A)
      else if e = CHR ''r'' then Some (CHR 0x0D)
      else if e = CHR ''t'' then Some (CHR 0x09)
      else None)"

text \<open>The rest of a string literal after its opening quote.\<close>

fun parse_str :: "string \<Rightarrow> (string \<times> string) option" where
  "parse_str [] = None"
| "parse_str (c # r) =
     (if c = dquote then Some ([], r)
      else if c = backslash then
        (case r of
           [] \<Rightarrow> None
         | e # r1 \<Rightarrow>
             if e = CHR ''u'' then
               (case r1 of
                  w # x # y # z # r2 \<Rightarrow>
                    (case hex4 w x y z of
                       None \<Rightarrow> None
                     | Some u \<Rightarrow>
                         (case surrogate_pair u r2 of
                            Some p \<Rightarrow> map_option (apfst ((@) (utf8_encode p))) (parse_str (drop 6 r2))
                          | None \<Rightarrow> map_option (apfst ((@) (utf8_encode u))) (parse_str r2)))
                | _ \<Rightarrow> None)
             else (case unescape e of
                     None \<Rightarrow> None
                   | Some d \<Rightarrow> map_option (apfst ((#) d)) (parse_str r1)))
      else if of_char c < (32 :: nat) then None
      else if of_char c < (128 :: nat) then map_option (apfst ((#) c)) (parse_str r)
      else if rune_len c r = 0 then map_option (apfst ((@) ReplacementChar)) (parse_str r)
      else map_option (apfst ((@) (c # take (rune_len c r - 1) r)))
             (parse_str (drop (rune_len c r - 1) r)))"

definition is_num_char :: "char \<Rightarrow> bool" where
  "is_num_char c \<longleftrightarrow> is_digit c \<or> c \<in> {CHR ''-'', CHR ''+'', CHR ''.'', CHR ''e'', CHR ''E''}"

definition valid_exp :: "string \<Rightarrow> bool" where
  "valid_exp s \<longleftrightarrow> s = [] \<or>
     ((hd s = CHR ''e'' \<or> hd s = CHR ''E'') \<and>
      (let t = tl s; d = (if t \<noteq> [] \<and> (hd t = CHR ''+'' \<or> hd t = CHR ''-'') then tl t else t)
       in d \<noteq> [] \<and> list_all is_digit d))"

definition valid_number :: "string \<Rightarrow> bool" where
  "valid_number s =
     (let t = (if s \<noteq> [] \<and> hd s = CHR ''-'' then tl s else s);
          whole = takeWhile is_digit t; r = dropWhile is_digit t
      in whole \<noteq> [] \<and> (hd whole \<noteq> CHR ''0'' \<or> length whole = 1) \<and>
         (if r \<noteq> [] \<and> hd r = CHR ''.''
          then takeWhile is_digit (tl r) \<noteq> [] \<and> valid_exp (dropWhile is_digit (tl r))
          else valid_exp r))"

definition parse_number :: "string \<Rightarrow> (json \<times> string) option" where
  "parse_number s =
     (let t = takeWhile is_num_char s
      in if valid_number t then Some (JNum t, dropWhile is_num_char s) else None)"

definition parse_word :: "string \<Rightarrow> json \<Rightarrow> string \<Rightarrow> (json \<times> string) option" where
  "parse_word w v s = (if take (length w) s = w then Some (v, drop (length w) s) else None)"

fun parse_value :: "nat \<Rightarrow> string \<Rightarrow> (json \<times> string) option"
  and parse_members :: "nat \<Rightarrow> string \<Rightarrow> ((string \<times> json) list \<times> string) option"
  and parse_elems :: "nat \<Rightarrow> string \<Rightarrow> (json list \<times> string) option" where
  "parse_value 0 s = None"
| "parse_value (Suc n) s =
     (case s of
        [] \<Rightarrow> None
      | c # r \<Rightarrow>
          if c = dquote then map_option (apfst JStr) (parse_str r)
          else if c = CHR ''{'' then
            (case skip_ws r of
               [] \<Rightarrow> None
             | d # r' \<Rightarrow> if d = CHR ''}'' then Some (JObj [], r')
                        else map_option (apfst JObj) (parse_members n (d # r')))
          else if c = CHR ''['' then
            (case skip_ws r of
               [] \<Rightarrow> None
             | d # r' \<Rightarrow> if d = CHR '']'' then Some (JArr [], r')
                        else map_option (apfst JArr) (parse_elems n (d # r')))
          else if c = CHR ''t'' then parse_word ''true'' (JBool True) s
          else if c = CHR ''f'' then parse_word ''false'' (JBool False) s
          else if c = CHR ''n'' then parse_word ''null'' JNull s
          else parse_number s)"
| "parse_members 0 s = None"
| "parse_members (Suc n) s =
     (case s of
        [] \<Rightarrow> None
      | c # r \<Rightarrow>
          if c \<noteq> dquote then None
          else (case parse_str r of
                  None \<Rightarrow> None
                | Some (k, r1) \<Rightarrow>
                    (case skip_ws r1 of
                       [] \<Rightarrow> None
                     | d # r2 \<Rightarrow>
                         if d \<noteq> CHR '':'' then None
                         else (case parse_value n (skip_ws r2) of
                                 None \<Rightarrow> None
                               | Some (v, r3) \<Rightarrow>
                                   (case skip_ws r3 of
                                      [] \<Rightarrow> None
                                    | e # r4 \<Rightarrow>
                                        if e = CHR ''}'' then Some ([(k, v)], r4)
                                        else if e = CHR '',''
                                        then map_option (apfst ((#) (k, v)))
                                               (parse_members n (skip_ws r4))
                                        else None)))))"
| "parse_elems 0 s = None"
| "parse_elems (Suc n) s =
     (case parse_value n s of
        None \<Rightarrow> None
      | Some (v, r3) \<Rightarrow>
          (case skip_ws r3 of
             [] \<Rightarrow> None
           | e # r4 \<Rightarrow>
               if e = CHR '']'' then Some ([v], r4)
               else if e = CHR '',''
               then map_option (apfst ((#) v)) (parse_elems n (skip_ws r4))
               else None))"

definition json_parse :: "string \<Rightarrow> json option" where
  "json_parse s =
     (case parse_value (2 * length s + 2) (skip_ws s) of
        None \<Rightarrow> None
      | Some (v, r) \<Rightarrow> if skip_ws r = [] then Some v else None)"


section \<open>Parsing undoes printing\<close>

lemma hex_val_digit: "k < 16 \<Longrightarrow> hex_val (hex_digit k) = Some k"
  by (simp add: hex_val_def hex_digit_def Let_def)

lemma of_char_less: "of_char (c :: char) < (256 :: nat)"
  by (metis char_of_char char_of_mod_256 mod_less_divisor of_char_of zero_less_numeral)

lemma hex4_byte: "k < 256 \<Longrightarrow> hex4 (CHR ''0'') (CHR ''0'') (hex_digit (k div 16)) (hex_digit (k mod 16)) = Some k"
proof -
  assume "k < 256"
  then have "k div 16 < 16" by simp
  moreover have "hex_val (CHR ''0'') = Some 0" by (simp add: hex_val_def)
  ultimately show ?thesis by (simp add: hex4_def hex_val_digit)
qed

lemma surrogate_pair_small: "u < 55296 \<Longrightarrow> surrogate_pair u r = None"
  by (auto simp: surrogate_pair_def split: list.splits option.splits)

lemma parse_str_quote_char:
  assumes "(of_char c :: nat) < 128"
  shows "parse_str (json_quote_char c @ s) = map_option (apfst ((#) c)) (parse_str s)"
proof -
  have u: "map_option (apfst ((@) (utf8_encode (of_char c)))) r = map_option (apfst ((#) c)) r"
    for r :: "(string \<times> string) option"
  proof -
    have "(@) [c] = (#) c" by (simp add: fun_eq_iff)
    with assms show ?thesis by (simp add: utf8_encode_def)
  qed
  have "surrogate_pair (of_char c) s = None" using assms by (simp add: surrogate_pair_small)
  then show ?thesis
    using u assms hex4_byte [OF of_char_less, of c]
    by (auto simp: json_quote_char_def unescape_def)
qed

lemma parse_str_rune:
  assumes "\<not> of_char c < (128 :: nat)" "rune_len c r \<noteq> 0"
  shows "parse_str ((c # take (rune_len c r - 1) r) @ s) =
    map_option (apfst ((@) (c # take (rune_len c r - 1) r))) (parse_str s)"
proof -
  have "c \<noteq> dquote" "c \<noteq> backslash" "\<not> of_char c < (32 :: nat)" using assms(1) by auto
  moreover have "length (take (rune_len c r - 1) r) = rune_len c r - 1"
    using rune_len_bound [of c r] by simp
  ultimately show ?thesis
    using assms rune_len_take [OF assms(2), of s] by simp
qed

lemma parse_str_line_separators:
  "parse_str ([backslash] @ ''u2028'' @ s)
     = map_option (apfst ((@) [CHR 0xE2, CHR 0x80, CHR 0xA8])) (parse_str s)"
  "parse_str ([backslash] @ ''u2029'' @ s)
     = map_option (apfst ((@) [CHR 0xE2, CHR 0x80, CHR 0xA9])) (parse_str s)"
proof -
  have "hex4 (CHR ''2'') (CHR ''0'') (CHR ''2'') (CHR ''8'') = Some 8232"
    "hex4 (CHR ''2'') (CHR ''0'') (CHR ''2'') (CHR ''9'') = Some 8233"
    by (simp_all add: hex4_def hex_val_def)
  moreover have "utf8_encode 8232 = [CHR 0xE2, CHR 0x80, CHR 0xA8]"
    "utf8_encode 8233 = [CHR 0xE2, CHR 0x80, CHR 0xA9]"
    by (simp_all add: utf8_encode_def char_of_def bit_0)
  ultimately show "parse_str ([backslash] @ ''u2028'' @ s)
     = map_option (apfst ((@) [CHR 0xE2, CHR 0x80, CHR 0xA8])) (parse_str s)"
  "parse_str ([backslash] @ ''u2029'' @ s)
     = map_option (apfst ((@) [CHR 0xE2, CHR 0x80, CHR 0xA9])) (parse_str s)"
    by (simp_all add: surrogate_pair_small)
qed

lemma parse_quote_rune:
  assumes "\<not> of_char c < (128 :: nat)" "rune_len c r \<noteq> 0"
  shows "parse_str (quote_rune (c # take (rune_len c r - 1) r) @ s) =
    map_option (apfst ((@) (c # take (rune_len c r - 1) r))) (parse_str s)"
proof (cases "c # take (rune_len c r - 1) r \<in>
    {[CHR 0xE2, CHR 0x80, CHR 0xA8], [CHR 0xE2, CHR 0x80, CHR 0xA9]}")
  case True
  then consider "c # take (rune_len c r - 1) r = [CHR 0xE2, CHR 0x80, CHR 0xA8]"
    | "c # take (rune_len c r - 1) r = [CHR 0xE2, CHR 0x80, CHR 0xA9]" by blast
  then show ?thesis
  proof cases
    case 1
    show ?thesis unfolding 1 using parse_str_line_separators(1) [of s]
      by (simp add: quote_rune_def del: parse_str.simps append.simps)
  next
    case 2
    show ?thesis unfolding 2 using parse_str_line_separators(2) [of s]
      by (simp add: quote_rune_def del: parse_str.simps append.simps)
  qed
next
  case False
  then have "quote_rune (c # take (rune_len c r - 1) r) = c # take (rune_len c r - 1) r"
    by (simp add: quote_rune_def)
  then show ?thesis by (simp only: parse_str_rune [OF assms])
qed

lemma parse_str_print:
  "utf8_ok s \<Longrightarrow> parse_str (json_quote s @ dquote # rest) = Some (s, rest)"
proof (induction s rule: utf8_ok.induct)
  case (2 c r)
  let ?t = "take (rune_len c r - 1) r" and ?d = "drop (rune_len c r - 1) r"
  from 2 have ih: "parse_str (json_quote ?d @ dquote # rest) = Some (?d, rest)" by simp
  show ?case
  proof (cases "of_char c < (128 :: nat)")
    case True
    with ih show ?thesis by (simp add: parse_str_quote_char del: parse_str.simps)
  next
    case False
    from 2 have n: "rune_len c r \<noteq> 0" by simp
    have "json_quote (c # r) = quote_rune (c # ?t) @ json_quote ?d" using False n by simp
    moreover have "parse_str (quote_rune (c # ?t) @ json_quote ?d @ dquote # rest)
        = map_option (apfst ((@) (c # ?t))) (parse_str (json_quote ?d @ dquote # rest))"
      by (rule parse_quote_rune [OF False n])
    moreover have "(c # ?t) @ ?d = c # r" by simp
    ultimately show ?thesis using ih by (simp del: parse_str.simps json_quote.simps)
  qed
qed simp

definition json_atom :: "json \<Rightarrow> bool" where
  "json_atom v \<longleftrightarrow> (\<exists>s. v = JStr s \<and> utf8_ok s) \<or> (\<exists>i. v = JNum (show_int i))"

lemma json_atom_intros [simp]:
  "utf8_ok s \<Longrightarrow> json_atom (JStr s)" "json_atom (JNum (show_int i))" "json_atom (json_int x)"
  by (auto simp: json_atom_def json_int_def)

lemma show_nat_leading_zero: "hd (show_nat n) = CHR ''0'' \<Longrightarrow> length (show_nat n) = 1"
proof (induction n rule: show_nat.induct)
  case (1 n)
  show ?case
  proof (cases "n < 10")
    case True
    then show ?thesis by (simp add: show_nat.simps [of n])
  next
    case False
    with "1.prems" have "hd (show_nat (n div 10)) = CHR ''0''"
      by (simp add: show_nat.simps [of n])
    with "1.IH" False have "length (show_nat (n div 10)) = 1" by simp
    then have zero: "show_nat (n div 10) = [CHR ''0'']"
      using \<open>hd (show_nat (n div 10)) = CHR ''0''\<close> by (cases "show_nat (n div 10)") auto
    have "n div 10 = read_nat [CHR ''0'']" by (simp flip: zero)
    with False show ?thesis by (simp add: read_nat_def digit_val_def)
  qed
qed

lemma valid_number_show_int: "valid_number (show_int i)"
proof -
  have tok: "takeWhile is_digit (show_nat n) = show_nat n" "dropWhile is_digit (show_nat n) = []" for n
    using show_nat_digits [of n] by (simp_all add: takeWhile_eq_all_conv dropWhile_eq_Nil_conv)
  have lead: "hd (show_nat n) \<noteq> CHR ''0'' \<or> length (show_nat n) = 1" for n
    using show_nat_leading_zero by blast
  have "valid_number (show_nat n)" "valid_number (CHR ''-'' # show_nat n)" for n
    using show_nat_digits [of n] show_nat_hd [of n] lead [of n] by (simp_all add: valid_number_def valid_exp_def tok)
  then show ?thesis by (simp add: show_int_def)
qed

lemma num_chars_show_int: "\<forall>c \<in> set (show_int i). is_num_char c"
  using show_nat_digits by (auto simp: show_int_def is_num_char_def)

lemma show_int_not_Nil [simp]: "show_int i \<noteq> []"
  by (simp add: show_int_def)

lemma parse_number_show_int:
  assumes "rest \<noteq> []" "\<not> is_num_char (hd rest)"
  shows "parse_number (show_int i @ rest) = Some (JNum (show_int i), rest)"
proof -
  from assms obtain c r where "rest = c # r" "\<not> is_num_char c" by (cases rest) auto
  with num_chars_show_int [of i] valid_number_show_int [of i] show ?thesis
    by (simp add: parse_number_def takeWhile_append2 dropWhile_append2)
qed

text \<open>What a token starts with decides the parser's branch.\<close>

lemma show_int_hd: "\<exists>c r. show_int i = c # r \<and> (is_digit c \<or> c = CHR ''-'')"
proof -
  have "\<exists>c r. show_nat n = c # r \<and> is_digit c" for n
    using show_nat_digits [of n] by (cases "show_nat n") auto
  from this [of "nat i"] show ?thesis by (cases "i < 0") (auto simp: show_int_def)
qed

lemma parse_value_atom:
  assumes "json_atom v" "rest \<noteq> []" "\<not> is_num_char (hd rest)"
  shows "parse_value (Suc n) (json_print v @ rest) = Some (v, rest)"
proof (cases v)
  case (JStr s)
  with assms(1) have "utf8_ok s" by (simp add: json_atom_def)
  with JStr show ?thesis by (simp add: json_string_def parse_str_print)
next
  case (JNum t)
  with assms(1) obtain i where t: "t = show_int i" by (auto simp: json_atom_def)
  obtain c r where c: "show_int i = c # r" "is_digit c \<or> c = CHR ''-''"
    using show_int_hd by blast
  have "c \<notin> {dquote, CHR ''{'', CHR ''['', CHR ''t'', CHR ''f'', CHR ''n''}"
    using c(2) by (auto simp: is_digit_def)
  with parse_number_show_int [OF assms(2,3), of i] c(1) JNum t show ?thesis by simp
qed (use assms(1) in \<open>auto simp: json_atom_def\<close>)

lemma skip_ws_print_atom: "json_atom v \<Longrightarrow> skip_ws (json_print v @ rest) = json_print v @ rest"
proof -
  assume "json_atom v"
  moreover have "skip_ws (show_int i @ rest) = show_int i @ rest" for i
  proof -
    obtain c r where "show_int i = c # r" "is_digit c \<or> c = CHR ''-''"
      using show_int_hd by blast
    then show ?thesis by (auto simp: skip_ws_def is_ws_def is_digit_def)
  qed
  ultimately show ?thesis by (auto simp: json_atom_def json_string_def skip_ws_def is_ws_def)
qed

definition print_member :: "string \<times> json \<Rightarrow> string" where
  "print_member = (\<lambda>(k, v). json_string k @ '':'' @ json_print v)"

lemma parse_members_step:
  assumes "json_atom v" "e = CHR ''}'' \<or> e = CHR '',''" "utf8_ok k"
  shows "parse_members (Suc (Suc m)) (print_member (k, v) @ e # r) =
    (if e = CHR ''}'' then Some ([(k, v)], r)
     else map_option (apfst ((#) (k, v))) (parse_members (Suc m) (skip_ws r)))"
proof -
  have sep: "\<not> is_num_char e" using assms(2) by (auto simp: is_num_char_def is_digit_def)
  have ws: "skip_ws (c # s) = c # s" if "c \<in> {CHR '':'', CHR ''}'', CHR '',''}" for c s
    using that by (auto simp: skip_ws_def is_ws_def)
  have "parse_value (Suc m) (skip_ws (json_print v @ e # r)) = Some (v, e # r)"
    using assms(1) sep by (simp add: skip_ws_print_atom parse_value_atom del: parse_value.simps)
  moreover have "e \<in> {CHR '':'', CHR ''}'', CHR '',''}" using assms(2) by auto
  ultimately show ?thesis using assms(2) ws
    by (simp add: print_member_def json_string_def parse_str_print assms(3)
        del: parse_value.simps parse_str.simps) auto
qed

declare parse_value.simps [simp del] parse_members.simps [simp del] parse_elems.simps [simp del]

lemma skip_ws_members:
  "fs \<noteq> [] \<Longrightarrow> skip_ws (join_with '','' (map print_member fs) @ r)
     = join_with '','' (map print_member fs) @ r \<and>
   hd (join_with '','' (map print_member fs)) = dquote"
  by (cases fs; cases "tl fs")
    (auto simp: print_member_def json_string_def skip_ws_def is_ws_def split: prod.splits)

lemma parse_members_print:
  assumes "fs \<noteq> []" "\<forall>(k, v) \<in> set fs. utf8_ok k \<and> json_atom v" "length fs < n"
  shows "parse_members n (join_with '','' (map print_member fs) @ CHR ''}'' # rest) = Some (fs, rest)"
  using assms
proof (induction fs arbitrary: n)
  case (Cons f fs)
  obtain k v where f: "f = (k, v)" by force
  from Cons.prems(3) obtain m where n: "n = Suc (Suc m)" by (cases n; cases "n - 1") auto
  from Cons.prems(2) f have v: "json_atom v" and k: "utf8_ok k" by simp_all
  show ?case
  proof (cases fs)
    case Nil
    with f n parse_members_step [OF v _ k, of "CHR ''}''"] show ?thesis by simp
  next
    case (Cons g gs)
    let ?r = "join_with '','' (map print_member fs) @ CHR ''}'' # rest"
    have "parse_members (Suc m) ?r = Some (fs, rest)"
      by (rule Cons.IH) (use Cons Cons.prems n in auto)
    moreover have "skip_ws ?r = ?r" using skip_ws_members [of fs] Cons by simp
    moreover have "join_with '','' (map print_member (f # fs)) @ CHR ''}'' # rest
        = print_member (k, v) @ CHR '','' # ?r"
      using Cons f by simp
    ultimately show ?thesis
      using parse_members_step [OF v _ k, of "CHR '',''" m ?r] unfolding n by (simp add: f)
  qed
qed simp

lemma length_join_members: "length fs \<le> length (join_with '','' (map print_member fs))"
proof (induction fs rule: induct_list012)
  case (2 f)
  then show ?case by (cases f) (simp add: print_member_def json_string_def)
next
  case (3 f g gs)
  then show ?case by simp
qed simp

lemma json_parse_print_object:
  assumes "fs \<noteq> []" "\<forall>(k, v) \<in> set fs. utf8_ok k \<and> json_atom v"
  shows "json_parse (json_print (JObj fs)) = Some (JObj fs)"
proof -
  let ?t = "join_with '','' (map print_member fs)"
  obtain r where r: "?t @ ''}'' = dquote # r"
    using skip_ws_members [OF assms(1)] length_join_members [of fs] assms(1) by (cases ?t) auto
  have whole: "json_print (JObj fs) = CHR ''{'' # ?t @ ''}''" by (simp add: print_member_def)
  have "length fs < Suc (2 * length (?t @ ''}''))" using length_join_members [of fs] by simp
  then have "length fs < 2 * length (json_print (JObj fs)) + 1" unfolding whole by simp
  from parse_members_print [OF assms this, of "[]"]
  have "parse_members (2 * length (json_print (JObj fs)) + 1) (dquote # r) = Some (fs, [])"
    by (simp add: r)
  moreover have "skip_ws (dquote # r) = dquote # r" "skip_ws (json_print (JObj fs)) = CHR ''{'' # dquote # r"
    unfolding whole r by (simp_all add: skip_ws_def is_ws_def)
  ultimately show ?thesis
    by (simp add: json_parse_def parse_value.simps del: json_print.simps) (simp add: skip_ws_def)
qed

end
