(* ===== verification/Job.thy ===== *)
theory Job
  imports Job_Type Item_Id Json
begin

text \<open>
  The task record of \<open>node/common/job.go\<close> and its JSON form, \<open>node/common/gen_job_json.go\<close>. A
  member is decoded into a pointer of a shadow struct: absent or null leaves it nil, a key
  matches a field without regard to the case of ASCII letters, and a later match overwrites
  an earlier one. Which of several decoding errors is reported is not tracked.
  The lemmas show that encoding and decoding a job gives the job back but for its identifier,
  which the value receiver of \<open>ItemID.UnmarshalText\<close> loses.
\<close>

section \<open>Decoding members into a shadow struct\<close>

definition to_lower :: "char \<Rightarrow> char" where
  "to_lower c =
     (let n = of_char c in if 65 \<le> n \<and> n \<le> 90 then char_of (n + 32 :: nat) else c)"

definition members_of :: "string \<Rightarrow> (string \<times> json) list \<Rightarrow> json list" where
  "members_of f kvs = map snd (filter (\<lambda>(k, v). map to_lower k = f) kvs)"

fun decode_ptr :: "(json \<Rightarrow> error + 'a) \<Rightarrow> 'a option \<Rightarrow> json list \<Rightarrow> error + 'a option" where
  "decode_ptr dec p [] = Inr p"
| "decode_ptr dec p (v # vs) =
     (if v = JNull then decode_ptr dec None vs
      else case dec v of
             Inl e \<Rightarrow> Inl e
           | Inr x \<Rightarrow> decode_ptr dec (Some x) vs)"

definition json_type_error :: error where
  "json_type_error = ErrJson ''json: cannot unmarshal value''"

definition json_syntax_error :: error where
  "json_syntax_error = ErrJson ''invalid JSON text''"

definition decode_string :: "json \<Rightarrow> error + string" where
  "decode_string v = (case v of JStr s \<Rightarrow> Inr s | _ \<Rightarrow> Inl json_type_error)"

definition decode_int :: "json \<Rightarrow> error + i64" where
  "decode_int v =
     (case v of
        JNum t \<Rightarrow> (case parse_int t of
                     (i, None) \<Rightarrow> Inr (word_of_int i)
                   | (i, Some _) \<Rightarrow> Inl json_type_error)
      | _ \<Rightarrow> Inl json_type_error)"

definition decode_text :: "(string \<Rightarrow> error + 'a) \<Rightarrow> json \<Rightarrow> error + 'a" where
  "decode_text f v = (case v of JStr s \<Rightarrow> f s | _ \<Rightarrow> Inl json_type_error)"

text \<open>A fresh \<open>ItemID\<close> is allocated, \<open>UnmarshalText\<close> is called on it, and it is kept.\<close>

definition decode_item_id :: "hexutil \<Rightarrow> string \<Rightarrow> error + item_id" where
  "decode_item_id H s =
     (case item_unmarshal_text H zero_item_id s of
        (n, Some e) \<Rightarrow> Inl e
      | (n, None) \<Rightarrow> Inr n)"

definition json_members :: "json \<Rightarrow> error + (string \<times> json) list" where
  "json_members v =
     (case v of JObj kvs \<Rightarrow> Inr kvs | JNull \<Rightarrow> Inr [] | _ \<Rightarrow> Inl json_type_error)"

definition missing_field :: "string \<Rightarrow> string \<Rightarrow> error" where
  "missing_field f s =
     ErrNew (''missing required field '' @ [CHR 0x27] @ f @ [CHR 0x27] @ '' for '' @ s)"

lemma decode_int_json_int [simp]: "decode_int (json_int x) = Inr x"
  using sint64_bounds [of x]
  by (simp add: decode_int_def json_int_def parse_show_int int64_min_def int64_max_def)

lemma json_int_not_Null [simp]: "json_int x \<noteq> JNull"
  by (simp add: json_int_def)

section \<open>The job record\<close>

record job =
  j_name :: string
  j_type :: job_type
  j_uuid :: item_id
  j_retry :: i64
  j_interval :: i64
  j_addTime :: i64
  j_limitTime :: i64
  j_extra :: bytes

text \<open>\<open>var job cmn.Job\<close>: every field has its zero value.\<close>

definition zero_job :: job where
  "zero_job = \<lparr>j_name = [], j_type = JobTypeUnkown, j_uuid = zero_item_id, j_retry = 0,
     j_interval = 0, j_addTime = 0, j_limitTime = 0, j_extra = []\<rparr>"

definition new_job :: "u64 \<Rightarrow> string \<Rightarrow> job_type \<Rightarrow> i64 \<Rightarrow> i64 \<Rightarrow> job" where
  "new_job uuid nm t delay retry =
     (let duration = (if sint delay < 1 then 1 else delay);
          r = (if retry = 0 then 1 else retry)
      in zero_job\<lparr>j_interval := duration, j_name := nm, j_uuid := encode_item_id uuid,
                  j_type := t, j_retry := r\<rparr>)"

text \<open>\<open>time.Duration(j.Interval) * time.Second\<close>, a product of 64-bit words that wraps.\<close>

definition job_delay :: "job \<Rightarrow> duration" where
  "job_delay j = j_interval j * word_of_int second"

definition job_id :: "job \<Rightarrow> i64" where
  "job_id j = item_uint64 (j_uuid j)"

definition job_string :: "job \<Rightarrow> string" where
  "job_string j =
     ''id:'' @ show_bytes (j_uuid j) @ '',name:'' @ j_name j @
     '',delay:'' @ show_int (sint (j_interval j)) @ '',retry:'' @ show_int (sint (j_retry j)) @
     '',create:'' @ show_int (sint (j_addTime j)) @ '',limit:'' @ show_int (sint (j_limitTime j))"

section \<open>JSON\<close>

definition job_members :: "hexutil \<Rightarrow> job \<Rightarrow> string \<Rightarrow> (string \<times> json) list" where
  "job_members H j t =
     [(''name'', JStr (j_name j)),
      (''type'', JStr t),
      (''uuid'', JStr (item_marshal_text H (j_uuid j))),
      (''retry'', json_int (j_retry j)),
      (''interval'', json_int (j_interval j)),
      (''add_time'', json_int (j_addTime j)),
      (''limit_time'', json_int (j_limitTime j)),
      (''extra'', JStr (hx_encode H (j_extra j)))]"

definition job_marshal :: "hexutil \<Rightarrow> job \<Rightarrow> error + bytes" where
  "job_marshal H j =
     (case job_type_marshal_text (j_type j) of
        Inl e \<Rightarrow> Inl e
      | Inr t \<Rightarrow> Inr (bytes_of_str (json_print (JObj (job_members H j t)))))"

record job_dec =
  d_name :: "string option"
  d_type :: "job_type option"
  d_uuid :: "item_id option"
  d_retry :: "i64 option"
  d_interval :: "i64 option"
  d_addTime :: "i64 option"
  d_limitTime :: "i64 option"
  d_extra :: "bytes option"

definition job_decode :: "hexutil \<Rightarrow> (string \<times> json) list \<Rightarrow> error + job_dec" where
  "job_decode H kvs =
     (case decode_ptr decode_string None (members_of ''name'' kvs) of Inl e \<Rightarrow> Inl e | Inr nm \<Rightarrow>
      case decode_ptr (decode_text job_type_unmarshal_text) None (members_of ''type'' kvs) of Inl e \<Rightarrow> Inl e | Inr ty \<Rightarrow>
      case decode_ptr (decode_text (decode_item_id H)) None (members_of ''uuid'' kvs) of Inl e \<Rightarrow> Inl e | Inr uu \<Rightarrow>
      case decode_ptr decode_int None (members_of ''retry'' kvs) of Inl e \<Rightarrow> Inl e | Inr re \<Rightarrow>
      case decode_ptr decode_int None (members_of ''interval'' kvs) of Inl e \<Rightarrow> Inl e | Inr iv \<Rightarrow>
      case decode_ptr decode_int None (members_of ''add_time'' kvs) of Inl e \<Rightarrow> Inl e | Inr at \<Rightarrow>
      case decode_ptr decode_int None (members_of ''limit_time'' kvs) of Inl e \<Rightarrow> Inl e | Inr lt \<Rightarrow>
      case decode_ptr (decode_text (hx_decode H)) None (members_of ''extra'' kvs) of Inl e \<Rightarrow> Inl e | Inr ex \<Rightarrow>
        Inr \<lparr>d_name = nm, d_type = ty, d_uuid = uu, d_retry = re, d_interval = iv,
             d_addTime = at, d_limitTime = lt, d_extra = ex\<rparr>)"

definition set_opt :: "('a \<Rightarrow> 's \<Rightarrow> 's) \<Rightarrow> 'a option \<Rightarrow> 's \<Rightarrow> 's" where
  "set_opt upd p s = (case p of None \<Rightarrow> s | Some x \<Rightarrow> upd x s)"

text \<open>The assignments of \<open>UnmarshalJSON\<close>, which stop at a missing required field.\<close>

definition job_assign :: "job_dec \<Rightarrow> job \<Rightarrow> job \<times> error option" where
  "job_assign d j =
     (case d_name d of
        None \<Rightarrow> (j, Some (missing_field ''name'' ''Job''))
      | Some nm \<Rightarrow>
          let j1 = set_opt (\<lambda>u. j_uuid_update (\<lambda>_. u)) (d_uuid d)
                     (set_opt (\<lambda>t. j_type_update (\<lambda>_. t)) (d_type d) (j\<lparr>j_name := nm\<rparr>))
          in case d_retry d of
               None \<Rightarrow> (j1, Some (missing_field ''retry'' ''Job''))
             | Some re \<Rightarrow>
                 let j2 = j1\<lparr>j_retry := re\<rparr>
                 in case d_interval d of
                      None \<Rightarrow> (j2, Some (missing_field ''interval'' ''Job''))
                    | Some iv \<Rightarrow>
                        (set_opt (\<lambda>x. j_extra_update (\<lambda>_. x)) (d_extra d)
                          (set_opt (\<lambda>t. j_limitTime_update (\<lambda>_. t)) (d_limitTime d)
                            (set_opt (\<lambda>t. j_addTime_update (\<lambda>_. t)) (d_addTime d)
                              (j2\<lparr>j_interval := iv\<rparr>))), None))"

definition job_unmarshal :: "hexutil \<Rightarrow> bytes \<Rightarrow> job \<Rightarrow> job \<times> error option" where
  "job_unmarshal H input j =
     (case json_parse (str_of_bytes input) of
        None \<Rightarrow> (j, Some json_syntax_error)
      | Some v \<Rightarrow>
          (case json_members v of
             Inl e \<Rightarrow> (j, Some e)
           | Inr kvs \<Rightarrow>
               (case job_decode H kvs of
                  Inl e \<Rightarrow> (j, Some e)
                | Inr d \<Rightarrow> job_assign d j)))"

section \<open>Round trip\<close>

lemma job_keys_lower:
  "map to_lower ''name'' = ''name''" "map to_lower ''type'' = ''type''"
  "map to_lower ''uuid'' = ''uuid''" "map to_lower ''retry'' = ''retry''"
  "map to_lower ''interval'' = ''interval''" "map to_lower ''add_time'' = ''add_time''"
  "map to_lower ''limit_time'' = ''limit_time''" "map to_lower ''extra'' = ''extra''"
  by (simp_all add: to_lower_def)

lemma members_of_simps [simp]:
  "members_of f [] = []"
  "members_of f ((k, v) # kvs) =
     (if map to_lower k = f then v # members_of f kvs else members_of f kvs)"
  by (simp_all add: members_of_def)

lemma hexutil_ok_decode [simp]: "hexutil_ok H \<Longrightarrow> hx_decode H (hx_encode H b) = Inr b"
  and hexutil_ok_fixed [simp]:
    "hexutil_ok H \<Longrightarrow> length b = n \<Longrightarrow> hx_decode_fixed H n (hx_encode H b) = Inr b"
  by (auto simp: hexutil_ok_def)

lemma hexutil_ok_text [simp]: "hexutil_ok H \<Longrightarrow> utf8_ok (hx_encode H b)"
proof (rule utf8_ok_ascii)
  assume "hexutil_ok H"
  then have "list_all (\<lambda>c. is_digit c \<or> c \<in> set ''abcdefx'') (hx_encode H b)"
    unfolding hexutil_ok_def by blast
  moreover have "of_char c < (128 :: nat)" if "is_digit c \<or> c \<in> set ''abcdefx''" for c
    using that by (auto simp: is_digit_def)
  ultimately show "\<forall>c \<in> set (hx_encode H b). of_char c < (128 :: nat)"
    unfolding list_all_iff by blast
qed

lemma decode_item_id_marshal:
  "hexutil_ok H \<Longrightarrow> valid_item_id n \<Longrightarrow>
     decode_item_id H (item_marshal_text H n) = Inr zero_item_id"
  by (simp add: decode_item_id_def item_unmarshal_text_def item_marshal_text_def valid_item_id_def
      zero_item_id_def)

lemma job_decode_members:
  assumes "hexutil_ok H" "valid_item_id (j_uuid j)" "job_type_marshal_text (j_type j) = Inr t"
  shows "job_decode H (job_members H j t) =
    Inr \<lparr>d_name = Some (j_name j), d_type = Some (j_type j), d_uuid = Some zero_item_id,
         d_retry = Some (j_retry j), d_interval = Some (j_interval j),
         d_addTime = Some (j_addTime j), d_limitTime = Some (j_limitTime j),
         d_extra = Some (j_extra j)\<rparr>"
  using assms job_type_unmarshal_marshal [OF assms(3)] decode_item_id_marshal [OF assms(1,2)]
  by (simp add: job_decode_def job_members_def job_keys_lower decode_string_def decode_text_def
      del: list.map)

text \<open>A job whose text form is faithful: its identifier has eight bytes and its name is UTF-8.\<close>

definition good_job :: "job \<Rightarrow> bool" where
  "good_job j \<longleftrightarrow> valid_item_id (j_uuid j) \<and> utf8_ok (j_name j)"

lemma job_members_atoms:
  assumes "hexutil_ok H" "good_job j" "job_type_marshal_text (j_type j) = Inr t"
  shows "\<forall>(k, v) \<in> set (job_members H j t). utf8_ok k \<and> json_atom v"
proof -
  have "utf8_ok t"
    using assms(3) by (cases "j_type j") (auto simp: job_type_marshal_text_def)
  with assms(1,2) show ?thesis
    by (simp add: job_members_def good_job_def item_marshal_text_def)
qed

lemma job_parse_marshal:
  assumes "hexutil_ok H" "good_job j" "job_marshal H j = Inr bs"
  obtains t where "job_type_marshal_text (j_type j) = Inr t"
    "json_parse (str_of_bytes bs) = Some (JObj (job_members H j t))"
proof -
  from assms(3) obtain t where t: "job_type_marshal_text (j_type j) = Inr t"
      "bs = bytes_of_str (json_print (JObj (job_members H j t)))"
    by (auto simp: job_marshal_def split: sum.splits)
  have "json_parse (json_print (JObj (job_members H j t))) = Some (JObj (job_members H j t))"
    by (rule json_parse_print_object)
      (use job_members_atoms [OF assms(1,2) t(1)] in \<open>simp_all add: job_members_def\<close>)
  with t that show ?thesis by (simp del: json_print.simps)
qed

lemma job_roundtrip_into:
  assumes "hexutil_ok H" "good_job j" "job_marshal H j = Inr bs"
  shows "job_unmarshal H bs j0 = (j\<lparr>j_uuid := zero_item_id\<rparr>, None)"
proof -
  obtain t where t: "job_type_marshal_text (j_type j) = Inr t"
    "json_parse (str_of_bytes bs) = Some (JObj (job_members H j t))"
    by (rule job_parse_marshal [OF assms])
  have "valid_item_id (j_uuid j)" using assms(2) by (simp add: good_job_def)
  from job_decode_members [OF assms(1) this t(1)] t(2) show ?thesis
    by (simp add: job_unmarshal_def json_members_def job_assign_def set_opt_def)
qed

lemma job_marshal_returns: "j_type j \<noteq> JobTypeUnkown \<Longrightarrow> \<exists>bs. job_marshal H j = Inr bs"
  using job_type_marshal_fails_iff [of "j_type j"]
  by (auto simp: job_marshal_def split: sum.splits)

section \<open>Typing\<close>

text \<open>Whatever a decoder makes of each value holds of what a pointer decoded by it points to.\<close>

lemma decode_ptr_all:
  assumes "\<And>v x. dec v = Inr x \<Longrightarrow> Q x"
  shows "decode_ptr dec p vs = Inr (Some y) \<Longrightarrow> pred_option Q p \<Longrightarrow> Q y"
proof (induction vs arbitrary: p)
  case (Cons v vs)
  with assms show ?case by (cases "v = JNull") (auto split: sum.splits)
qed simp

lemma decoded_type: "decode_text job_type_unmarshal_text v = Inr t \<Longrightarrow> t \<noteq> JobTypeUnkown"
  by (auto simp: decode_text_def job_type_unmarshal_text_def Let_def split: json.splits if_splits)

lemma decoded_uuid: "decode_text (decode_item_id H) v = Inr n \<Longrightarrow> n = zero_item_id"
  by (auto simp: decode_text_def decode_item_id_def item_unmarshal_text_def split: json.splits sum.splits)

lemma job_decode_typed:
  assumes "job_decode H kvs = Inr d"
  shows "pred_option (\<lambda>t. t \<noteq> JobTypeUnkown) (d_type d)" "pred_option (\<lambda>n. n = zero_item_id) (d_uuid d)"
proof -
  from assms have t: "decode_ptr (decode_text job_type_unmarshal_text) None (members_of ''type'' kvs) = Inr (d_type d)"
    and n: "decode_ptr (decode_text (decode_item_id H)) None (members_of ''uuid'' kvs) = Inr (d_uuid d)"
    by (auto simp: job_decode_def split: sum.splits)
  from t show "pred_option (\<lambda>t. t \<noteq> JobTypeUnkown) (d_type d)"
    by (cases "d_type d") (auto dest: decode_ptr_all [rotated, where Q = "\<lambda>t. t \<noteq> JobTypeUnkown"] decoded_type)
  from n show "pred_option (\<lambda>n. n = zero_item_id) (d_uuid d)"
    by (cases "d_uuid d") (auto dest: decode_ptr_all [rotated, where Q = "\<lambda>n. n = zero_item_id"] decoded_uuid)
qed

lemma job_assign_typed:
  assumes "job_assign d j0 = (j, e)"
  shows "j_type j = j_type j0 \<or> Some (j_type j) = d_type d" "j_uuid j = j_uuid j0 \<or> Some (j_uuid j) = d_uuid d"
  using assms by (auto simp: job_assign_def set_opt_def Let_def split: option.splits)

text \<open>A concrete \<open>hexutil\<close>, so that hypotheses about the parameter can be met.\<close>

fun hex_text :: "bytes \<Rightarrow> string" where
  "hex_text [] = []"
| "hex_text (b # bs) = hex_digit (unat b div 16) # hex_digit (unat b mod 16) # hex_text bs"

fun unhex_text :: "string \<Rightarrow> error + bytes" where
  "unhex_text [] = Inr []"
| "unhex_text [c] = Inl (ErrExt ''hex string of odd length'')"
| "unhex_text (c # d # s) =
     (case (hex_val c, hex_val d, unhex_text s) of
        (Some x, Some y, Inr bs) \<Rightarrow> Inr (word_of_nat (16 * x + y) # bs)
      | _ \<Rightarrow> Inl (ErrExt ''invalid hex string''))"

definition sample_hexutil :: hexutil where
  "sample_hexutil = \<lparr>
     hx_encode = (\<lambda>b. ''0x'' @ hex_text b),
     hx_encode_uint64 = (\<lambda>i. ''0x'' @ show_hex (unat i)),
     hx_decode = (\<lambda>s. if take 2 s = ''0x'' then unhex_text (drop 2 s)
                      else Inl (ErrExt ''hex string without 0x prefix'')),
     hx_decode_fixed = (\<lambda>n s. if take 2 s = ''0x'' \<and> length s = 2 * n + 2 then unhex_text (drop 2 s)
                      else Inl (ErrExt ''hex string has the wrong length''))\<rparr>"

lemma unat_byte_less: "unat (b :: byte) < 256"
proof -
  have "unat b < 2 ^ LENGTH(8)" by (rule unsigned_less)
  then show ?thesis by simp
qed

lemma unhex_hex_text: "unhex_text (hex_text bs) = Inr bs"
proof (induction bs)
  case (Cons b bs)
  have "unat b div 16 < 16" "unat b mod 16 < 16" using unat_byte_less [of b] by simp_all
  with Cons show ?case by (simp add: hex_val_digit)
qed simp

lemma length_hex_text: "length (hex_text bs) = 2 * length bs"
  by (induction bs) simp_all

lemma hex_digit_chars: "k < 16 \<Longrightarrow> is_digit (hex_digit k) \<or> hex_digit k \<in> set ''abcdefx''"
proof (cases "k < 10")
  case True
  then show ?thesis by (simp add: is_digit_def hex_digit_def)
next
  case False
  moreover assume "k < 16"
  ultimately have "k = 10 \<or> k = 11 \<or> k = 12 \<or> k = 13 \<or> k = 14 \<or> k = 15" by arith
  then show ?thesis by (elim disjE) (simp_all add: hex_digit_def char_of_def bit_0)
qed

lemma sample_hexutil_ok: "hexutil_ok sample_hexutil"
proof -
  have "list_all (\<lambda>c. is_digit c \<or> c \<in> set ''abcdefx'') (hex_text b)" for b
  proof (induction b)
    case (Cons x b)
    have "unat x div 16 < 16" "unat x mod 16 < 16" using unat_byte_less [of x] by simp_all
    with Cons hex_digit_chars show ?case by simp
  qed simp
  then show ?thesis
    by (simp add: hexutil_ok_def sample_hexutil_def unhex_hex_text length_hex_text is_digit_def)
qed

section \<open>Properties\<close>

text \<open>C28: A job of one of the three kinds with a UTF-8 name is encoded without an error, and decoding the text into any
  job variable, whatever it held before, gives every field of the job back except the
  identifier, which becomes eight zero bytes: \<open>ItemID.UnmarshalText\<close> decodes into a copy.\<close>

theorem job_json_roundtrip_loses_uuid:
  assumes "hexutil_ok H" "good_job j" "j_type j \<noteq> JobTypeUnkown"
  shows "\<exists>bs. job_marshal H j = Inr bs \<and>
    (\<forall>j0. job_unmarshal H bs j0 = (j\<lparr>j_uuid := zero_item_id\<rparr>, None))"
  using job_marshal_returns [OF assms(3), of H] job_roundtrip_into [OF assms(1,2)] by blast

text \<open>C30: Decoding is type safe. Whatever the bytes are, \<open>UnmarshalJSON\<close> leaves a job with an identifier of eight bytes,
  its old one or zero, and with its old kind or one of the three kinds that have a name; a job has a text form
  exactly when its kind is one of these.\<close>

theorem decoded_jobs_are_well_typed:
  assumes "job_unmarshal H bs j0 = (j, e)" "valid_item_id (j_uuid j0)"
  shows "valid_item_id (j_uuid j) \<and> j_uuid j \<in> {j_uuid j0, zero_item_id} \<and>
    (j_type j = j_type j0 \<or> j_type j \<in> {JobTypeCmd, JobTypeFile, JobTypePlugin}) \<and>
    ((\<exists>bs'. job_marshal H j = Inr bs') \<longleftrightarrow> j_type j \<in> {JobTypeCmd, JobTypeFile, JobTypePlugin})"
proof -
  have "j = j0 \<or> (\<exists>kvs d. job_decode H kvs = Inr d \<and> job_assign d j0 = (j, e))"
    using assms(1) by (auto simp: job_unmarshal_def split: option.splits sum.splits)
  then have "j_uuid j \<in> {j_uuid j0, zero_item_id} \<and> (j_type j = j_type j0 \<or> j_type j \<noteq> JobTypeUnkown)"
  proof (elim disjE exE conjE)
    fix kvs d assume d: "job_decode H kvs = Inr d" "job_assign d j0 = (j, e)"
    from job_decode_typed [OF d(1)] job_assign_typed [OF d(2)] show ?thesis
      by (cases "d_type d"; cases "d_uuid d") auto
  qed simp
  moreover have "(\<exists>bs'. job_marshal H j = Inr bs') \<longleftrightarrow> j_type j \<noteq> JobTypeUnkown"
    using job_marshal_returns [of j H] by (auto simp: job_marshal_def job_type_marshal_text_def)
  ultimately show ?thesis using assms(2) by (cases "j_type j") auto
qed

lemma item_uint64_zero: "item_uint64 zero_item_id = 0"
  by (simp add: item_uint64_def zero_item_id_def numeral_nat)

definition readme_job :: job where
  "readme_job = \<lparr>j_name = ''dev'', j_type = JobTypeCmd, j_uuid = encode_item_id 0x0507af061dc00000,
     j_retry = 1, j_interval = 50, j_addTime = 1561217877, j_limitTime = 0,
     j_extra = bytes_of_str ''ls -l /tmp''\<rparr>"

theorem job_json_roundtrip_loses_uuid_witness:
  "\<exists>bs. job_marshal sample_hexutil readme_job = Inr bs \<and>
     job_unmarshal sample_hexutil bs zero_job = (readme_job\<lparr>j_uuid := zero_item_id\<rparr>, None) \<and>
     j_uuid readme_job \<noteq> zero_item_id"
proof -
  have "good_job readme_job" "j_type readme_job \<noteq> JobTypeUnkown"
    by (simp_all add: readme_job_def good_job_def)
  moreover have "j_uuid readme_job \<noteq> zero_item_id"
  proof
    assume "j_uuid readme_job = zero_item_id"
    then have "item_uint64 (j_uuid readme_job) = item_uint64 zero_item_id" by simp
    then show False by (simp add: readme_job_def item_uint64_zero)
  qed
  ultimately show ?thesis
    using job_json_roundtrip_loses_uuid [OF sample_hexutil_ok, of readme_job] by blast
qed

theorem decoded_jobs_are_well_typed_witness:
  "\<exists>bs j e. job_marshal sample_hexutil readme_job = Inr bs \<and> job_unmarshal sample_hexutil bs zero_job = (j, e) \<and>
     j_type j = JobTypeCmd \<and> valid_item_id (j_uuid j) \<and> (\<exists>bs'. job_marshal sample_hexutil j = Inr bs')"
proof -
  have ok: "good_job readme_job" "j_type readme_job = JobTypeCmd" by (simp_all add: readme_job_def good_job_def)
  then obtain bs where bs: "job_marshal sample_hexutil readme_job = Inr bs"
    using job_marshal_returns [of readme_job] by auto
  have j: "job_unmarshal sample_hexutil bs zero_job = (readme_job\<lparr>j_uuid := zero_item_id\<rparr>, None)"
    by (rule job_roundtrip_into [OF sample_hexutil_ok ok(1) bs])
  have "valid_item_id (j_uuid zero_job)" by (simp add: zero_job_def)
  from decoded_jobs_are_well_typed [OF j this] bs j ok(2) show ?thesis by auto
qed

end
