(* ===== verification/Task_Result.thy ===== *)
theory Task_Result
  imports Job
begin

text \<open>
  The outcome record of a task, \<open>node/common/result.go\<close>, and its JSON form,
  \<open>node/common/gen_result_json.go\<close>. The lemmas show that encoding never fails and that
  decoding gives the record back, and which errors a decoder reports.
\<close>

record task_result =
  r_id :: i64
  r_begin :: i64
  r_end :: i64
  r_error :: string
  r_extra :: bytes

definition zero_result :: task_result where
  "zero_result = \<lparr>r_id = 0, r_begin = 0, r_end = 0, r_error = [], r_extra = []\<rparr>"

definition new_result :: "i64 \<Rightarrow> i64 \<Rightarrow> task_result" where
  "new_result k begin' = zero_result\<lparr>r_id := k, r_begin := begin'\<rparr>"

definition new_result_with_end :: "i64 \<Rightarrow> i64 \<Rightarrow> i64 \<Rightarrow> string \<Rightarrow> bytes \<Rightarrow> task_result" where
  "new_result_with_end k begin' end' msg extra =
     \<lparr>r_id = k, r_begin = begin', r_end = end', r_error = msg, r_extra = extra\<rparr>"

text \<open>\<open>Set\<close> and \<open>String\<close> accept a nil receiver.\<close>

definition result_set :: "i64 \<Rightarrow> string \<Rightarrow> bytes \<Rightarrow> task_result option \<Rightarrow> task_result option" where
  "result_set end' msg extra r =
     (case r of None \<Rightarrow> None
      | Some s \<Rightarrow> Some (s\<lparr>r_end := end', r_error := msg, r_extra := extra\<rparr>))"

definition show_slice :: "bytes \<Rightarrow> string" where
  "show_slice bs = show_bytes bs"

definition result_string :: "task_result option \<Rightarrow> string" where
  "result_string r =
     (case r of None \<Rightarrow> []
      | Some s \<Rightarrow> ''ID:'' @ show_int (sint (r_id s)) @ '', begin:'' @ show_int (sint (r_begin s)) @
          '', end:'' @ show_int (sint (r_end s)) @ '', error:'' @ r_error s @
          '', extra:'' @ show_slice (r_extra s))"

definition result_members :: "hexutil \<Rightarrow> task_result \<Rightarrow> (string \<times> json) list" where
  "result_members H r =
     [(''id'', json_int (r_id r)),
      (''begin_time'', json_int (r_begin r)),
      (''end_time'', json_int (r_end r)),
      (''error'', JStr (r_error r)),
      (''output'', JStr (hx_encode H (r_extra r)))]"

definition result_marshal :: "hexutil \<Rightarrow> task_result \<Rightarrow> error + bytes" where
  "result_marshal H r = Inr (bytes_of_str (json_print (JObj (result_members H r))))"

record result_dec =
  rd_id :: "i64 option"
  rd_begin :: "i64 option"
  rd_end :: "i64 option"
  rd_error :: "string option"
  rd_extra :: "bytes option"

definition result_decode :: "hexutil \<Rightarrow> (string \<times> json) list \<Rightarrow> error + result_dec" where
  "result_decode H kvs =
     (case decode_ptr decode_int None (members_of ''id'' kvs) of Inl e \<Rightarrow> Inl e | Inr k \<Rightarrow>
      case decode_ptr decode_int None (members_of ''begin_time'' kvs) of Inl e \<Rightarrow> Inl e | Inr b \<Rightarrow>
      case decode_ptr decode_int None (members_of ''end_time'' kvs) of Inl e \<Rightarrow> Inl e | Inr en \<Rightarrow>
      case decode_ptr decode_string None (members_of ''error'' kvs) of Inl e \<Rightarrow> Inl e | Inr er \<Rightarrow>
      case decode_ptr (decode_text (hx_decode H)) None (members_of ''output'' kvs) of Inl e \<Rightarrow> Inl e | Inr ex \<Rightarrow>
        Inr \<lparr>rd_id = k, rd_begin = b, rd_end = en, rd_error = er, rd_extra = ex\<rparr>)"

definition result_assign :: "result_dec \<Rightarrow> task_result \<Rightarrow> task_result \<times> error option" where
  "result_assign d r =
     (case rd_id d of
        None \<Rightarrow> (r, Some (missing_field ''id'' ''Result''))
      | Some k \<Rightarrow>
          let r1 = r\<lparr>r_id := k\<rparr>
          in case rd_begin d of
               None \<Rightarrow> (r1, Some (missing_field ''begin_time'' ''Result''))
             | Some b \<Rightarrow>
                 let r2 = r1\<lparr>r_begin := b\<rparr>
                 in case rd_end d of
                      None \<Rightarrow> (r2, Some (missing_field ''end_time'' ''Result''))
                    | Some en \<Rightarrow>
                        let r3 = r2\<lparr>r_end := en\<rparr>
                        in case rd_error d of
                             None \<Rightarrow> (r3, Some (missing_field ''error'' ''Result''))
                           | Some er \<Rightarrow>
                               (set_opt (\<lambda>x. r_extra_update (\<lambda>_. x)) (rd_extra d)
                                 (r3\<lparr>r_error := er\<rparr>), None))"

definition result_unmarshal :: "hexutil \<Rightarrow> bytes \<Rightarrow> task_result \<Rightarrow> task_result \<times> error option" where
  "result_unmarshal H input r =
     (case json_parse (str_of_bytes input) of
        None \<Rightarrow> (r, Some json_syntax_error)
      | Some v \<Rightarrow>
          (case json_members v of
             Inl e \<Rightarrow> (r, Some e)
           | Inr kvs \<Rightarrow>
               (case result_decode H kvs of
                  Inl e \<Rightarrow> (r, Some e)
                | Inr d \<Rightarrow> result_assign d r)))"

lemma result_keys_lower:
  "map to_lower ''id'' = ''id''" "map to_lower ''begin_time'' = ''begin_time''"
  "map to_lower ''end_time'' = ''end_time''" "map to_lower ''error'' = ''error''"
  "map to_lower ''output'' = ''output''"
  by (simp_all add: to_lower_def)

lemma result_decode_members:
  "hexutil_ok H \<Longrightarrow> result_decode H (result_members H r) =
    Inr \<lparr>rd_id = Some (r_id r), rd_begin = Some (r_begin r), rd_end = Some (r_end r),
         rd_error = Some (r_error r), rd_extra = Some (r_extra r)\<rparr>"
  by (simp add: result_decode_def result_members_def result_keys_lower decode_string_def
      decode_text_def del: list.map)

lemma result_roundtrip_into:
  assumes "hexutil_ok H" "utf8_ok (r_error r)" "result_marshal H r = Inr bs"
  shows "result_unmarshal H bs r0 = (r, None)"
proof -
  have "json_parse (json_print (JObj (result_members H r))) = Some (JObj (result_members H r))"
    using assms(2) hexutil_ok_text [OF assms(1)]
    by (intro json_parse_print_object) (simp_all add: result_members_def)
  with result_decode_members [OF assms(1), of r] assms(3) show ?thesis
    by (auto simp: result_marshal_def result_unmarshal_def json_members_def result_assign_def
        set_opt_def simp del: json_print.simps)
qed

text \<open>C29: A result is always encoded without an error, and decoding the text into any result
  variable gives the same record back, the output bytes included, when its message is UTF-8.\<close>

theorem result_json_roundtrip:
  assumes "hexutil_ok H" "utf8_ok (r_error r)"
  shows "\<exists>bs. result_marshal H r = Inr bs \<and> (\<forall>r0. result_unmarshal H bs r0 = (r, None))"
  using result_roundtrip_into [OF assms] by (simp add: result_marshal_def)

theorem result_json_roundtrip_witness:
  "\<exists>bs. result_marshal sample_hexutil (new_result_with_end 5 10 11 ''success'' [1, 255]) = Inr bs \<and>
     result_unmarshal sample_hexutil bs zero_result
       = (new_result_with_end 5 10 11 ''success'' [1, 255], None)"
proof -
  have "utf8_ok (r_error (new_result_with_end 5 10 11 ''success'' [1, 255]))"
    by (simp add: new_result_with_end_def)
  from result_json_roundtrip [OF sample_hexutil_ok this] show ?thesis by blast
qed

end
