(* ===== verification/Record_Table.thy ===== *)
theory Record_Table
  imports Kv_Store Task_Result
begin

text \<open>
  Records in tables: what the task manager relies on when it writes the encoding of a job or
  of a result into a table and reads it back later. The locale \<open>codec\<close> is the contract of an
  encoding, \<open>record_table\<close> joins it to that of a key-value store; the JSON forms of jobs and of
  results are interpreted as codecs, and the two tables of the manager as record tables.
\<close>

section \<open>Codecs\<close>

text \<open>\<open>enc\<close> may fail; \<open>dec\<close> overwrites a variable, whose old value must not shine through; a
  record comes back in its canonical form.\<close>

locale codec =
  fixes enc :: "'a \<Rightarrow> error + bytes"
    and dec :: "bytes \<Rightarrow> 'a \<Rightarrow> 'a \<times> error option"
    and canon :: "'a \<Rightarrow> 'a"
    and good :: "'a \<Rightarrow> bool"
  assumes decode_encode: "good x \<Longrightarrow> enc x = Inr bs \<Longrightarrow> dec bs old = (canon x, None)"
begin

lemma encode_determines:
  assumes "good x" "good y" "enc x = Inr bs" "enc y = Inr bs"
  shows "canon x = canon y"
  using decode_encode [OF assms(1,3)] decode_encode [OF assms(2,4)] by (metis prod.inject)

end

definition forget_uuid :: "job \<Rightarrow> job" where
  "forget_uuid j = j\<lparr>j_uuid := zero_item_id\<rparr>"

lemma forget_uuid_simps [simp]:
  "j_name (forget_uuid j) = j_name j" "j_type (forget_uuid j) = j_type j"
  "j_retry (forget_uuid j) = j_retry j" "j_interval (forget_uuid j) = j_interval j"
  "j_extra (forget_uuid j) = j_extra j" "j_uuid (forget_uuid j) = zero_item_id"
  by (simp_all add: forget_uuid_def)

section \<open>Tables of records\<close>

locale record_table = key_value view has get put del + codec enc dec canon good
  for view :: "'s \<Rightarrow> bytes \<Rightarrow> bytes option" and has get put del
    and enc :: "'a \<Rightarrow> error + bytes" and dec canon good
begin

text \<open>What a later \<open>get\<close> decodes after a record was put under a key.\<close>

lemma put_then_read:
  assumes "good x" "enc x = Inr bs" "put s k bs = (None, s')"
  shows "\<exists>bs'. get s' k = Inr bs' \<and> (\<forall>old. dec bs' old = (canon x, None))"
  using assms put_stores [OF assms(3)] by (auto simp: get_present decode_encode)

lemma view_then_read:
  assumes "good x" "enc x = Inr bs" "view s k = Some bs"
  shows "get s k = Inr bs \<and> dec bs old = (canon x, None)"
  using assms by (simp add: get_present decode_encode)

end

text \<open>The manager's setting: a database that keeps its contract, and a \<open>hexutil\<close> that keeps its own.\<close>

locale task_tables = leveldb_table L dbview
  for L :: "'db leveldb" and dbview :: "'db \<Rightarrow> bytes \<Rightarrow> bytes option" +
  fixes H :: hexutil
  assumes hex_ok: "hexutil_ok H"

sublocale task_tables \<subseteq> jobs: record_table "store_view dbview" "store_has L" "store_get L"
    "store_put L" "store_delete L" "job_marshal H" "job_unmarshal H" forget_uuid good_job
  by unfold_locales (simp add: forget_uuid_def job_roundtrip_into [OF hex_ok])

sublocale task_tables \<subseteq> results: record_table "store_view dbview" "store_has L" "store_get L"
    "store_put L" "store_delete L" "result_marshal H" "result_unmarshal H" "\<lambda>r. r"
    "\<lambda>r. utf8_ok (r_error r)"
  by unfold_locales (rule result_roundtrip_into [OF hex_ok])

text \<open>What the manager uses of the two tables, in one place.\<close>

context task_tables
begin

lemmas table_facts = table.get_present table.get_absent table.get_iff table.put_view
  table.put_view_fails table.del_view table.del_view_fails

lemma stored_job_read:
  assumes "good_job j" "job_marshal H j = Inr bs" "store_view dbview t k = Some bs"
  shows "store_get L t k = Inr bs" "job_unmarshal H bs old = (forget_uuid j, None)"
  using jobs.view_then_read [OF assms] by simp_all

lemma put_result_read:
  assumes "utf8_ok (r_error r)" "result_marshal H r = Inr bs" "store_put L t k bs = (None, t')"
  shows "store_get L t' k = Inr bs" "result_unmarshal H bs old = (r, None)"
  using results.view_then_read [OF assms(1,2) table.put_stores [OF assms(3)]] by simp_all

end

interpretation sample_tables: task_tables sample_leveldb "\<lambda>d. d" sample_hexutil
  by unfold_locales (rule sample_hexutil_ok)

end
