(* ===== verification/Plugin_Module.thy ===== *)
theory Plugin_Module
  imports Errors
begin

text \<open>
  Plugin modules, \<open>node/module/plugin.go\<close>. Go's \<open>plugin\<close> package loads machine code, so what
  \<open>Open\<close> and \<open>Lookup\<close> find in a file is a parameter (\<open>plugin_ops\<close>), as is the effect of the
  functions found on the world around the program. A symbol is a task function, an error
  handler or a value of some other type; the two type assertions panic on the wrong kind.
  The lemmas follow \<open>ExecuteWithRetry\<close> through its attempts. The sample plugins are at the end.
\<close>

datatype 'w symbol =
    SymMain "'w \<Rightarrow> error option \<times> 'w"
  | SymErr "error \<Rightarrow> 'w \<Rightarrow> 'w"
  | SymOther

record 'w plugin_ops =
  pl_open :: "string \<Rightarrow> 'w \<Rightarrow> (error + (string \<Rightarrow> error + 'w symbol)) \<times> 'w"

definition MainHandleName :: string where "MainHandleName = ''TaskMain''"
definition ErrHandleName :: string where "ErrHandleName = ''TaskErr''"

record module =
  m_file :: string
  m_name :: string
  m_version :: string

definition new_module :: "string \<Rightarrow> string \<Rightarrow> string \<Rightarrow> module" where
  "new_module file name version = \<lparr>m_file = file, m_name = name, m_version = version\<rparr>"

definition module_string :: "module \<Rightarrow> string" where
  "module_string m = ''name:'' @ m_name m @ '',version:'' @ m_version m"

definition module_execute :: "'w plugin_ops \<Rightarrow> module \<Rightarrow> 'w \<Rightarrow> ('w, error option) outcome" where
  "module_execute P m w =
     (case pl_open P (m_file m) w of
        (Inl e, w1) \<Rightarrow> Ret (Some e) w1
      | (Inr p, w1) \<Rightarrow>
          (case p ErrHandleName of
             Inl e \<Rightarrow> Ret (Some e) w1
           | Inr errHandle \<Rightarrow>
               (case p MainHandleName of
                  Inl e \<Rightarrow> Ret (Some e) w1
                | Inr main \<Rightarrow>
                    (case main of
                       SymMain f \<Rightarrow>
                         (case f w1 of
                            (None, w2) \<Rightarrow> Ret None w2
                          | (Some e, w2) \<Rightarrow>
                              (case errHandle of
                                 SymErr g \<Rightarrow> Ret (Some e) (g e w2)
                               | _ \<Rightarrow> Panic TypeAssertion w2))
                     | _ \<Rightarrow> Panic TypeAssertion w1))))"

text \<open>The loop of \<open>ExecuteWithRetry\<close> with its attempts left; its result is always nil.\<close>

fun retry_loop :: "'w plugin_ops \<Rightarrow> module \<Rightarrow> nat \<Rightarrow> 'w \<Rightarrow> ('w, error option) outcome" where
  "retry_loop P m 0 w = Ret None w"
| "retry_loop P m (Suc n) w =
     (case module_execute P m w of
        Panic p w1 \<Rightarrow> Panic p w1
      | Ret (Some e) w1 \<Rightarrow> retry_loop P m n w1
      | Ret None w1 \<Rightarrow> Ret None w1)"

definition execute_with_retry ::
  "'w plugin_ops \<Rightarrow> module \<Rightarrow> i64 \<Rightarrow> 'w \<Rightarrow> ('w, error option) outcome" where
  "execute_with_retry P m retryTimes w =
     (let times = (if retryTimes = 0 then 1 else retryTimes)
      in retry_loop P m (nat (sint times)) w)"

definition attempts_allowed :: "i64 \<Rightarrow> nat" where
  "attempts_allowed retry = (if retry = 0 then 1 else nat (sint retry))"

text \<open>\<open>n\<close> attempts in a row return an error and take the world from \<open>w\<close> to \<open>w'\<close>.\<close>

inductive failed_attempts :: "'w plugin_ops \<Rightarrow> module \<Rightarrow> nat \<Rightarrow> 'w \<Rightarrow> 'w \<Rightarrow> bool" for P m where
  none: "failed_attempts P m 0 w w"
| more: "module_execute P m w = Ret (Some e) w1 \<Longrightarrow> failed_attempts P m n w1 w2 \<Longrightarrow>
     failed_attempts P m (Suc n) w w2"

inductive_cases failed_attempts_SucE: "failed_attempts P m (Suc n) w w'"
inductive_simps failed_attempts_0 [simp]: "failed_attempts P m 0 w w'"

lemma retry_loop_failed:
  "failed_attempts P m k w w' \<Longrightarrow> retry_loop P m (k + n) w = retry_loop P m n w'"
  by (induction rule: failed_attempts.induct) auto

lemma retry_loop_result: "retry_loop P m n w = Ret r w' \<Longrightarrow> r = None"
  by (induction P m n w rule: retry_loop.induct) (auto split: outcome.splits option.splits)

text \<open>Every run of the loop is one of three: all attempts fail, one succeeds after failures, one
  panics after failures.\<close>

lemma retry_loop_cases:
  "(\<exists>w'. failed_attempts P m n w w' \<and> retry_loop P m n w = Ret None w') \<or>
   (\<exists>k w1 w'. k < n \<and> failed_attempts P m k w w1 \<and> module_execute P m w1 = Ret None w' \<and>
      retry_loop P m n w = Ret None w') \<or>
   (\<exists>k w1 p w'. k < n \<and> failed_attempts P m k w w1 \<and> module_execute P m w1 = Panic p w' \<and>
      retry_loop P m n w = Panic p w')"
proof (induction n arbitrary: w)
  case (Suc n)
  show ?case
  proof (cases "module_execute P m w")
    case (Panic p w1)
    then show ?thesis by (intro disjI2 exI [of _ 0] exI) auto
  next
    case (Ret r w1)
    show ?thesis
    proof (cases r)
      case None
      with Ret show ?thesis by (intro disjI2 disjI1 exI [of _ 0] exI) auto
    next
      case (Some e)
      with Ret have step: "failed_attempts P m k w1 w' \<Longrightarrow> failed_attempts P m (Suc k) w w'" for k w'
        by (blast intro: failed_attempts.more)
      from Some Ret have eq: "retry_loop P m (Suc n) w = retry_loop P m n w1" by simp
      from Suc.IH [of w1] show ?thesis
      proof (elim disjE exE conjE)
        fix w' assume "failed_attempts P m n w1 w'" "retry_loop P m n w1 = Ret None w'"
        with step eq show ?thesis by auto
      next
        fix k w2 w' assume "k < n" "failed_attempts P m k w1 w2" "module_execute P m w2 = Ret None w'"
          "retry_loop P m n w1 = Ret None w'"
        with step eq show ?thesis by (intro disjI2 disjI1 exI [of _ "Suc k"] exI) auto
      next
        fix k w2 p w' assume "k < n" "failed_attempts P m k w1 w2" "module_execute P m w2 = Panic p w'"
          "retry_loop P m n w1 = Panic p w'"
        with step eq show ?thesis by (intro disjI2 exI [of _ "Suc k"] exI) auto
      qed
    qed
  qed
qed simp

lemma attempts_allowed_Suc: "0 \<le> sint (retry :: i64) \<Longrightarrow> \<exists>n. nat (sint (if retry = 0 then 1 else retry)) = Suc n"
  using not0_implies_Suc [of "nat (sint (if retry = 0 then 1 else retry))"] by (auto simp: signed_eq_0_iff le_less)

section \<open>Modules with functions\<close>

text \<open>The two function fields of a module; \<^const>\<open>None\<close> is nil, as in a module of \<open>NewModule\<close>. \<open>Execute\<close> never looks at them.\<close>

record 'w module_funcs = module +
  m_mainHandle :: "('w \<Rightarrow> error option \<times> 'w) option"
  m_errHandle :: "(error \<Rightarrow> 'w \<Rightarrow> 'w) option"

definition new_module_with_funcs ::
  "string \<Rightarrow> string \<Rightarrow> ('w \<Rightarrow> error option \<times> 'w) option \<Rightarrow> (error \<Rightarrow> 'w \<Rightarrow> 'w) option \<Rightarrow> 'w module_funcs" where
  "new_module_with_funcs name version main err =
     \<lparr>m_file = [], m_name = name, m_version = version, m_mainHandle = main, m_errHandle = err\<rparr>"

definition set_funcs ::
  "('w \<Rightarrow> error option \<times> 'w) option \<Rightarrow> (error \<Rightarrow> 'w \<Rightarrow> 'w) option \<Rightarrow> 'w module_funcs \<Rightarrow> 'w module_funcs" where
  "set_funcs main err m = m\<lparr>m_mainHandle := main, m_errHandle := err\<rparr>"

text \<open>A module made with functions opens the file with the empty name instead of calling them.\<close>

lemma functions_are_never_called:
  "execute_with_retry P (module.truncate (set_funcs main err m)) retry w = execute_with_retry P (module.truncate m) retry w"
  "execute_with_retry P (module.truncate (new_module_with_funcs name version main err)) retry w =
     execute_with_retry P (new_module [] name version) retry w"
  by (simp_all add: set_funcs_def new_module_with_funcs_def new_module_def module.defs)

section \<open>The sample plugins\<close>

text \<open>What \<open>Lookup\<close> finds in \<open>hello.go\<close> and \<open>checker.go\<close>; the world is the lines printed. The type of their \<open>TaskErr\<close>,
  with a result, is not the one \<open>Execute\<close> asserts.\<close>

definition hello_symbols :: "string \<Rightarrow> error + string list symbol" where
  "hello_symbols s =
     (if s = ''TaskMain'' then Inr (SymMain (\<lambda>w. (None, w)))
      else if s = ''TaskErr'' then Inr SymOther
      else Inl (ErrExt ''symbol not found''))"

definition checker_symbols :: "string \<Rightarrow> error + string list symbol" where
  "checker_symbols s =
     (if s = ''TaskMain'' then Inr (SymMain (\<lambda>w. (None, w @ [''main''])))
      else if s = ''TaskErr'' then Inr SymOther
      else Inl (ErrExt ''symbol not found''))"

lemma sample_plugins_run:
  assumes "0 \<le> sint retry"
  shows "(\<And>v. pl_open P (m_file m) v = (Inr hello_symbols, v)) \<Longrightarrow> execute_with_retry P m retry w = Ret None w"
    "(\<And>v. pl_open P (m_file m) v = (Inr checker_symbols, v)) \<Longrightarrow>
       execute_with_retry P m retry w = Ret None (w @ [''main''])"
proof -
  obtain n where "nat (sint (if retry = 0 then 1 else retry)) = Suc n" using attempts_allowed_Suc [OF assms] by blast
  then show "(\<And>v. pl_open P (m_file m) v = (Inr hello_symbols, v)) \<Longrightarrow> execute_with_retry P m retry w = Ret None w"
    "(\<And>v. pl_open P (m_file m) v = (Inr checker_symbols, v)) \<Longrightarrow>
       execute_with_retry P m retry w = Ret None (w @ [''main''])"
    by (simp_all add: execute_with_retry_def module_execute_def hello_symbols_def checker_symbols_def
        MainHandleName_def ErrHandleName_def)
qed

section \<open>Properties\<close>

text \<open>\<open>ExecuteWithRetry\<close> stops at the first attempt that succeeds, never makes more than the
  given number of attempts (one for 0, none for a negative number), and returns nil in
  every case: when every attempt has failed, the caller learns nothing of it.\<close>

theorem retry_reports_success_always:
  "(\<exists>w'. failed_attempts P m (attempts_allowed retry) w w' \<and>
        execute_with_retry P m retry w = Ret None w') \<or>
     (\<exists>k w1 w'. k < attempts_allowed retry \<and> failed_attempts P m k w w1 \<and>
        module_execute P m w1 = Ret None w' \<and> execute_with_retry P m retry w = Ret None w') \<or>
     (\<exists>k w1 p w'. k < attempts_allowed retry \<and> failed_attempts P m k w w1 \<and>
        module_execute P m w1 = Panic p w' \<and> execute_with_retry P m retry w = Panic p w')"
  using retry_loop_cases [of P m "attempts_allowed retry" w]
  by (auto simp: execute_with_retry_def attempts_allowed_def)

text \<open>A plugin whose error handler has another type than the one asserted, such as one that
  returns an error like those of the sample plugins, makes the host panic when the task itself
  returns an error.\<close>

theorem wrong_error_handler_panics:
  assumes "pl_open P (m_file m) w = (Inr p, w1)"
    and "p ErrHandleName = Inr SymOther" "p MainHandleName = Inr (SymMain f)"
    and "f w1 = (Some e, w2)" "0 \<le> sint retry"
  shows "execute_with_retry P m retry w = Panic TypeAssertion w2"
proof -
  have "module_execute P m w = Panic TypeAssertion w2"
    using assms by (simp add: module_execute_def)
  moreover obtain n where "nat (sint (if retry = 0 then 1 else retry)) = Suc n"
    using attempts_allowed_Suc [OF assms(5)] by blast
  ultimately show ?thesis by (simp add: execute_with_retry_def)
qed

definition failing_plugin :: "nat plugin_ops" where
  "failing_plugin = \<lparr>pl_open = (\<lambda>file w. (Inr (\<lambda>s.
     if s = MainHandleName then Inr (SymMain (\<lambda>n. (Some (ErrNew ''boom''), Suc n)))
     else Inr SymOther), w))\<rparr>"

theorem wrong_error_handler_panics_witness:
  "execute_with_retry failing_plugin (new_module ''hello.so'' ''hello'' ''0.0.1'') 3 0
     = Panic TypeAssertion 1"
proof -
  have names: "ErrHandleName \<noteq> MainHandleName" by (simp add: ErrHandleName_def MainHandleName_def)
  show ?thesis
    by (rule wrong_error_handler_panics [where f = "\<lambda>n. (Some (ErrNew ''boom''), Suc n)" and ?w1.0 = 0
          and p = "\<lambda>s. if s = MainHandleName then Inr (SymMain (\<lambda>n. (Some (ErrNew ''boom''), Suc n)))
            else Inr SymOther"])
      (simp_all add: failing_plugin_def names)
qed

end
