(* ===== verification/Module_Table.thy ===== *)
theory Module_Table
  imports Plugin_Module
begin

text \<open>
  The table of plugin modules of \<open>node/task/manager.go\<close>: the name a plugin file stands for
  (\<open>parseModuleName\<close>), the scan at start (\<open>loadModules\<close>), the branch of \<open>update\<close> that follows the
  directory watcher, \<open>ListModules\<close> and \<open>CheckModule\<close>, and the watcher's translation of file
  events, \<open>node/task/watcher.go\<close>. The Go map is an association list; the order in which Go
  ranges over a map is unspecified, so only the set of names of \<open>list_modules\<close> carries meaning.
\<close>

section \<open>The name of a plugin file\<close>

definition DefaultVersion :: string where "DefaultVersion = ''0.0.1''"

text \<open>The loop of \<open>parseModuleName\<close>: at every \<open>@\<close> both names are cut anew, so the last one
  counts; a bound below the start of the slice panics.\<close>

fun scan_name :: "string \<Rightarrow> nat \<Rightarrow> string \<Rightarrow> (string \<times> string) option \<Rightarrow>
    panic + (string \<times> string) option" where
  "scan_name file idx [] found = Inr found"
| "scan_name file idx (c # cs) found =
     (if c = CHR ''@'' then
        (if int idx + 1 \<le> int (length file) - 3
         then scan_name file (Suc idx) cs
                (Some (take idx file, drop (Suc idx) (take (length file - 3) file)))
         else Inl SliceBounds)
      else scan_name file (Suc idx) cs found)"

definition parse_module_name :: "string \<Rightarrow> panic + string \<times> string" where
  "parse_module_name file =
     (case scan_name file 0 file None of
        Inl p \<Rightarrow> Inl p
      | Inr None \<Rightarrow>
          (if length file < 3 then Inl SliceBounds
           else Inr (take (length file - 3) file, DefaultVersion))
      | Inr (Some r) \<Rightarrow> Inr r)"

definition module_id :: "string \<Rightarrow> string \<Rightarrow> string" where
  "module_id name version = name @ ''@'' @ version"

lemma scan_name_no_at:
  "CHR ''@'' \<notin> set cs \<Longrightarrow> scan_name file idx cs found = Inr found"
  by (induction cs arbitrary: idx) auto

lemma scan_name_at:
  assumes "CHR ''@'' \<notin> set a" "CHR ''@'' \<notin> set b"
  shows "scan_name file idx (a @ CHR ''@'' # b) found =
    (if int (idx + length a) + 1 \<le> int (length file) - 3
     then Inr (Some (take (idx + length a) file,
            drop (Suc (idx + length a)) (take (length file - 3) file)))
     else Inl SliceBounds)"
  using assms by (induction a arbitrary: idx) (auto simp: scan_name_no_at)

lemma parse_module_name_plain:
  assumes "CHR ''@'' \<notin> set file"
  shows "parse_module_name file =
    (if length file < 3 then Inl SliceBounds
     else Inr (take (length file - 3) file, DefaultVersion))"
  using assms by (simp add: parse_module_name_def scan_name_no_at)

lemma parse_module_name_at:
  assumes "CHR ''@'' \<notin> set a" "CHR ''@'' \<notin> set b"
  shows "parse_module_name (a @ CHR ''@'' # b) =
    (if length b < 3 then Inl SliceBounds else Inr (a, take (length b - 3) b))"
proof -
  have "drop (Suc (length a)) (take (length a + Suc n) (a @ CHR ''@'' # b)) = take n b" for n
    by simp
  moreover have "length (a @ CHR ''@'' # b) - 3 = length a + Suc (length b - 3)" if "3 \<le> length b"
    using that by simp
  ultimately have "drop (Suc (length a)) (take (length (a @ CHR ''@'' # b) - 3) (a @ CHR ''@'' # b)) =
      take (length b - 3) b" if "3 \<le> length b"
    using that by metis
  then show ?thesis
    using scan_name_at [OF assms, of "a @ CHR ''@'' # b" 0 None] by (auto simp: parse_module_name_def)
qed

section \<open>The table\<close>

type_synonym module_table = "(string \<times> module) list"

definition table_has :: "string \<Rightarrow> module_table \<Rightarrow> bool" where
  "table_has k t = (map_of t k \<noteq> None)"

definition table_insert :: "string \<Rightarrow> module \<Rightarrow> module_table \<Rightarrow> module_table" where
  "table_insert k v t = (if table_has k t then t else t @ [(k, v)])"

definition table_delete :: "string \<Rightarrow> module_table \<Rightarrow> module_table" where
  "table_delete k t = filter (\<lambda>(k', v). k' \<noteq> k) t"

definition table_ok :: "module_table \<Rightarrow> bool" where
  "table_ok t \<longleftrightarrow> distinct (map fst t)"

definition list_modules :: "module_table \<Rightarrow> string list" where
  "list_modules t = map fst t"

definition check_module :: "string \<Rightarrow> module_table \<Rightarrow> bool \<times> error option" where
  "check_module k t = (if table_has k t then (True, None) else (False, None))"

text \<open>\<open>loadModules\<close> on the files found.\<close>

fun load_files :: "string \<Rightarrow> string list \<Rightarrow> module_table \<Rightarrow> panic + module_table" where
  "load_files moduleRoot [] t = Inr t"
| "load_files moduleRoot (f # fs) t =
     (let fileName = path_base f; file = path_join [moduleRoot, fileName]
      in if hd fileName = CHR ''.'' then load_files moduleRoot fs t
         else case parse_module_name fileName of
                Inl p \<Rightarrow> Inl p
              | Inr (name, version) \<Rightarrow>
                  let k = module_id name version
                  in load_files moduleRoot fs (table_insert k (new_module file k version) t))"

lemma table_has_iff: "table_has k t \<longleftrightarrow> k \<in> set (list_modules t)"
  by (auto simp: table_has_def list_modules_def map_of_eq_None_iff)

lemma map_of_insert [simp]:
  "map_of (table_insert k v t) = (if table_has k t then map_of t else (map_of t)(k \<mapsto> v))"
  by (auto simp: table_insert_def table_has_def fun_eq_iff map_add_def split: option.splits)

lemma map_of_delete [simp]: "map_of (table_delete k t) = (map_of t)(k := None)"
  by (induction t) (auto simp: table_delete_def fun_eq_iff)

lemma table_insert_ok [inv_intros]: "table_ok t \<Longrightarrow> table_ok (table_insert k v t)"
  by (auto simp: table_ok_def table_insert_def table_has_iff list_modules_def)

lemma table_delete_ok [inv_intros]: "table_ok t \<Longrightarrow> table_ok (table_delete k t)"
  by (auto simp: table_ok_def table_delete_def distinct_map intro: inj_on_subset)

lemma load_files_ok [inv_intros]:
  "load_files moduleRoot fs t = Inr t' \<Longrightarrow> table_ok t \<Longrightarrow> table_ok t'"
  by (induction moduleRoot fs t rule: load_files.induct)
    (auto simp: Let_def inv_intros split: if_splits sum.splits prod.splits)

lemma load_files_keeps:
  "load_files moduleRoot fs t = Inr t' \<Longrightarrow> map_of t k = Some m \<Longrightarrow> map_of t' k = Some m"
proof (induction moduleRoot fs t rule: load_files.induct)
  case (2 moduleRoot f fs t)
  show ?case
  proof (cases "hd (path_base f) = CHR ''.''")
    case False
    with 2 obtain name version where p: "parse_module_name (path_base f) = Inr (name, version)"
      by (auto simp: Let_def split: sum.splits)
    have "map_of (table_insert (module_id name version) md t) k = Some m" for md
      using "2.prems"(2) by (auto simp: table_has_def)
    with 2 False p show ?thesis by (auto simp: Let_def)
  qed (use 2 in \<open>auto simp: Let_def\<close>)
qed simp

section \<open>The watcher\<close>

datatype event_type = EventCreated | EventRename | EventDropped

record watch_event =
  ev_type :: event_type
  ev_file :: string

text \<open>The events of the package \<open>notify\<close> that \<open>Watcher.Start\<close> asks for, and any other.\<close>

datatype notify_kind = NotifyCreate | NotifyRename | NotifyRemove | NotifyOther

definition watch_translate :: "notify_kind \<Rightarrow> string \<Rightarrow> watch_event option" where
  "watch_translate kind path =
     (let fileName = path_base path
      in case kind of
           NotifyCreate \<Rightarrow> Some \<lparr>ev_type = EventCreated, ev_file = fileName\<rparr>
         | NotifyRename \<Rightarrow> Some \<lparr>ev_type = EventRename, ev_file = fileName\<rparr>
         | NotifyRemove \<Rightarrow> Some \<lparr>ev_type = EventDropped, ev_file = fileName\<rparr>
         | NotifyOther \<Rightarrow> None)"

text \<open>The branch of \<open>update\<close>: \<open>file\<close> is joined while \<open>fileName\<close> is still empty, and the part
  before the first dot, which has no suffix left, is handed to \<open>parseModuleName\<close>.\<close>

definition handle_watch :: "string \<Rightarrow> watch_event \<Rightarrow> module_table \<Rightarrow> panic + module_table" where
  "handle_watch moduleRoot ev t =
     (let file = path_join [moduleRoot, []]; fileNames = split_on (CHR ''.'') (ev_file ev)
      in if length fileNames \<le> 1 \<or> last fileNames \<noteq> ''so'' then Inr t
         else case parse_module_name (hd fileNames) of
                Inl p \<Rightarrow> Inl p
              | Inr (name, version) \<Rightarrow>
                  let k = module_id name version
                  in case ev_type ev of
                       EventCreated \<Rightarrow> Inr (table_insert k (new_module file k version) t)
                     | EventDropped \<Rightarrow> Inr (table_delete k t)
                     | EventRename \<Rightarrow> Inr t)"

lemma handle_watch_ok [inv_intros]:
  "handle_watch moduleRoot ev t = Inr t' \<Longrightarrow> table_ok t \<Longrightarrow> table_ok t'"
  by (auto simp: handle_watch_def Let_def inv_intros
      split: if_splits sum.splits prod.splits event_type.splits)

section \<open>Properties\<close>

lemma load_files_names:
  "load_files moduleRoot fs t = Inr t' \<Longrightarrow> set (list_modules t') = set (list_modules t) \<union>
     {module_id n v |f n v. f \<in> set fs \<and> hd (path_base f) \<noteq> CHR ''.'' \<and>
        parse_module_name (path_base f) = Inr (n, v)}"
proof (induction moduleRoot fs t rule: load_files.induct)
  case (2 moduleRoot f fs t)
  show ?case
  proof (cases "hd (path_base f) = CHR ''.''")
    case False
    with 2 obtain name version where p: "parse_module_name (path_base f) = Inr (name, version)"
      by (auto simp: Let_def split: sum.splits)
    have "set (list_modules (table_insert k md t)) = insert k (set (list_modules t))" for k md
      by (auto simp: table_insert_def table_has_iff) (auto simp: list_modules_def)
    with 2 False p show ?thesis by (auto simp: Let_def)
  qed (use 2 in \<open>auto simp: Let_def\<close>)
qed simp

lemma load_files_panics:
  "(\<exists>p. load_files moduleRoot fs t = Inl p) \<longleftrightarrow>
     (\<exists>f \<in> set fs. hd (path_base f) \<noteq> CHR ''.'' \<and> (\<exists>p. parse_module_name (path_base f) = Inl p))"
  by (induction moduleRoot fs t rule: load_files.induct)
    (auto simp: Let_def split: sum.splits prod.splits)

text \<open>A plugin file named \<open>name@version.so\<close> yields its name and its version, one named \<open>name.so\<close>
  yields its name and the default version.\<close>

theorem plugin_file_names:
  assumes "CHR ''@'' \<notin> set name" "CHR ''@'' \<notin> set version"
  shows "parse_module_name (name @ ''@'' @ version @ ''.so'') = Inr (name, version) \<and>
    parse_module_name (name @ ''.so'') = Inr (name, DefaultVersion)"
  using parse_module_name_at [of name "version @ ''.so''"]
    parse_module_name_plain [of "name @ ''.so''"] assms
  by simp

theorem plugin_file_names_witness:
  "parse_module_name ''hello@0.0.2.so'' = Inr (''hello'', ''0.0.2'') \<and>
   parse_module_name ''hello.so'' = Inr (''hello'', ''0.0.1'')"
  using plugin_file_names [of "''hello''" "''0.0.2''"] by (simp add: DefaultVersion_def)

text \<open>\<open>loadModules\<close> panics exactly when a file that is not hidden has a name that cannot be cut;
  otherwise the table then holds, each once, the names it held and the names of the files that
  are not hidden, and an entry it held is not replaced.\<close>

theorem load_modules_fills_table:
  assumes "table_ok t"
  shows "case load_files moduleRoot fs t of
      Inl p \<Rightarrow> (\<exists>f \<in> set fs. hd (path_base f) \<noteq> CHR ''.'' \<and> (\<exists>q. parse_module_name (path_base f) = Inl q))
    | Inr t' \<Rightarrow> table_ok t' \<and> (\<forall>k m. map_of t k = Some m \<longrightarrow> map_of t' k = Some m) \<and>
        set (list_modules t') = set (list_modules t) \<union>
          {module_id n v |f n v. f \<in> set fs \<and> hd (path_base f) \<noteq> CHR ''.'' \<and>
             parse_module_name (path_base f) = Inr (n, v)}"
proof (cases "load_files moduleRoot fs t")
  case (Inl p)
  with load_files_panics [of moduleRoot fs t] show ?thesis by auto
next
  case (Inr t')
  with assms load_files_ok [OF Inr] load_files_keeps [OF Inr] load_files_names [OF Inr]
  show ?thesis by simp
qed

theorem load_modules_fills_table_witness:
  "\<exists>t. load_files ''/m'' [''/m/a.so'', ''/m/.b.so'', ''/m/c@2.so''] [] = Inr t \<and>
     set (list_modules t) = {''a@0.0.1'', ''c@2''}"
proof -
  have b: "path_base ''/m/a.so'' = ''a.so''" "path_base ''/m/.b.so'' = ''.b.so''"
    "path_base ''/m/c@2.so'' = ''c@2.so''"
    by (simp_all add: path_base_def)
  have n: "parse_module_name ''a.so'' = Inr (''a'', ''0.0.1'')"
    "parse_module_name ''c@2.so'' = Inr (''c'', ''2'')"
    by (simp_all add: parse_module_name_def DefaultVersion_def)
  obtain t where t: "load_files ''/m'' [''/m/a.so'', ''/m/.b.so'', ''/m/c@2.so''] [] = Inr t"
    by (simp add: b n Let_def)
  have "table_ok []" by (simp add: table_ok_def)
  from load_modules_fills_table [OF this, where moduleRoot = "''/m''"
      and fs = "[''/m/a.so'', ''/m/.b.so'', ''/m/c@2.so'']"] t
  have "set (list_modules t) = {module_id n v |f n v. f \<in> {''/m/a.so'', ''/m/.b.so'', ''/m/c@2.so''} \<and>
      hd (path_base f) \<noteq> CHR ''.'' \<and> parse_module_name (path_base f) = Inr (n, v)}"
    by (simp add: list_modules_def)
  also have "\<dots> = {''a@0.0.1'', ''c@2''}"
  proof (intro set_eqI iffI)
    fix k assume "k \<in> {''a@0.0.1'', ''c@2''}"
    then consider "k = module_id ''a'' ''0.0.1''" | "k = module_id ''c'' ''2''"
      by (auto simp: module_id_def)
    then show "k \<in> {module_id n v |f n v. f \<in> {''/m/a.so'', ''/m/.b.so'', ''/m/c@2.so''} \<and>
        hd (path_base f) \<noteq> CHR ''.'' \<and> parse_module_name (path_base f) = Inr (n, v)}"
    proof cases
      case 1
      with b n show ?thesis by (intro CollectI exI [of _ "''/m/a.so''"] exI conjI) simp_all
    next
      case 2
      with b n show ?thesis by (intro CollectI exI [of _ "''/m/c@2.so''"] exI conjI) simp_all
    qed
  qed (use b n in \<open>auto simp: module_id_def\<close>)
  finally show ?thesis using t by blast
qed

text \<open>A plugin file that appears while the program runs is not registered under its name. For
  \<open>base.so\<close>, with no other dot and no \<open>@\<close>, the watcher's branch panics when \<open>base\<close> has fewer than
  three characters, and otherwise registers \<open>base\<close> less its last three characters; \<open>CheckModule\<close> of
  the name that \<open>loadModules\<close> would give it answers as before.\<close>

theorem watched_plugin_misnamed:
  assumes "CHR ''.'' \<notin> set base" "CHR ''@'' \<notin> set base" "base \<noteq> []"
  shows "handle_watch moduleRoot \<lparr>ev_type = EventCreated, ev_file = base @ ''.so''\<rparr> t =
    (if length base < 3 then Inl SliceBounds
     else let k = module_id (take (length base - 3) base) DefaultVersion
          in Inr (table_insert k (new_module (path_join [moduleRoot, []]) k DefaultVersion) t)) \<and>
    (\<forall>t'. handle_watch moduleRoot \<lparr>ev_type = EventCreated, ev_file = base @ ''.so''\<rparr> t = Inr t' \<longrightarrow>
       check_module (module_id base DefaultVersion) t' = check_module (module_id base DefaultVersion) t)"
proof -
  have split: "split_on (CHR ''.'') (base @ ''.so'') = [base, ''so'']"
    using split_on_append [OF assms(1), of "''so''"] by simp
  have ev: "handle_watch moduleRoot \<lparr>ev_type = EventCreated, ev_file = base @ ''.so''\<rparr> t =
    (if length base < 3 then Inl SliceBounds
     else let k = module_id (take (length base - 3) base) DefaultVersion
          in Inr (table_insert k (new_module (path_join [moduleRoot, []]) k DefaultVersion) t))"
    using parse_module_name_plain [OF assms(2)] by (simp add: handle_watch_def split Let_def)
  have "length (take (length base - 3) base) < length base" using assms(3) by simp
  then have "module_id (take (length base - 3) base) DefaultVersion \<noteq> module_id base DefaultVersion"
    by (metis append_same_eq module_id_def nat_less_le)
  then have "table_has (module_id base DefaultVersion)
      (table_insert (module_id (take (length base - 3) base) DefaultVersion) md t) =
    table_has (module_id base DefaultVersion) t" for md
    by (simp add: table_has_def)
  with ev show ?thesis by (auto simp: check_module_def Let_def)
qed

theorem watched_plugin_misnamed_witness:
  "\<exists>t'. handle_watch ''/m'' \<lparr>ev_type = EventCreated, ev_file = ''hello'' @ ''.so''\<rparr> [] = Inr t' \<and>
     list_modules t' = [''he@0.0.1''] \<and> check_module (module_id ''hello'' DefaultVersion) t' = (False, None)"
proof -
  have h: "CHR ''.'' \<notin> set ''hello''" "CHR ''@'' \<notin> set ''hello''" "''hello'' \<noteq> []" by simp_all
  show ?thesis
    using watched_plugin_misnamed [OF h, of "''/m''" "[]"]
    by (simp add: Let_def table_insert_def table_has_def list_modules_def check_module_def
        module_id_def DefaultVersion_def)
qed

text \<open>A versioned file \<open>name@major.rest.so\<close> that appears or disappears while the program runs
  panics the update loop when \<open>major\<close> has fewer than three characters, as in \<open>hello@0.0.1.so\<close>.\<close>

theorem watched_version_panics:
  assumes "CHR ''.'' \<notin> set name" "CHR ''@'' \<notin> set name" "CHR ''.'' \<notin> set major" "CHR ''@'' \<notin> set major"
    and "length major < 3"
  shows "handle_watch moduleRoot \<lparr>ev_type = ty, ev_file = name @ ''@'' @ major @ ''.'' @ rest @ ''.so''\<rparr> t
    = Inl SliceBounds"
proof -
  have "split_on (CHR ''.'') ((name @ ''@'' @ major) @ CHR ''.'' # (rest @ ''.so'')) =
      (name @ ''@'' @ major) # split_on (CHR ''.'') (rest @ ''.so'')"
    using assms by (intro split_on_append) simp
  moreover have "split_on (CHR ''.'') (rest @ ''.so'') = split_on (CHR ''.'') rest @ [''so'']"
    using split_on_snoc_sep [of "CHR ''.''" "''so''" rest] by simp
  ultimately have "split_on (CHR ''.'') (name @ ''@'' @ major @ ''.'' @ rest @ ''.so'') =
      (name @ ''@'' @ major) # split_on (CHR ''.'') rest @ [''so'']"
    by simp
  moreover have "parse_module_name (name @ ''@'' @ major) = Inl SliceBounds"
    using parse_module_name_at [OF assms(2,4)] assms(5) by simp
  ultimately show ?thesis by (simp add: handle_watch_def Let_def)
qed

theorem watched_version_panics_witness:
  "handle_watch ''/m'' \<lparr>ev_type = EventCreated, ev_file = ''hello@0.0.1.so''\<rparr> [] = Inl SliceBounds"
  using watched_version_panics [of "''hello''" "''0''" "''/m''" EventCreated "''0.1''" "[]"] by simp

end
