(* ===== verification/Manager.thy ===== *)
theory Manager
  imports Time_Wheel Record_Table Module_Table
begin

text \<open>
  The task manager, \<open>node/task/manager.go\<close>. Every method of \<open>Manager\<close> holds its mutex from
  start to end, so a method is one step on the state; the goroutine of \<open>update\<close> and the
  goroutines of \<open>executeHandle\<close> interleave these steps. What lies outside the
  repository is the record \<open>platform\<close>: the clock, the shell commands, the file system,
  LevelDB, the plugin loader, \<open>hexutil\<close> and the generator of identifiers; it acts on a world
  of type \<open>'w\<close>. Logging and the metrics counters are left out.
\<close>

section \<open>The platform\<close>

record ('w, 'g, 'db) platform =
  pf_now :: "'w \<Rightarrow> int \<times> 'w"
  pf_exec_cmd :: "string \<Rightarrow> i64 \<Rightarrow> 'w \<Rightarrow> bytes \<times> error option \<times> 'w"
  pf_exec_file :: "string \<Rightarrow> i64 \<Rightarrow> 'w \<Rightarrow> bytes \<times> error option \<times> 'w"
  pf_write_file :: "string \<Rightarrow> bytes \<Rightarrow> 'w \<Rightarrow> error option \<times> 'w"
  pf_file_exist :: "string \<Rightarrow> 'w \<Rightarrow> bool"
  pf_remove_file :: "string \<Rightarrow> 'w \<Rightarrow> error option \<times> 'w"
  pf_mkdir_all :: "string \<Rightarrow> 'w \<Rightarrow> error option \<times> 'w"
  pf_file_list :: "string \<Rightarrow> string \<Rightarrow> 'w \<Rightarrow> error + string list"
  pf_open_db :: "string \<Rightarrow> 'w \<Rightarrow> (error + 'db) \<times> 'w"
  pf_watch :: "string \<Rightarrow> 'w \<Rightarrow> error option \<times> 'w"
  pf_new_worker :: "i64 \<Rightarrow> error + 'g"
  pf_next_id :: "'g \<Rightarrow> (error + i64) \<times> 'g"
  pf_subscribe :: "'w \<Rightarrow> bool"
  pf_db :: "'db leveldb"
  pf_hex :: hexutil
  pf_plugins :: "'w plugin_ops"

text \<open>\<open>time.Now().Unix()\<close>: whole seconds of a time in nanoseconds.\<close>

definition unix_secs :: "int \<Rightarrow> i64" where
  "unix_secs t = word_of_int (t div second)"

definition now_unix :: "('w, 'g, 'db) platform \<Rightarrow> 'w \<Rightarrow> i64 \<times> 'w" where
  "now_unix P w = (let (t, w') = pf_now P w in (unix_secs t, w'))"

section \<open>State\<close>

definition DefaultInterval :: duration where "DefaultInterval = word_of_int second"
definition DefaultSlotNum :: int where "DefaultSlotNum = 3600"
definition MaxChanSize :: int where "MaxChanSize = 64"
definition DefaultPluginDir :: string where "DefaultPluginDir = ''modules''"
definition DefaultCmdDir :: string where "DefaultCmdDir = ''shells''"

text \<open>The two feeds are the lists of what was sent on them, oldest first; \<open>genID\<close> and the tables
  are nil until \<open>Start\<close> has set them.\<close>

record ('g, 'db) manager =
  mg_root :: string
  mg_moduleRoot :: string
  mg_cmdRoot :: string
  mg_genID :: "'g option"
  mg_tw :: time_wheel
  mg_es :: bool
  mg_watch :: bool
  mg_dbTask :: "'db store option"
  mg_dbResult :: "'db store option"
  mg_modules :: module_table
  mg_isRunning :: bool
  mg_queueSize :: int
  mg_results :: "task_result list list"
  mg_added :: "i64 list"
  mg_canceled :: bool

type_synonym ('w, 'g, 'db, 'a) action = "(('g, 'db) manager \<times> 'w, 'a) outcome"

text \<open>\<open>NewManagerWithTimeWheel\<close>: the arguments \<open>interval\<close> and \<open>slotNum\<close> are not used.\<close>

definition new_manager_with_time_wheel ::
  "string \<Rightarrow> duration \<Rightarrow> int \<Rightarrow> int \<Rightarrow> panic + ('g, 'db) manager" where
  "new_manager_with_time_wheel dataDir interval' slotNum size' =
     (case new_time_wheel DefaultInterval DefaultSlotNum of
        Inl p \<Rightarrow> Inl p
      | Inr tw \<Rightarrow>
          if size' < 0 then Inl (ExplicitPanic ''makechan: size out of range'')
          else Inr \<lparr>mg_root = dataDir, mg_moduleRoot = [], mg_cmdRoot = [], mg_genID = None,
                 mg_tw = tw, mg_es = False, mg_watch = False, mg_dbTask = None, mg_dbResult = None,
                 mg_modules = [], mg_isRunning = False, mg_queueSize = size', mg_results = [],
                 mg_added = [], mg_canceled = False\<rparr>)"

definition new_manager :: "string \<Rightarrow> panic + ('g, 'db) manager" where
  "new_manager dataDir =
     new_manager_with_time_wheel dataDir DefaultInterval DefaultSlotNum MaxChanSize"

section \<open>Start and Stop\<close>

definition load_modules ::
  "('w, 'g, 'db) platform \<Rightarrow> ('g, 'db) manager \<Rightarrow> 'w \<Rightarrow> ('w, 'g, 'db, error option) action" where
  "load_modules P m w =
     (case pf_file_list P (mg_moduleRoot m) ''so'' w of
        Inl e \<Rightarrow> Ret (Some e) (m, w)
      | Inr fs \<Rightarrow>
          (case load_files (mg_moduleRoot m) fs (mg_modules m) of
             Inl p \<Rightarrow> Panic p (m, w)
           | Inr t \<Rightarrow> Ret None (m\<lparr>mg_modules := t\<rparr>, w)))"

definition files_watcher ::
  "('w, 'g, 'db) platform \<Rightarrow> ('g, 'db) manager \<Rightarrow> 'w \<Rightarrow> error option \<times> ('g, 'db) manager \<times> 'w" where
  "files_watcher P m w =
     (case pf_watch P (mg_moduleRoot m) w of
        (Some e, w1) \<Rightarrow> (Some e, m, w1)
      | (None, w1) \<Rightarrow> (None, m\<lparr>mg_watch := True\<rparr>, w1))"

text \<open>The second half of \<open>Start\<close>, from \<open>loadModules\<close> on.\<close>

definition start_services ::
  "('w, 'g, 'db) platform \<Rightarrow> ('g, 'db) manager \<Rightarrow> 'w \<Rightarrow> ('w, 'g, 'db, error option) action" where
  "start_services P m w =
     (case load_modules P m w of
        Panic p s \<Rightarrow> Panic p s
      | Ret (Some e) s \<Rightarrow> Ret (Some e) s
      | Ret None (m1, w1) \<Rightarrow>
          if \<not> pf_subscribe P w1 then Ret (Some (ErrNew ''subscribe for event system failed'')) (m1, w1)
          else case files_watcher P (m1\<lparr>mg_es := True\<rparr>) w1 of
                 (Some e, m2, w2) \<Rightarrow> Ret (Some e) (m2, w2)
               | (None, m2, w2) \<Rightarrow> Ret None (m2\<lparr>mg_isRunning := True\<rparr>, w2))"

definition open_tables ::
  "('w, 'g, 'db) platform \<Rightarrow> ('g, 'db) manager \<Rightarrow> 'w \<Rightarrow> error option \<times> ('g, 'db) manager \<times> 'w" where
  "open_tables P m w =
     (case pf_open_db P (path_join [mg_root m, ''task'']) w of
        (Inl e, w1) \<Rightarrow> (Some e, m, w1)
      | (Inr d, w1) \<Rightarrow>
          let m1 = m\<lparr>mg_dbTask := Some (new_store d TaskPrefix)\<rparr>
          in case pf_open_db P (path_join [mg_root m, ''result'']) w1 of
               (Inl e, w2) \<Rightarrow> (Some e, m1, w2)
             | (Inr d', w2) \<Rightarrow> (None, m1\<lparr>mg_dbResult := Some (new_store d' ResultPrefix)\<rparr>, w2))"

definition manager_start ::
  "('w, 'g, 'db) platform \<Rightarrow> string \<Rightarrow> ('g, 'db) manager \<Rightarrow> 'w \<Rightarrow> ('w, 'g, 'db, error option) action" where
  "manager_start P nodeID m w =
     (let pluginDir = path_join [mg_root m, DefaultPluginDir]
      in case pf_mkdir_all P pluginDir w of
           (Some e, w1) \<Rightarrow> Ret (Some e) (m, w1)
         | (None, w1) \<Rightarrow>
             let m1 = m\<lparr>mg_moduleRoot := pluginDir\<rparr>; shellsDir = path_join [mg_root m, DefaultCmdDir]
             in case pf_mkdir_all P shellsDir w1 of
                  (Some e, w2) \<Rightarrow> Ret (Some e) (m1, w2)
                | (None, w2) \<Rightarrow>
                    let m2 = m1\<lparr>mg_cmdRoot := shellsDir\<rparr>
                    in case pf_new_worker P (word_of_int (fst (parse_int nodeID))) of
                         Inl e \<Rightarrow> Ret (Some e) (m2, w2)
                       | Inr g \<Rightarrow>
                           (case open_tables P (m2\<lparr>mg_genID := Some g\<rparr>) w2 of
                              (Some e, m3, w3) \<Rightarrow> Ret (Some e) (m3, w3)
                            | (None, m3, w3) \<Rightarrow> start_services P m3 w3))"

definition manager_stop :: "('g, 'db) manager \<Rightarrow> ('g, 'db) manager" where
  "manager_stop m = m\<lparr>mg_canceled := True, mg_isRunning := False\<rparr>"

section \<open>The branches of update\<close>

definition add_handle :: "job \<Rightarrow> ('g, 'db) manager \<Rightarrow> (('g, 'db) manager, unit) outcome" where
  "add_handle j m =
     (case tw_add (job_delay j) (job_id j) (mg_tw m) of
        Ret r tw \<Rightarrow> Ret () (m\<lparr>mg_tw := tw\<rparr>)
      | Panic p tw \<Rightarrow> Panic p (m\<lparr>mg_tw := tw\<rparr>))"

definition delete_handle :: "i64 \<Rightarrow> ('g, 'db) manager \<Rightarrow> (('g, 'db) manager, unit) outcome" where
  "delete_handle tid m =
     (case tw_delete tid (mg_tw m) of
        Ret r tw \<Rightarrow> Ret () (m\<lparr>mg_tw := tw\<rparr>)
      | Panic p tw \<Rightarrow> Panic p (m\<lparr>mg_tw := tw\<rparr>))"

text \<open>A tick: the identifiers \<open>Trigger\<close> returns are handed to a new goroutine when there are any.\<close>

definition tick_handle :: "('g, 'db) manager \<Rightarrow> (('g, 'db) manager, i64 list) outcome" where
  "tick_handle m =
     (case tw_trigger (mg_tw m) of
        Ret ks tw \<Rightarrow> Ret ks (m\<lparr>mg_tw := tw\<rparr>)
      | Panic p tw \<Rightarrow> Panic p (m\<lparr>mg_tw := tw\<rparr>))"

definition watch_handle :: "watch_event \<Rightarrow> ('g, 'db) manager \<Rightarrow> (('g, 'db) manager, unit) outcome" where
  "watch_handle ev m =
     (case handle_watch (mg_moduleRoot m) ev (mg_modules m) of
        Inl p \<Rightarrow> Panic p m
      | Inr t \<Rightarrow> Ret () (m\<lparr>mg_modules := t\<rparr>))"

section \<open>Execution\<close>

definition cmd_file :: "string \<Rightarrow> i64 \<Rightarrow> string" where
  "cmd_file cmdRoot tid = path_join [cmdRoot, show_int (sint tid) @ ''.sh'']"

text \<open>What \<open>executeJobs\<close> works on besides the manager's fixed fields: the result table and the world.\<close>

type_synonym ('w, 'db) exec_state = "'db store option \<times> 'w"

text \<open>The two early branches: both times are read anew, and nothing is stored.\<close>

definition failed_result ::
  "('w, 'g, 'db) platform \<Rightarrow> i64 \<Rightarrow> error \<Rightarrow> 'w \<Rightarrow> task_result \<times> 'w" where
  "failed_result P tid e w =
     (let (b, w1) = now_unix P w; (en, w2) = now_unix P w1
      in (\<lparr>r_id = tid, r_begin = b, r_end = en, r_error = error_text e, r_extra = []\<rparr>, w2))"

definition ended_result ::
  "('w, 'g, 'db) platform \<Rightarrow> i64 \<Rightarrow> int \<Rightarrow> error option \<Rightarrow> bytes \<Rightarrow> 'w \<Rightarrow> task_result \<times> 'w" where
  "ended_result P tid begin' e output w =
     (let (en, w1) = now_unix P w
      in (\<lparr>r_id = tid, r_begin = unix_secs begin', r_end = en, r_error = to_msg e,
           r_extra = output\<rparr>, w1))"

text \<open>The \<open>switch\<close> on the kind of task; a plugin that is not loaded, and an unknown kind, leave
  the element of \<open>results\<close> as \<open>make\<close> created it.\<close>

definition run_job ::
  "('w, 'g, 'db) platform \<Rightarrow> ('g, 'db) manager \<Rightarrow> i64 \<Rightarrow> job \<Rightarrow> 'w \<Rightarrow> ('w, task_result) outcome" where
  "run_job P m tid j w =
     (let (begin', w1) = pf_now P w
      in case j_type j of
           JobTypeCmd \<Rightarrow>
             (case pf_exec_cmd P (str_of_bytes (j_extra j)) (j_retry j) w1 of
                (output, e, w2) \<Rightarrow>
                  (case ended_result P tid begin' e output w2 of (r, w3) \<Rightarrow> Ret r w3))
         | JobTypeFile \<Rightarrow>
             (case pf_exec_file P (cmd_file (mg_cmdRoot m) tid) (j_retry j) w1 of
                (output, e, w2) \<Rightarrow>
                  (case ended_result P tid begin' e output w2 of (r, w3) \<Rightarrow> Ret r w3))
         | JobTypePlugin \<Rightarrow>
             (case map_of (mg_modules m) (str_of_bytes (j_extra j)) of
                None \<Rightarrow> Ret zero_result w1
              | Some md \<Rightarrow>
                  (case execute_with_retry (pf_plugins P) md (j_retry j) w1 of
                     Panic p w2 \<Rightarrow> Panic p w2
                   | Ret e w2 \<Rightarrow>
                       (case ended_result P tid begin' e [] w2 of (r, w3) \<Rightarrow> Ret r w3)))
         | JobTypeUnkown \<Rightarrow> Ret zero_result w1)"

text \<open>Storing a result: an error of \<open>Marshal\<close> or of \<open>Put\<close> is only logged.\<close>

definition store_result ::
  "('w, 'g, 'db) platform \<Rightarrow> i64 \<Rightarrow> task_result \<Rightarrow> 'db store \<Rightarrow> 'db store" where
  "store_result P tid r t =
     (let jsonBytes = (case result_marshal (pf_hex P) r of Inl e \<Rightarrow> [] | Inr bs \<Rightarrow> bs)
      in snd (store_put (pf_db P) t (item_bytes (encode_item_id tid)) jsonBytes))"

text \<open>One turn of the loop; the variable \<open>job\<close> is shared by the turns. The result is the element of
  \<open>results\<close> and the variable.\<close>

definition execute_one ::
  "('w, 'g, 'db) platform \<Rightarrow> ('g, 'db) manager \<Rightarrow> i64 \<Rightarrow> job \<Rightarrow> ('w, 'db) exec_state \<Rightarrow>
    (('w, 'db) exec_state, task_result \<times> job) outcome" where
  "execute_one P m tid j0 = (\<lambda>(dbR, w).
     case mg_dbTask m of
       None \<Rightarrow> Panic NilDereference (dbR, w)
     | Some t \<Rightarrow>
         (case store_get (pf_db P) t (item_bytes (encode_item_id tid)) of
            Inl e \<Rightarrow> (case failed_result P tid e w of (r, w1) \<Rightarrow> Ret (r, j0) (dbR, w1))
          | Inr jobBytes \<Rightarrow>
              (case job_unmarshal (pf_hex P) jobBytes j0 of
                 (j, Some e) \<Rightarrow> (case failed_result P tid e w of (r, w1) \<Rightarrow> Ret (r, j) (dbR, w1))
               | (j, None) \<Rightarrow>
                   (case run_job P m tid j w of
                      Panic p w1 \<Rightarrow> Panic p (dbR, w1)
                    | Ret r w1 \<Rightarrow>
                        (case dbR of
                           None \<Rightarrow> Panic NilDereference (dbR, w1)
                         | Some t' \<Rightarrow> Ret (r, j) (Some (store_result P tid r t'), w1))))))"

fun execute_loop ::
  "('w, 'g, 'db) platform \<Rightarrow> ('g, 'db) manager \<Rightarrow> i64 list \<Rightarrow> job \<Rightarrow> ('w, 'db) exec_state \<Rightarrow>
    (('w, 'db) exec_state, task_result list) outcome" where
  "execute_loop P m [] j s = Ret [] s"
| "execute_loop P m (tid # tids) j s =
     (case execute_one P m tid j s of
        Panic p s1 \<Rightarrow> Panic p s1
      | Ret (r, j1) s1 \<Rightarrow>
          (case execute_loop P m tids j1 s1 of
             Panic p s2 \<Rightarrow> Panic p s2
           | Ret rs s2 \<Rightarrow> Ret (r # rs) s2))"

definition execute_handle ::
  "('w, 'g, 'db) platform \<Rightarrow> i64 list \<Rightarrow> ('g, 'db) manager \<Rightarrow> 'w \<Rightarrow> ('w, 'g, 'db, unit) action" where
  "execute_handle P tids m w =
     (case execute_loop P m tids zero_job (mg_dbResult m, w) of
        Panic p (dbR, w1) \<Rightarrow> Panic p (m\<lparr>mg_dbResult := dbR\<rparr>, w1)
      | Ret rs (dbR, w1) \<Rightarrow>
          Ret () (m\<lparr>mg_dbResult := dbR, mg_results := mg_results m @ [rs]\<rparr>, w1))"

section \<open>The methods of the API\<close>

text \<open>The \<open>switch\<close> of \<open>AddTask\<close>: the checks of a kind, and the script of a file task.\<close>

definition check_add ::
  "('w, 'g, 'db) platform \<Rightarrow> job \<Rightarrow> i64 \<Rightarrow> ('g, 'db) manager \<Rightarrow> 'w \<Rightarrow> error option \<times> 'w" where
  "check_add P j newID m w =
     (case j_type j of
        JobTypeCmd \<Rightarrow> (None, w)
      | JobTypeFile \<Rightarrow>
          (if j_extra j = [] then (Some ErrInvalidParameter, w)
           else pf_write_file P (cmd_file (mg_cmdRoot m) newID) (j_extra j) w)
      | JobTypePlugin \<Rightarrow>
          (let extra = str_of_bytes (j_extra j);
               taskName = (if length (split_on (CHR ''@'') extra) = 1
                           then extra @ ''@'' @ DefaultVersion else extra)
           in if table_has taskName (mg_modules m) then (None, w) else (Some ErrInvalidPluginName, w))
      | JobTypeUnkown \<Rightarrow> (None, w))"

text \<open>The rest of \<open>AddTask\<close>: the job is stored, put on the wheel and announced.\<close>

definition schedule_job ::
  "('w, 'g, 'db) platform \<Rightarrow> job \<Rightarrow> i64 \<Rightarrow> ('g, 'db) manager \<Rightarrow> (('g, 'db) manager, error + i64) outcome" where
  "schedule_job P j newID m =
     (case job_marshal (pf_hex P) j of
        Inl e \<Rightarrow> Ret (Inl e) m
      | Inr jobBytes \<Rightarrow>
          (case mg_dbTask m of
             None \<Rightarrow> Panic NilDereference m
           | Some t \<Rightarrow>
               (case store_put (pf_db P) t (item_bytes (j_uuid j)) jobBytes of
                  (Some e, t') \<Rightarrow> Ret (Inl e) (m\<lparr>mg_dbTask := Some t'\<rparr>)
                | (None, t') \<Rightarrow>
                    let m1 = m\<lparr>mg_dbTask := Some t'\<rparr>
                    in case tw_add (job_delay j) (job_id j) (mg_tw m) of
                         Panic p tw \<Rightarrow> Panic p (m1\<lparr>mg_tw := tw\<rparr>)
                       | Ret r tw \<Rightarrow>
                           Ret (Inr (item_int64 (j_uuid j)))
                             (m1\<lparr>mg_tw := tw, mg_added := mg_added m @ [newID]\<rparr>))))"

definition add_task ::
  "('w, 'g, 'db) platform \<Rightarrow> job \<Rightarrow> ('g, 'db) manager \<Rightarrow> 'w \<Rightarrow> ('w, 'g, 'db, error + i64) action" where
  "add_task P j m w =
     (case mg_genID m of
        None \<Rightarrow> Panic NilDereference (m, w)
      | Some g \<Rightarrow>
          (case pf_next_id P g of
             (Inl e, g') \<Rightarrow> Ret (Inl e) (m\<lparr>mg_genID := Some g'\<rparr>, w)
           | (Inr newID, g') \<Rightarrow>
               let m1 = m\<lparr>mg_genID := Some g'\<rparr>; j1 = j\<lparr>j_uuid := encode_item_id newID\<rparr>
               in case check_add P j1 newID m1 w of
                    (Some e, w1) \<Rightarrow> Ret (Inl e) (m1, w1)
                  | (None, w1) \<Rightarrow>
                      (case schedule_job P j1 newID m1 of
                         Ret r m2 \<Rightarrow> Ret r (m2, w1)
                       | Panic p m2 \<Rightarrow> Panic p (m2, w1))))"

text \<open>\<open>DeleteTask\<close>: the name of the script is printed from the array of the identifier's bytes.\<close>

definition delete_task ::
  "('w, 'g, 'db) platform \<Rightarrow> job \<Rightarrow> ('g, 'db) manager \<Rightarrow> 'w \<Rightarrow> ('w, 'g, 'db, error option) action" where
  "delete_task P j m w =
     (case mg_dbTask m of
        None \<Rightarrow> Panic NilDereference (m, w)
      | Some t \<Rightarrow>
          (case store_delete (pf_db P) t (item_bytes (j_uuid j)) of
             (Some e, t') \<Rightarrow> Ret (Some e) (m\<lparr>mg_dbTask := Some t'\<rparr>, w)
           | (None, t') \<Rightarrow>
               let m1 = m\<lparr>mg_dbTask := Some t'\<rparr>
               in case tw_delete (item_int64 (j_uuid j)) (mg_tw m) of
                    Panic p tw \<Rightarrow> Panic p (m1\<lparr>mg_tw := tw\<rparr>, w)
                  | Ret isDelete tw \<Rightarrow>
                      let m2 = m1\<lparr>mg_tw := tw\<rparr>;
                          cmdFile = path_join [mg_cmdRoot m, show_bytes (j_uuid j) @ ''.sh'']
                      in if isDelete \<and> pf_file_exist P cmdFile w
                         then (case pf_remove_file P cmdFile w of (e, w1) \<Rightarrow> Ret e (m2, w1))
                         else Ret None (m2, w)))"

record task_info =
  ti_info :: string
  ti_slot :: int
  ti_circles :: int

definition get_task ::
  "('w, 'g, 'db) platform \<Rightarrow> job \<Rightarrow> ('g, 'db) manager \<Rightarrow> panic + (error + task_info)" where
  "get_task P j m =
     (case mg_dbTask m of
        None \<Rightarrow> Inl NilDereference
      | Some t \<Rightarrow>
          (case store_get (pf_db P) t (item_bytes (j_uuid j)) of
             Inl e \<Rightarrow> Inr (Inl e)
           | Inr jobBytes \<Rightarrow>
               (case tw_get (item_int64 (j_uuid j)) (mg_tw m) of
                  (idx, circle) \<Rightarrow>
                    Inr (Inr \<lparr>ti_info = str_of_bytes jobBytes, ti_slot = idx, ti_circles = circle\<rparr>))))"

definition check_task ::
  "('w, 'g, 'db) platform \<Rightarrow> job \<Rightarrow> ('g, 'db) manager \<Rightarrow> panic + bool \<times> error option" where
  "check_task P j m =
     (case mg_dbTask m of
        None \<Rightarrow> Inl NilDereference
      | Some t \<Rightarrow>
          (case store_get (pf_db P) t (item_bytes (j_uuid j)) of
             Inl e \<Rightarrow> Inr (False, Some e)
           | Inr jobBytes \<Rightarrow> Inr (tw_check (item_int64 (j_uuid j)) (mg_tw m), None)))"

definition get_result ::
  "('w, 'g, 'db) platform \<Rightarrow> job \<Rightarrow> ('g, 'db) manager \<Rightarrow> panic + (error + string)" where
  "get_result P j m =
     (case mg_dbResult m of
        None \<Rightarrow> Inl NilDereference
      | Some t \<Rightarrow>
          (case store_get (pf_db P) t (item_bytes (j_uuid j)) of
             Inl e \<Rightarrow> Inr (Inl e)
           | Inr jobBytes \<Rightarrow> Inr (Inr (str_of_bytes jobBytes))))"

end
