(* ===== verification/Manager_Steps.thy ===== *)
theory Manager_Steps
  imports Manager
begin

text \<open>
  The running manager as a step relation: the calls of the API, the ticks of \<open>update\<close>, the
  executions of fired batches and the watcher's events, in any order. A batch that a tick has
  fired waits in \<open>sy_batches\<close> until its goroutine gets the mutex, and batches may overtake
  one another. The lemmas show the invariant of every reachable state, that no step of a
  request with an acceptable delay panics, and when a task fires.
\<close>

section \<open>What the manager relies on\<close>

text \<open>The generator never gives an identifier twice; \<open>issued\<close> is what it has given so far.\<close>

definition fresh_ids :: "('g \<Rightarrow> (error + i64) \<times> 'g) \<Rightarrow> ('g \<Rightarrow> i64 set) \<Rightarrow> bool" where
  "fresh_ids gen issued \<longleftrightarrow>
     (\<forall>g k g'. gen g = (Inr k, g') \<longrightarrow> k \<notin> issued g \<and> insert k (issued g) \<subseteq> issued g') \<and>
     (\<forall>g e g'. gen g = (Inl e, g') \<longrightarrow> issued g \<subseteq> issued g')"

definition platform_ok ::
  "('w, 'g, 'db) platform \<Rightarrow> ('db \<Rightarrow> bytes \<Rightarrow> bytes option) \<Rightarrow> ('g \<Rightarrow> i64 set) \<Rightarrow> bool" where
  "platform_ok P v issued \<longleftrightarrow> task_tables (pf_db P) v (pf_hex P) \<and> fresh_ids (pf_next_id P) issued"

lemma platform_okD:
  assumes "platform_ok P v issued"
  shows "task_tables (pf_db P) v (pf_hex P)"
    and "pf_next_id P g = (Inr k, g') \<Longrightarrow> k \<notin> issued g \<and> insert k (issued g) \<subseteq> issued g'"
    and "pf_next_id P g = (Inl e, g') \<Longrightarrow> issued g \<subseteq> issued g'"
  using assms unfolding platform_ok_def fresh_ids_def by blast+

text \<open>A job whose delay the wheel takes and whose name survives JSON.\<close>

definition job_ticks :: "job \<Rightarrow> nat" where
  "job_ticks j = nat (sint (j_interval j))"

definition acceptable :: "job \<Rightarrow> bool" where
  "acceptable j \<longleftrightarrow> utf8_ok (j_name j) \<and> 0 \<le> sint (j_interval j) \<and> fits_duration (job_ticks j)"

lemma job_delay_secs: "0 \<le> sint (j_interval j) \<Longrightarrow> job_delay j = secs (job_ticks j)"
proof -
  assume "0 \<le> sint (j_interval j)"
  then have "int (job_ticks j) = sint (j_interval j)" by (simp add: job_ticks_def)
  then show ?thesis by (simp add: job_delay_def secs_def)
qed

section \<open>The invariant\<close>

definition stored_job ::
  "('w, 'g, 'db) platform \<Rightarrow> ('db \<Rightarrow> bytes \<Rightarrow> bytes option) \<Rightarrow> ('g, 'db) manager \<Rightarrow> i64 \<Rightarrow> job \<Rightarrow> bool" where
  "stored_job P v m k j \<longleftrightarrow> good_job j \<and> j_uuid j = encode_item_id k \<and>
     (\<exists>t bs. mg_dbTask m = Some t \<and> store_view v t (item_bytes (encode_item_id k)) = Some bs \<and>
        job_marshal (pf_hex P) j = Inr bs)"

abbreviation pending_ids :: "('g, 'db) manager \<Rightarrow> i64 pending" where
  "pending_ids m \<equiv> tw_pending (mg_tw m)"

definition manager_inv ::
  "('w, 'g, 'db) platform \<Rightarrow> ('db \<Rightarrow> bytes \<Rightarrow> bytes option) \<Rightarrow> ('g \<Rightarrow> i64 set) \<Rightarrow> ('g, 'db) manager \<Rightarrow> bool" where
  "manager_inv P v issued m \<longleftrightarrow> second_wheel (mg_tw m) \<and> table_ok (mg_modules m) \<and>
     mg_dbTask m \<noteq> None \<and> mg_dbResult m \<noteq> None \<and>
     (\<exists>g. mg_genID m = Some g \<and> dom (pending_ids m) \<subseteq> issued g) \<and>
     (\<forall>k \<in> dom (pending_ids m). \<exists>j. stored_job P v m k j)"

lemma manager_invD:
  assumes "manager_inv P v issued m"
  shows "second_wheel (mg_tw m)" "table_ok (mg_modules m)"
    "mg_dbTask m \<noteq> None" "mg_dbResult m \<noteq> None" "mg_genID m \<noteq> None"
    "mg_genID m = Some g \<Longrightarrow> pending_ids m k \<noteq> None \<Longrightarrow> k \<in> issued g"
    "pending_ids m k \<noteq> None \<Longrightarrow> \<exists>j. stored_job P v m k j"
  using assms unfolding manager_inv_def by auto

section \<open>AddTask\<close>

lemma schedule_job_ok:
  assumes env: "platform_ok P v issued" and inv: "second_wheel (mg_tw m)"
    and t: "mg_dbTask m = Some t" and j: "acceptable j" "j_uuid j = encode_item_id k"
    and new: "pending_ids m k = None"
  shows "(\<exists>e t'. schedule_job P j k m = Ret (Inl e) (m\<lparr>mg_dbTask := t'\<rparr>) \<and>
      (t' = Some t \<or> (\<exists>s. t' = Some s \<and> store_view v s = store_view v t))) \<or>
    (\<exists>s tw bs. schedule_job P j k m =
        Ret (Inr k) (m\<lparr>mg_dbTask := Some s, mg_tw := tw, mg_added := mg_added m @ [k]\<rparr>) \<and>
      second_wheel tw \<and> tw_pending tw = (pending_ids m)(k \<mapsto> job_ticks j) \<and>
      job_marshal (pf_hex P) j = Inr bs \<and>
      store_view v s = (store_view v t)(item_bytes (encode_item_id k) \<mapsto> bs))"
proof (cases "job_marshal (pf_hex P) j")
  case (Inl e)
  then have "schedule_job P j k m = Ret (Inl e) (m\<lparr>mg_dbTask := Some t\<rparr>)"
    using t by (simp add: schedule_job_def)
  then show ?thesis by blast
next
  case (Inr bs)
  note tt = platform_okD(1) [OF env]
  obtain e s where put: "store_put (pf_db P) t (item_bytes (encode_item_id k)) bs = (e, s)"
    by (cases "store_put (pf_db P) t (item_bytes (encode_item_id k)) bs") auto
  show ?thesis
  proof (cases e)
    case (Some x)
    then have "schedule_job P j k m = Ret (Inl x) (m\<lparr>mg_dbTask := Some s\<rparr>)"
      using Inr t put j by (simp add: schedule_job_def)
    moreover have "store_view v s = store_view v t"
      using task_tables.table_facts(5) [OF tt] put Some by blast
    ultimately show ?thesis by blast
  next
    case None
    have view: "store_view v s = (store_view v t)(item_bytes (encode_item_id k) \<mapsto> bs)"
      using task_tables.table_facts(4) [OF tt] put None by blast
    have d: "job_delay j = secs (job_ticks j)" "fits_duration (job_ticks j)"
      using j(1) by (simp_all add: acceptable_def job_delay_secs)
    obtain r tw where add: "tw_add (job_delay j) k (mg_tw m) = Ret r tw" "second_wheel tw"
        "tw_pending tw = (pending_ids m)(k \<mapsto> job_ticks j)"
      using second_wheel_add [OF inv new d(2)] d(1) by auto
    have "job_id j = k" using j(2) by (simp add: job_id_def)
    then have "schedule_job P j k m =
        Ret (Inr k) (m\<lparr>mg_dbTask := Some s, mg_tw := tw, mg_added := mg_added m @ [k]\<rparr>)"
      using Inr t put None j add(1) by (simp add: schedule_job_def Let_def)
    with view add Inr show ?thesis by blast
  qed
qed

text \<open>What every step keeps: the identifiers given so far, and the stored jobs of the tasks it is not about.\<close>

definition known :: "('g \<Rightarrow> i64 set) \<Rightarrow> ('g, 'db) manager \<Rightarrow> i64 set" where
  "known issued m = (case mg_genID m of None \<Rightarrow> {} | Some g \<Rightarrow> issued g)"

definition keeps ::
  "('w, 'g, 'db) platform \<Rightarrow> ('db \<Rightarrow> bytes \<Rightarrow> bytes option) \<Rightarrow> ('g \<Rightarrow> i64 set) \<Rightarrow> i64 set \<Rightarrow>
    ('g, 'db) manager \<Rightarrow> ('g, 'db) manager \<Rightarrow> bool" where
  "keeps P v issued ks m m' \<longleftrightarrow> known issued m \<subseteq> known issued m' \<and>
     (\<forall>k j. k \<notin> ks \<longrightarrow> stored_job P v m k j \<longrightarrow> stored_job P v m' k j)"

lemma key_inj [simp]:
  "item_bytes (encode_item_id a) = item_bytes (encode_item_id b) \<longleftrightarrow> a = b"
  by (simp add: item_bytes_def)

lemma stored_job_view:
  assumes "mg_dbTask m = Some t" "mg_dbTask m' = Some t'"
    and "store_view v t' (item_bytes (encode_item_id k)) = store_view v t (item_bytes (encode_item_id k))"
  shows "stored_job P v m' k j \<longleftrightarrow> stored_job P v m k j"
  using assms by (simp add: stored_job_def)

lemma stored_job_same: "mg_dbTask m' = mg_dbTask m \<Longrightarrow> stored_job P v m' k j \<longleftrightarrow> stored_job P v m k j"
  by (simp add: stored_job_def)

lemma keeps_sameI:
  assumes "mg_dbTask m = Some t" "mg_dbTask m' = Some t'" "known issued m \<subseteq> known issued m'"
    and "\<And>k. k \<notin> ks \<Longrightarrow>
      store_view v t' (item_bytes (encode_item_id k)) = store_view v t (item_bytes (encode_item_id k))"
  shows "keeps P v issued ks m m'"
  unfolding keeps_def using assms stored_job_view [OF assms(1,2)] by blast

text \<open>An operation that only drops or keeps pending identifiers keeps the invariant.\<close>

lemma manager_inv_step:
  assumes inv: "manager_inv P v issued m" and keep: "keeps P v issued ks m m'"
    and wheel: "second_wheel (mg_tw m')" and tab: "table_ok (mg_modules m')"
    and dbs: "mg_dbTask m' \<noteq> None" "mg_dbResult m' \<noteq> None" "mg_genID m' \<noteq> None"
    and pend: "\<And>k. pending_ids m' k \<noteq> None \<Longrightarrow> pending_ids m k \<noteq> None \<and> k \<notin> ks \<or>
      k \<in> known issued m' \<and> (\<exists>j. stored_job P v m' k j)"
  shows "manager_inv P v issued m'"
proof -
  obtain g where g: "mg_genID m = Some g" "dom (pending_ids m) \<subseteq> issued g"
    using inv by (auto simp: manager_inv_def)
  obtain g' where g': "mg_genID m' = Some g'" using dbs(3) by blast
  have mono: "issued g \<subseteq> issued g'" using keep g g' by (simp add: keeps_def known_def)
  have "k \<in> issued g' \<and> (\<exists>j. stored_job P v m' k j)" if "pending_ids m' k \<noteq> None" for k
    using pend [OF that]
  proof (elim disjE)
    assume k: "pending_ids m k \<noteq> None \<and> k \<notin> ks"
    then obtain j where "stored_job P v m k j" using manager_invD(7) [OF inv] by blast
    with k keep have "stored_job P v m' k j" unfolding keeps_def by blast
    with k g(2) mono show ?thesis by (auto simp: dom_def)
  qed (simp add: known_def g')
  then have "dom (pending_ids m') \<subseteq> issued g'"
    "\<forall>k \<in> dom (pending_ids m'). \<exists>j. stored_job P v m' k j" by (auto simp: dom_def)
  with wheel tab dbs(1,2) g' show ?thesis unfolding manager_inv_def by blast
qed

text \<open>A new state of the generator, and a task table that reads as before.\<close>

lemma untouched_tasks:
  assumes inv: "manager_inv P v issued m" and g: "mg_genID m = Some g" "issued g \<subseteq> issued g'"
    and t: "mg_dbTask m = Some t" "store_view v t' = store_view v t"
    and m': "m' = m\<lparr>mg_genID := Some g', mg_dbTask := Some t'\<rparr>"
  shows "manager_inv P v issued m'" "keeps P v issued ks m m'" "pending_ids m' = pending_ids m"
proof -
  have mono: "known issued m \<subseteq> known issued m'" using g by (simp add: m' known_def)
  have all: "keeps P v issued {} m m'"
    by (rule keeps_sameI [where t' = t', OF t(1) _ mono]) (simp_all add: m' t(2))
  show "manager_inv P v issued m'"
    by (rule manager_inv_step [OF inv all]) (use manager_invD(1-5) [OF inv] in \<open>auto simp: m'\<close>)
  show "keeps P v issued ks m m'" "pending_ids m' = pending_ids m" using all by (auto simp: keeps_def m')
qed

text \<open>A new task in the table and on the wheel.\<close>

lemma scheduled_task:
  assumes inv: "manager_inv P v issued m" and g: "mg_genID m = Some g" "k \<notin> issued g" "insert k (issued g) \<subseteq> issued g'"
    and j: "acceptable j" "j_uuid j = encode_item_id k" "job_marshal (pf_hex P) j = Inr bs"
    and t: "mg_dbTask m = Some t" "store_view v s = (store_view v t)(item_bytes (encode_item_id k) \<mapsto> bs)"
    and tw: "second_wheel tw" "tw_pending tw = (pending_ids m)(k \<mapsto> job_ticks j)"
    and m': "m' = m\<lparr>mg_genID := Some g', mg_dbTask := Some s, mg_tw := tw, mg_added := mg_added m @ [k]\<rparr>"
  shows "manager_inv P v issued m'" "keeps P v issued {k. k \<notin> known issued m} m m'" "stored_job P v m' k j"
    "k \<in> known issued m'" "k \<notin> known issued m"
proof -
  show known: "k \<in> known issued m'" "k \<notin> known issued m" using g by (auto simp: known_def m')
  have keep: "keeps P v issued {k} m m'"
    by (rule keeps_sameI [where t' = s, OF t(1)]) (use g in \<open>simp_all add: m' t(2) known_def\<close>)
  then show "keeps P v issued {k. k \<notin> known issued m} m m'" using known(2) by (auto simp: keeps_def)
  show stored: "stored_job P v m' k j" using j t(2) by (simp add: stored_job_def good_job_def acceptable_def m')
  show "manager_inv P v issued m'"
  proof (rule manager_inv_step [OF inv keep])
    fix i assume "pending_ids m' i \<noteq> None"
    then have "i = k \<or> i \<noteq> k \<and> pending_ids m i \<noteq> None" by (auto simp: m' tw(2) split: if_splits)
    with stored known show "pending_ids m i \<noteq> None \<and> i \<notin> {k} \<or>
        i \<in> known issued m' \<and> (\<exists>j. stored_job P v m' i j)" by auto
  qed (use manager_invD(1-5) [OF inv] tw in \<open>auto simp: m'\<close>)
qed

text \<open>What becomes of a job that has got its identifier.\<close>

lemma add_task_cases:
  assumes "platform_ok P v issued" "mg_genID m = Some g" "pf_next_id P g = (Inr k, g')"
    and "second_wheel (mg_tw (m\<lparr>mg_genID := Some g'\<rparr>))" "mg_dbTask (m\<lparr>mg_genID := Some g'\<rparr>) = Some t"
      "pending_ids (m\<lparr>mg_genID := Some g'\<rparr>) k = None"
    and "acceptable j"
  obtains (refused) e s w1 where "add_task P j m w = Ret (Inl e) (m\<lparr>mg_genID := Some g', mg_dbTask := Some s\<rparr>, w1)"
      "store_view v s = store_view v t"
  | (scheduled) s tw bs w1 where
      "add_task P j m w = Ret (Inr k) (m\<lparr>mg_genID := Some g', mg_dbTask := Some s, mg_tw := tw, mg_added := mg_added m @ [k]\<rparr>, w1)"
      "second_wheel tw" "tw_pending tw = (pending_ids m)(k \<mapsto> job_ticks j)"
      "job_marshal (pf_hex P) (j\<lparr>j_uuid := encode_item_id k\<rparr>) = Inr bs"
      "store_view v s = (store_view v t)(item_bytes (encode_item_id k) \<mapsto> bs)"
proof -
  let ?m1 = "m\<lparr>mg_genID := Some g'\<rparr>" and ?j1 = "j\<lparr>j_uuid := encode_item_id k\<rparr>"
  obtain ce w1 where check: "check_add P ?j1 k ?m1 w = (ce, w1)" by (cases "check_add P ?j1 k ?m1 w") auto
  have run: "add_task P j m w = (case ce of Some e \<Rightarrow> Ret (Inl e) (?m1, w1)
      | None \<Rightarrow> (case schedule_job P ?j1 k ?m1 of
           Ret r m2 \<Rightarrow> Ret r (m2, w1) | Panic p m2 \<Rightarrow> Panic p (m2, w1)))"
    using assms(2,3) check by (cases ce) (simp_all add: add_task_def Let_def)
  have j1: "acceptable ?j1" "j_uuid ?j1 = encode_item_id k" "job_ticks ?j1 = job_ticks j"
    using assms(7) by (simp_all add: acceptable_def job_ticks_def)
  show thesis
  proof (cases ce)
    case (Some e)
    with run assms(5) show thesis by (intro refused [of e t w1]) simp_all
  next
    case None
    consider e s where "schedule_job P ?j1 k ?m1 = Ret (Inl e) (?m1\<lparr>mg_dbTask := Some s\<rparr>)" "store_view v s = store_view v t"
      | s tw bs where "second_wheel tw" "tw_pending tw = (pending_ids ?m1)(k \<mapsto> job_ticks ?j1)"
        "job_marshal (pf_hex P) ?j1 = Inr bs" "store_view v s = (store_view v t)(item_bytes (encode_item_id k) \<mapsto> bs)"
        "schedule_job P ?j1 k ?m1 = Ret (Inr k) (?m1\<lparr>mg_dbTask := Some s, mg_tw := tw, mg_added := mg_added ?m1 @ [k]\<rparr>)"
      using schedule_job_ok [OF assms(1,4,5) j1(1,2) assms(6)] by blast
    then show thesis
    proof cases
      case (1 e s)
      with run None show thesis by (intro refused [of e s w1]) simp_all
    next
      case (2 s tw bs)
      with run None j1(3) show thesis by (intro scheduled [where s = s and tw = tw and bs = bs and ?w1.0 = w1]) simp_all
    qed
  qed
qed

lemma add_task_spec:
  assumes env: "platform_ok P v issued" and inv: "manager_inv P v issued m" and j: "acceptable j"
  obtains r m' w' where "add_task P j m w = Ret r (m', w')" "manager_inv P v issued m'"
    "keeps P v issued {k. k \<notin> known issued m} m m'"
    "\<And>e. r = Inl e \<Longrightarrow> pending_ids m' = pending_ids m"
    "\<And>k. r = Inr k \<Longrightarrow> pending_ids m k = None \<and> k \<notin> known issued m \<and> k \<in> known issued m' \<and>
       pending_ids m' = (pending_ids m)(k \<mapsto> job_ticks j) \<and>
       stored_job P v m' k (j\<lparr>j_uuid := encode_item_id k\<rparr>) \<and> mg_added m' = mg_added m @ [k]"
proof -
  obtain g t where g: "mg_genID m = Some g" and t: "mg_dbTask m = Some t"
    using manager_invD(3,5) [OF inv] by blast
  note same = untouched_tasks [OF inv g _ t]
  obtain r g' where nx: "pf_next_id P g = (r, g')" by (cases "pf_next_id P g") auto
  define m1 where "m1 = m\<lparr>mg_genID := Some g'\<rparr>"
  have m1: "m1 = m\<lparr>mg_genID := Some g', mg_dbTask := Some t\<rparr>" using t by (simp add: m1_def)
  show thesis
  proof (cases r)
    case (Inl e)
    have "issued g \<subseteq> issued g'" using platform_okD(3) [OF env] nx Inl by blast
    from same [OF this refl m1] show thesis
      by (intro that [of "Inl e" m1 w]) (use g nx Inl in \<open>simp_all add: add_task_def m1_def\<close>)
  next
    case (Inr k)
    define j1 where "j1 = j\<lparr>j_uuid := encode_item_id k\<rparr>"
    have new: "k \<notin> issued g" and mono: "insert k (issued g) \<subseteq> issued g'"
      using platform_okD(2) [OF env] nx Inr by blast+
    then have mono': "issued g \<subseteq> issued g'" by blast
    note same = same [OF mono']
    have j1: "acceptable j1" "j_uuid j1 = encode_item_id k" "job_ticks j1 = job_ticks j"
      using j by (simp_all add: acceptable_def j1_def job_ticks_def)
    have fresh: "pending_ids m k = None" using manager_invD(6) [OF inv g] new by blast
    have wheel1: "second_wheel (mg_tw m1)" "mg_dbTask m1 = Some t" "pending_ids m1 k = None"
      using manager_invD(1) [OF inv] fresh t by (simp_all add: m1_def)
    from env g nx [unfolded Inr] wheel1 [unfolded m1_def] j show thesis
    proof (cases rule: add_task_cases [where w = w])
      case (refused e s w1)
      from same [OF refused(2), of "m1\<lparr>mg_dbTask := Some s\<rparr>"] refused(1) show thesis
        by (intro that [of "Inl e" "m1\<lparr>mg_dbTask := Some s\<rparr>" w1]) (simp_all add: m1_def)
    next
      case (scheduled s tw bs w1)
      note new_job = scheduled(2,3,4,5) [folded j1_def]
      have p: "tw_pending tw = (pending_ids m)(k \<mapsto> job_ticks j1)" using new_job(2) j1(3) by simp
      note sched = scheduled_task [OF inv g new mono j1(1,2) new_job(3) t new_job(4,1) p refl]
      from scheduled(1) sched show thesis
        by (intro that [OF _ sched(1,2)]) (auto simp: m1_def fresh p j1(3) j1_def [symmetric])
    qed
  qed
qed

section \<open>The other operations\<close>

lemma valid_item_cases:
  "valid_item_id n \<Longrightarrow> item_bytes n = item_bytes (encode_item_id (item_int64 n))"
  by (simp add: item_bytes_def item_int64_def encode_item_uint64)

lemma delete_task_spec:
  assumes env: "platform_ok P v issued" and inv: "manager_inv P v issued m"
    and id: "valid_item_id (j_uuid j)"
  obtains e m' w' where "delete_task P j m w = Ret e (m', w')" "manager_inv P v issued m'"
    "keeps P v issued {item_int64 (j_uuid j)} m m'"
    "pending_ids m' = (pending_ids m)(item_int64 (j_uuid j) := None) \<or>
     (e \<noteq> None \<and> pending_ids m' = pending_ids m)"
proof -
  let ?k = "item_int64 (j_uuid j)"
  note D = manager_invD [OF inv] and tt = platform_okD(1) [OF env]
  obtain t where t: "mg_dbTask m = Some t" using D(3) by blast
  obtain e s where del: "store_delete (pf_db P) t (item_bytes (j_uuid j)) = (e, s)"
    by (cases "store_delete (pf_db P) t (item_bytes (j_uuid j))") auto
  have key: "item_bytes (j_uuid j) = item_bytes (encode_item_id ?k)"
    by (rule valid_item_cases [OF id])
  show thesis
  proof (cases e)
    case (Some x)
    define m1 where "m1 = m\<lparr>mg_dbTask := Some s\<rparr>"
    have view: "store_view v s = store_view v t"
      using task_tables.table_facts(7) [OF tt] del Some by blast
    have keep: "keeps P v issued {} m m1"
      by (rule keeps_sameI [where t' = s, OF t]) (simp_all add: m1_def known_def view)
    have "manager_inv P v issued m1"
      by (rule manager_inv_step [OF inv keep]) (use D(1-5) in \<open>auto simp: m1_def\<close>)
    with keep show thesis
      by (intro that [of "Some x" m1 w])
        (use t del Some in \<open>auto simp: delete_task_def m1_def keeps_def\<close>)
  next
    case None
    have view: "store_view v s = (store_view v t)(item_bytes (encode_item_id ?k) := None)"
      using task_tables.table_facts(6) [OF tt] del None unfolding key by blast
    obtain b tw where tw: "tw_delete ?k (mg_tw m) = Ret b tw" "second_wheel tw"
        "tw_pending tw = (pending_ids m)(?k := None)"
      using second_wheel_delete [OF D(1)] by blast
    define m2 where "m2 = m\<lparr>mg_dbTask := Some s, mg_tw := tw\<rparr>"
    have keep: "keeps P v issued {?k} m m2"
      by (rule keeps_sameI [where t' = s, OF t]) (simp_all add: m2_def known_def view)
    have inv2: "manager_inv P v issued m2"
      by (rule manager_inv_step [OF inv keep])
        (use D(1-5) tw in \<open>auto simp: m2_def split: if_splits\<close>)
    have "\<exists>e w'. delete_task P j m w = Ret e (m2, w')"
      using t del None tw(1) by (auto simp: delete_task_def m2_def Let_def split: prod.splits)
    with keep inv2 tw(3) that show thesis by (auto simp: m2_def)
  qed
qed

lemma tick_handle_spec:
  assumes inv: "manager_inv P v issued m"
  obtains ks m' where "tick_handle m = Ret ks m'" "manager_inv P v issued m'"
    "keeps P v issued {} m m'" "distinct ks" "set ks = due (pending_ids m)"
    "pending_ids m' = tick_down (pending_ids m)"
proof -
  note D = manager_invD [OF inv]
  obtain ks tw where tw: "tw_trigger (mg_tw m) = Ret ks tw" "second_wheel tw" "distinct ks"
      "set ks = due (pending_ids m)" "tw_pending tw = tick_down (pending_ids m)"
    using second_wheel_trigger [OF D(1)] by blast
  let ?m = "m\<lparr>mg_tw := tw\<rparr>"
  have keep: "keeps P v issued {} m ?m"
    using D(3) by (auto simp: keeps_def known_def stored_job_def)
  have "manager_inv P v issued ?m"
    by (rule manager_inv_step [OF inv keep])
      (use D(1-5) tw in \<open>auto simp: tick_down_Some_iff\<close>)
  with keep tw show thesis by (intro that [of ks ?m]) (simp_all add: tick_handle_def)
qed

lemma watch_handle_spec:
  assumes inv: "manager_inv P v issued m" and run: "watch_handle ev m = Ret u m'"
  shows "manager_inv P v issued m' \<and> keeps P v issued {} m m' \<and> pending_ids m' = pending_ids m"
proof -
  note D = manager_invD [OF inv]
  from run obtain t where t: "handle_watch (mg_moduleRoot m) ev (mg_modules m) = Inr t"
      "m' = m\<lparr>mg_modules := t\<rparr>"
    by (auto simp: watch_handle_def split: sum.splits)
  have keep: "keeps P v issued {} m m'"
    using D(3) by (auto simp: keeps_def known_def stored_job_def t(2))
  have "manager_inv P v issued m'"
    by (rule manager_inv_step [OF inv keep])
      (use D(1-5) handle_watch_ok [OF t(1) D(2)] in \<open>auto simp: t(2)\<close>)
  with keep show ?thesis by (simp add: t(2))
qed

text \<open>An execution, panicking or not, writes the result table, the feed and the world only.\<close>

lemma execute_one_result_table [frame_simps]:
  "fst s \<noteq> None \<Longrightarrow> fst (outcome_state (execute_one P m tid j s)) \<noteq> None"
  by (auto simp: execute_one_def failed_result_def split: prod.splits option.splits sum.splits outcome.splits)

lemma execute_loop_result_table [frame_simps]:
  "fst s \<noteq> None \<Longrightarrow> fst (outcome_state (execute_loop P m tids j s)) \<noteq> None"
proof (induction P m tids j s rule: execute_loop.induct)
  case (2 P m tid tids j s)
  have one: "fst (outcome_state (execute_one P m tid j s)) \<noteq> None"
    by (rule execute_one_result_table [OF "2.prems"])
  show ?case
  proof (cases "execute_one P m tid j s")
    case (Ret rj s1)
    obtain r j1 where rj: "rj = (r, j1)" by force
    from "2.IH" [OF Ret rj [symmetric]] one Ret have "fst (outcome_state (execute_loop P m tids j1 s1)) \<noteq> None"
      by simp
    then show ?thesis
      by (cases "execute_loop P m tids j1 s1") (simp_all add: Ret rj)
  qed (use one in simp)
qed simp

lemma execute_handle_frame:
  obtains d rs w' where
    "outcome_state (execute_handle P tids m w) = (m\<lparr>mg_dbResult := d, mg_results := rs\<rparr>, w')"
    "mg_dbResult m \<noteq> None \<Longrightarrow> d \<noteq> None"
proof -
  let ?l = "execute_loop P m tids zero_job (mg_dbResult m, w)"
  have d: "mg_dbResult m \<noteq> None \<Longrightarrow> fst (outcome_state ?l) \<noteq> None"
    by (rule execute_loop_result_table) simp
  show thesis
  proof (cases ?l)
    case (Ret rs s)
    with d that show thesis
      by (cases s) (auto simp: execute_handle_def)
  next
    case (Panic p s)
    moreover have "mg_results m = mg_results (m\<lparr>mg_dbResult := fst s\<rparr>)" by simp
    ultimately show thesis
      using d that [where d = "fst s" and rs = "mg_results m" and w' = "snd s"]
      by (cases s) (auto simp: execute_handle_def)
  qed
qed

lemma execute_handle_spec:
  assumes inv: "manager_inv P v issued m"
    and run: "outcome_state (execute_handle P tids m w) = (m', w')"
  shows "manager_inv P v issued m' \<and> keeps P v issued {} m m' \<and> pending_ids m' = pending_ids m"
proof -
  note D = manager_invD [OF inv]
  obtain d rs where m': "m' = m\<lparr>mg_dbResult := d, mg_results := rs\<rparr>" "d \<noteq> None"
    using execute_handle_frame [of P tids m w] run D(4) by (metis Pair_inject)
  have keep: "keeps P v issued {} m m'"
    using D(3) by (auto simp: keeps_def known_def stored_job_def m')
  have "manager_inv P v issued m'"
    by (rule manager_inv_step [OF inv keep]) (use D(1-5) m' in auto)
  with keep show ?thesis by (simp add: m')
qed

section \<open>Steps and runs\<close>

record ('w, 'g, 'db) system =
  sy_mgr :: "('g, 'db) manager"
  sy_world :: 'w
  sy_batches :: "i64 list list"

datatype label =
    Added job i64
  | Refused job error
  | Deleted job "error option"
  | Ticked "i64 list"
  | Executed "i64 list"
  | Watched watch_event
  | Stopped

inductive manager_step ::
  "('w, 'g, 'db) platform \<Rightarrow> ('w, 'g, 'db) system \<Rightarrow> label \<Rightarrow> ('w, 'g, 'db) system \<Rightarrow> bool" for P where
  added: "add_task P j m w = Ret (Inr k) (m', w') \<Longrightarrow>
     manager_step P \<lparr>sy_mgr = m, sy_world = w, sy_batches = B\<rparr> (Added j k)
       \<lparr>sy_mgr = m', sy_world = w', sy_batches = B\<rparr>"
| refused: "add_task P j m w = Ret (Inl e) (m', w') \<Longrightarrow>
     manager_step P \<lparr>sy_mgr = m, sy_world = w, sy_batches = B\<rparr> (Refused j e)
       \<lparr>sy_mgr = m', sy_world = w', sy_batches = B\<rparr>"
| deleted: "delete_task P j m w = Ret e (m', w') \<Longrightarrow>
     manager_step P \<lparr>sy_mgr = m, sy_world = w, sy_batches = B\<rparr> (Deleted j e)
       \<lparr>sy_mgr = m', sy_world = w', sy_batches = B\<rparr>"
| ticked: "tick_handle m = Ret ks m' \<Longrightarrow>
     manager_step P \<lparr>sy_mgr = m, sy_world = w, sy_batches = B\<rparr> (Ticked ks)
       \<lparr>sy_mgr = m', sy_world = w, sy_batches = (if ks = [] then B else B @ [ks])\<rparr>"
| executed: "execute_handle P ks m w = Ret () (m', w') \<Longrightarrow>
     manager_step P \<lparr>sy_mgr = m, sy_world = w, sy_batches = B @ ks # B'\<rparr> (Executed ks)
       \<lparr>sy_mgr = m', sy_world = w', sy_batches = B @ B'\<rparr>"
| watched: "watch_handle ev m = Ret () m' \<Longrightarrow>
     manager_step P \<lparr>sy_mgr = m, sy_world = w, sy_batches = B\<rparr> (Watched ev)
       \<lparr>sy_mgr = m', sy_world = w, sy_batches = B\<rparr>"
| stopped: "manager_step P \<lparr>sy_mgr = m, sy_world = w, sy_batches = B\<rparr> Stopped
       \<lparr>sy_mgr = manager_stop m, sy_world = w, sy_batches = B\<rparr>"

text \<open>\<open>Stop\<close> cancels the context, and the \<open>select\<close> of \<open>loop\<close> chooses at random among what is ready: it may take any number of
  ticks and watcher events before it takes \<open>ctx.Done()\<close>, and a batch in hand is still executed, so a run may go on
  after \<open>Stopped\<close>. A panic ends the program and has no next state; these are the panics of the methods and the loop.\<close>

inductive manager_panics :: "('w, 'g, 'db) platform \<Rightarrow> ('w, 'g, 'db) system \<Rightarrow> panic \<Rightarrow> bool" for P where
  add_panics: "add_task P j (sy_mgr s) (sy_world s) = Panic p x \<Longrightarrow> manager_panics P s p"
| delete_panics: "delete_task P j (sy_mgr s) (sy_world s) = Panic p x \<Longrightarrow> manager_panics P s p"
| tick_panics: "tick_handle (sy_mgr s) = Panic p m \<Longrightarrow> manager_panics P s p"
| execute_panics: "ks \<in> set (sy_batches s) \<Longrightarrow> execute_handle P ks (sy_mgr s) (sy_world s) = Panic p x \<Longrightarrow>
     manager_panics P s p"
| watch_panics: "watch_handle ev (sy_mgr s) = Panic p m \<Longrightarrow> manager_panics P s p"

inductive_cases added_stepE: "manager_step P s (Added j k) s'"
inductive_cases ticked_stepE: "manager_step P s (Ticked ks) s'"
inductive_cases executed_stepE: "manager_step P s (Executed ks) s'"

inductive manager_run ::
  "('w, 'g, 'db) platform \<Rightarrow> ('w, 'g, 'db) system \<Rightarrow> label list \<Rightarrow> ('w, 'g, 'db) system \<Rightarrow> bool" for P where
  idle: "manager_run P s [] s"
| step: "manager_step P s l s1 \<Longrightarrow> manager_run P s1 ls s2 \<Longrightarrow> manager_run P s (l # ls) s2"

inductive_simps manager_run_Nil [simp]: "manager_run P s [] s'"
inductive_simps manager_run_Cons: "manager_run P s (l # ls) s'"

text \<open>The requests of a run: jobs with acceptable delays, and identifiers of eight bytes.\<close>

fun label_ok :: "label \<Rightarrow> bool" where
  "label_ok (Added j k) = acceptable j"
| "label_ok (Refused j e) = acceptable j"
| "label_ok (Deleted j e) = valid_item_id (j_uuid j)"
| "label_ok _ = True"

fun deletes :: "i64 \<Rightarrow> label \<Rightarrow> bool" where
  "deletes k (Deleted j e) = (item_int64 (j_uuid j) = k)"
| "deletes k _ = False"

fun is_tick :: "label \<Rightarrow> bool" where
  "is_tick (Ticked ks) = True"
| "is_tick _ = False"

fun fires :: "i64 \<Rightarrow> label \<Rightarrow> bool" where
  "fires k (Ticked ks) = (k \<in> set ks)"
| "fires k _ = False"

definition tick_count :: "label list \<Rightarrow> nat" where
  "tick_count ls = length (filter is_tick ls)"

lemma tick_count_simps [simp]:
  "tick_count [] = 0" "tick_count (l # ls) = (if is_tick l then Suc (tick_count ls) else tick_count ls)"
  by (simp_all add: tick_count_def)

abbreviation system_inv where
  "system_inv P v issued s \<equiv> manager_inv P v issued (sy_mgr s)"

text \<open>The four kinds of change to the schedule, for calls that have returned.\<close>

lemma add_task_ret:
  assumes "platform_ok P v issued" "manager_inv P v issued m" "acceptable j" "add_task P j m w = Ret r (m', w')"
  shows "manager_inv P v issued m'" "keeps P v issued {k. k \<notin> known issued m} m m'"
    "r = Inl e \<Longrightarrow> pending_ids m' = pending_ids m"
    "r = Inr k \<Longrightarrow> pending_ids m' = (pending_ids m)(k \<mapsto> job_ticks j)"
    "r = Inr k \<Longrightarrow> pending_ids m k = None \<and> k \<notin> known issued m \<and> k \<in> known issued m' \<and>
       stored_job P v m' k (j\<lparr>j_uuid := encode_item_id k\<rparr>)"
proof -
  have "manager_inv P v issued m' \<and> keeps P v issued {k. k \<notin> known issued m} m m' \<and>
      (\<forall>e. r = Inl e \<longrightarrow> pending_ids m' = pending_ids m) \<and>
      (\<forall>k. r = Inr k \<longrightarrow> pending_ids m' = (pending_ids m)(k \<mapsto> job_ticks j) \<and> pending_ids m k = None \<and>
         k \<notin> known issued m \<and> k \<in> known issued m' \<and> stored_job P v m' k (j\<lparr>j_uuid := encode_item_id k\<rparr>))"
    by (rule add_task_spec [OF assms(1-3), of w]) (use assms(4) in simp)
  then show "manager_inv P v issued m'" "keeps P v issued {k. k \<notin> known issued m} m m'"
    "r = Inl e \<Longrightarrow> pending_ids m' = pending_ids m"
    "r = Inr k \<Longrightarrow> pending_ids m' = (pending_ids m)(k \<mapsto> job_ticks j)"
    "r = Inr k \<Longrightarrow> pending_ids m k = None \<and> k \<notin> known issued m \<and> k \<in> known issued m' \<and>
       stored_job P v m' k (j\<lparr>j_uuid := encode_item_id k\<rparr>)" by blast+
qed

lemma delete_task_ret:
  assumes "platform_ok P v issued" "manager_inv P v issued m" "valid_item_id (j_uuid j)" "delete_task P j m w = Ret e (m', w')"
  shows "manager_inv P v issued m'" "keeps P v issued {item_int64 (j_uuid j)} m m'"
    "pending_ids m' = (pending_ids m)(item_int64 (j_uuid j) := None) \<or> pending_ids m' = pending_ids m"
  by (rule delete_task_spec [OF assms(1-3), of w]; use assms(4) in auto)+

lemma tick_handle_ret:
  assumes "manager_inv P v issued m" "tick_handle m = Ret ks m'"
  shows "manager_inv P v issued m'" "keeps P v issued {} m m'" "distinct ks" "set ks = due (pending_ids m)"
    "pending_ids m' = tick_down (pending_ids m)"
  by (rule tick_handle_spec [OF assms(1)]; use assms(2) in simp)+

lemma manager_stop_inv:
  assumes "manager_inv P v issued m"
  shows "manager_inv P v issued (manager_stop m)" "keeps P v issued {} m (manager_stop m)"
proof -
  show keep: "keeps P v issued {} m (manager_stop m)"
    by (simp add: keeps_def known_def stored_job_def manager_stop_def)
  show "manager_inv P v issued (manager_stop m)"
    by (rule manager_inv_step [OF assms keep]) (use manager_invD(1-5) [OF assms] in \<open>auto simp: manager_stop_def\<close>)
qed

text \<open>What one step does to the invariant, to a pending identifier, and to one that is not pending.\<close>

definition step_ok ::
  "('w, 'g, 'db) platform \<Rightarrow> ('db \<Rightarrow> bytes \<Rightarrow> bytes option) \<Rightarrow> ('g \<Rightarrow> i64 set) \<Rightarrow> i64 \<Rightarrow> label \<Rightarrow>
    ('g, 'db) manager \<Rightarrow> ('g, 'db) manager \<Rightarrow> bool" where
  "step_ok P v issued k l m m' \<longleftrightarrow> manager_inv P v issued m' \<and> known issued m \<subseteq> known issued m' \<and>
     (k \<in> known issued m \<longrightarrow> \<not> deletes k l \<longrightarrow>
       (\<forall>j. stored_job P v m k j \<longrightarrow> stored_job P v m' k j) \<and>
       pending_ids m' k = (if is_tick l then tick_down (pending_ids m) k else pending_ids m k) \<and>
       (fires k l \<longleftrightarrow> is_tick l \<and> pending_ids m k = Some 0)) \<and>
     (k \<in> known issued m \<longrightarrow> pending_ids m k = None \<longrightarrow> pending_ids m' k = None \<and> \<not> fires k l)"

text \<open>A step that is no tick, changes what is stored for \<open>ks\<close> only, and what is pending for deleted or new identifiers.\<close>

lemma step_okI:
  assumes "manager_inv P v issued m'" "keeps P v issued ks m m'" "\<not> is_tick l" "\<not> fires k l"
    and "k \<in> known issued m \<Longrightarrow> \<not> deletes k l \<Longrightarrow> k \<notin> ks"
    and "k \<in> known issued m \<Longrightarrow> pending_ids m' k = pending_ids m k \<or> deletes k l \<and> pending_ids m' k = None"
  shows "step_ok P v issued k l m m'"
  using assms by (auto simp: step_ok_def keeps_def)

lemma manager_step_ok:
  assumes env: "platform_ok P v issued" and step: "manager_step P s l s'"
    and inv: "system_inv P v issued s" and ok: "label_ok l"
  shows "step_ok P v issued k l (sy_mgr s) (sy_mgr s')"
  using step inv ok
proof cases
  case (added j m w i m' w' B)
  then have "manager_inv P v issued m" "acceptable j" using inv ok by simp_all
  note ret = add_task_ret [OF env this added(4)]
  show ?thesis by (rule step_okI [where ks = "{k. k \<notin> known issued (sy_mgr s)}"]) (use added ret(1,2,4,5) in auto)
next
  case (refused j m w e m' w' B)
  then have "manager_inv P v issued m" "acceptable j" using inv ok by simp_all
  note ret = add_task_ret [OF env this refused(4)]
  show ?thesis by (rule step_okI [where ks = "{k. k \<notin> known issued (sy_mgr s)}"]) (use refused ret(1,2,3) in auto)
next
  case (deleted j m w e m' w' B)
  then have "manager_inv P v issued m" "valid_item_id (j_uuid j)" using inv ok by simp_all
  note ret = delete_task_ret [OF env this deleted(4)]
  show ?thesis by (rule step_okI [where ks = "{item_int64 (j_uuid j)}"]) (use deleted ret in \<open>auto split: if_splits\<close>)
next
  case (ticked m ks m' w B)
  then have "manager_inv P v issued m" using inv by simp
  from tick_handle_ret [OF this ticked(4)] ticked show ?thesis
    by (auto simp: step_ok_def keeps_def due_def tick_down_None_iff)
next
  case (executed ks m w m' w' B B')
  then have "manager_inv P v issued m" "outcome_state (execute_handle P ks m w) = (m', w')" using inv by simp_all
  from execute_handle_spec [OF this] executed show ?thesis by (intro step_okI [where ks = "{}"]) auto
next
  case (watched ev m m' w B)
  then have "manager_inv P v issued m" using inv by simp
  from watch_handle_spec [OF this watched(4)] watched show ?thesis by (intro step_okI [where ks = "{}"]) auto
next
  case (stopped m w B)
  with inv manager_stop_inv [of P v issued m] show ?thesis
    by (intro step_okI [where ks = "{}"]) (auto simp: manager_stop_def)
qed

lemma manager_step_spec:
  assumes env: "platform_ok P v issued" and step: "manager_step P s l s'"
    and inv: "system_inv P v issued s" and ok: "label_ok l"
  shows "system_inv P v issued s'"
    and "known issued (sy_mgr s) \<subseteq> known issued (sy_mgr s')"
    and "k \<in> known issued (sy_mgr s) \<Longrightarrow> \<not> deletes k l \<Longrightarrow>
      (\<forall>j. stored_job P v (sy_mgr s) k j \<longrightarrow> stored_job P v (sy_mgr s') k j) \<and>
      pending_ids (sy_mgr s') k =
        (if is_tick l then tick_down (pending_ids (sy_mgr s)) k else pending_ids (sy_mgr s) k) \<and>
      (fires k l \<longleftrightarrow> is_tick l \<and> pending_ids (sy_mgr s) k = Some 0)"
    and "k \<in> known issued (sy_mgr s) \<Longrightarrow> pending_ids (sy_mgr s) k = None \<Longrightarrow>
      pending_ids (sy_mgr s') k = None \<and> \<not> fires k l"
  using manager_step_ok [OF assms, of k] unfolding step_ok_def by blast+

lemma manager_run_inv:
  assumes "platform_ok P v issued" "manager_run P s ls s'"
  shows "system_inv P v issued s \<Longrightarrow> \<forall>l \<in> set ls. label_ok l \<Longrightarrow> system_inv P v issued s'"
  using assms(2) by induction (use manager_step_spec(1) [OF assms(1)] in auto)

text \<open>In a state that satisfies the invariant neither a tick nor a request with an acceptable job or an identifier of eight
  bytes panics.\<close>

lemma panics_of_running_system:
  assumes "platform_ok P v issued" "manager_panics P s p" "system_inv P v issued s"
  shows "(\<exists>j x. \<not> acceptable j \<and> add_task P j (sy_mgr s) (sy_world s) = Panic p x) \<or>
    (\<exists>j x. \<not> valid_item_id (j_uuid j) \<and> delete_task P j (sy_mgr s) (sy_world s) = Panic p x) \<or>
    (\<exists>ks x. ks \<in> set (sy_batches s) \<and> execute_handle P ks (sy_mgr s) (sy_world s) = Panic p x) \<or>
    (\<exists>ev m. watch_handle ev (sy_mgr s) = Panic p m)"
  using assms(2)
proof cases
  case (add_panics j x)
  have "\<not> acceptable j"
  proof
    assume "acceptable j"
    then show False by (rule add_task_spec [OF assms(1,3), of j "sy_world s"]) (simp add: add_panics)
  qed
  with add_panics show ?thesis by blast
next
  case (delete_panics j x)
  have "\<not> valid_item_id (j_uuid j)"
  proof
    assume "valid_item_id (j_uuid j)"
    then show False by (rule delete_task_spec [OF assms(1,3), of j "sy_world s"]) (simp add: delete_panics)
  qed
  with delete_panics show ?thesis by blast
next
  case (tick_panics m)
  have False by (rule tick_handle_spec [OF assms(3)]) (simp add: tick_panics)
  then show ?thesis ..
qed blast+

text \<open>A pending identifier over a run that does not delete it: its count falls with the ticks, it
  fires at the tick that finds the count at zero, and its stored job stays.\<close>

lemma manager_run_fires:
  assumes env: "platform_ok P v issued" and run: "manager_run P s ls s'"
    and "system_inv P v issued s" "\<forall>l \<in> set ls. label_ok l \<and> \<not> deletes k l"
    and "k \<in> known issued (sy_mgr s)" "i < length ls"
  shows "fires k (ls ! i) \<longleftrightarrow>
    is_tick (ls ! i) \<and> pending_ids (sy_mgr s) k = Some (tick_count (take i ls))"
  using run assms(3-)
proof (induction arbitrary: i)
  case (step s l s1 ls s2)
  from step.prems have l: "label_ok l" "\<not> deletes k l" by simp_all
  note spec = manager_step_spec [OF env step.hyps(1) step.prems(1) l(1)]
  have k: "k \<in> known issued (sy_mgr s1)" using spec(2) step.prems(3) by blast
  note frame = spec(3) [OF step.prems(3) l(2)]
  show ?case
  proof (cases i)
    case 0
    then show ?thesis using frame by simp
  next
    case (Suc n)
    with step.prems step.IH [OF spec(1) _ k, of n] frame show ?thesis
      by (auto simp: tick_down_Some_iff)
  qed
qed simp

lemma manager_run_keeps:
  assumes env: "platform_ok P v issued" and run: "manager_run P s ls s'"
    and "system_inv P v issued s" "\<forall>l \<in> set ls. label_ok l \<and> \<not> deletes k l"
    and "k \<in> known issued (sy_mgr s)" "stored_job P v (sy_mgr s) k j"
  shows "stored_job P v (sy_mgr s') k j \<and> k \<in> known issued (sy_mgr s')"
  using run assms(3-)
proof induction
  case (step s l s1 ls s2)
  from step.prems have l: "label_ok l" "\<not> deletes k l" by simp_all
  note spec = manager_step_spec [OF env step.hyps(1) step.prems(1) l(1)]
  have k: "k \<in> known issued (sy_mgr s1)" using spec(2) step.prems(3) by blast
  have j: "stored_job P v (sy_mgr s1) k j" using spec(3) [OF step.prems(3) l(2)] step.prems(4) by blast
  show ?case by (rule step.IH [OF spec(1) _ k j]) (use step.prems in simp)
qed simp

lemma manager_run_silent:
  assumes env: "platform_ok P v issued" and run: "manager_run P s ls s'"
    and "system_inv P v issued s" "\<forall>l \<in> set ls. label_ok l"
    and "k \<in> known issued (sy_mgr s)" "pending_ids (sy_mgr s) k = None"
  shows "\<forall>l \<in> set ls. \<not> fires k l"
  using run assms(3-)
proof induction
  case (step s l s1 ls s2)
  from step.prems have l: "label_ok l" by simp
  note spec = manager_step_spec [OF env step.hyps(1) step.prems(1) l]
  have k: "k \<in> known issued (sy_mgr s1)" using spec(2) step.prems(3) by blast
  note quiet = spec(4) [OF step.prems(3,4)]
  have "\<forall>l \<in> set ls. \<not> fires k l"
    by (rule step.IH [OF spec(1) _ k]) (use step.prems quiet in auto)
  with quiet show ?case by simp
qed simp

end
