(* ===== verification/Manager_Correct.thy ===== *)
theory Manager_Correct
  imports Manager_Steps
begin

text \<open>
  The properties of the task manager: what \<open>Start\<close> establishes, when a task fires, what an
  execution does and stores, and where the code departs from what it is meant to do. A
  platform in memory, defined first, shows that the hypotheses about the platform can be met.
\<close>

section \<open>A platform in memory\<close>

text \<open>The world is a clock that gains a second at every reading, and a map of files.\<close>

type_synonym sample_world = "int \<times> (string \<Rightarrow> bytes option)"

definition sample_next_id :: "nat \<Rightarrow> (error + i64) \<times> nat" where
  "sample_next_id n =
     (if n < 2 ^ 64 then (Inr (word_of_nat n), Suc n) else (Inl (ErrExt ''over the time limit''), n))"

definition sample_issued :: "nat \<Rightarrow> i64 set" where
  "sample_issued n = word_of_nat ` {..<n}"

definition sample_platform :: "(sample_world, nat, bytes \<Rightarrow> bytes option) platform" where
  "sample_platform = \<lparr>
     pf_now = (\<lambda>(t, fs). (t, (t + second, fs))),
     pf_exec_cmd = (\<lambda>c retry w. (bytes_of_str c, None, w)),
     pf_exec_file = (\<lambda>p retry (t, fs). case fs p of
        None \<Rightarrow> ([], Some (ErrExt ''no such file''), (t, fs)) | Some b \<Rightarrow> (b, None, (t, fs))),
     pf_write_file = (\<lambda>p b (t, fs). (None, (t, fs(p \<mapsto> b)))),
     pf_file_exist = (\<lambda>p (t, fs). fs p \<noteq> None),
     pf_remove_file = (\<lambda>p (t, fs). (None, (t, fs(p := None)))),
     pf_mkdir_all = (\<lambda>p w. (None, w)),
     pf_file_list = (\<lambda>p suf w. Inr [''/data/modules/hello@0.0.1.so'']),
     pf_open_db = (\<lambda>p w. (Inr Map.empty, w)),
     pf_watch = (\<lambda>p w. (None, w)),
     pf_new_worker = (\<lambda>i. Inr 1),
     pf_next_id = sample_next_id,
     pf_subscribe = (\<lambda>w. True),
     pf_db = sample_leveldb,
     pf_hex = sample_hexutil,
     pf_plugins = \<lparr>pl_open = (\<lambda>f w. (Inl (ErrExt ''plugin.Open''), w))\<rparr>\<rparr>"

lemma sample_platform_fields [simp]:
  "pf_now sample_platform w = (fst w, (fst w + second, snd w))"
  "pf_exec_cmd sample_platform c retry w = (bytes_of_str c, None, w)"
  "pf_mkdir_all sample_platform p w = (None, w)"
  "pf_write_file sample_platform p b w = (None, (fst w, (snd w)(p \<mapsto> b)))"
  "pf_file_exist sample_platform p w = (snd w p \<noteq> None)"
  "pf_remove_file sample_platform p w = (None, (fst w, (snd w)(p := None)))"
  "pf_file_list sample_platform p suf w = Inr [''/data/modules/hello@0.0.1.so'']"
  "pf_open_db sample_platform p w = (Inr Map.empty, w)"
  "pf_watch sample_platform p w = (None, w)"
  "pf_new_worker sample_platform i = Inr 1"
  "pf_next_id sample_platform = sample_next_id"
  "pf_subscribe sample_platform w = True"
  "pf_db sample_platform = sample_leveldb"
  "pf_hex sample_platform = sample_hexutil"
  by (cases w; simp add: sample_platform_def)+

lemma sample_fresh_ids: "fresh_ids sample_next_id sample_issued"
proof -
  have "word_of_nat n \<notin> sample_issued n" if "n < 2 ^ 64" for n
  proof
    assume "word_of_nat n \<in> sample_issued n"
    then obtain i where i: "i < n" "(word_of_nat n :: i64) = word_of_nat i"
      by (auto simp: sample_issued_def)
    then have "unat (word_of_nat n :: i64) = unat (word_of_nat i :: i64)" by simp
    with that i(1) show False by (simp add: unat_of_nat)
  qed
  then show ?thesis
    by (auto simp: fresh_ids_def sample_next_id_def sample_issued_def lessThan_Suc split: if_splits)
qed

lemma sample_platform_ok: "platform_ok sample_platform (\<lambda>d. d) sample_issued"
  using sample_fresh_ids sample_tables.task_tables_axioms
  by (simp add: platform_ok_def)

section \<open>Start\<close>

lemma new_manager_ok:
  assumes "new_manager dataDir = Inr m"
  shows "second_wheel (mg_tw m)" "pending_ids m = Map.empty" "mg_modules m = []"
    "mg_isRunning m = False" "mg_root m = dataDir"
proof -
  have d: "DefaultInterval = defaultInterval" "DefaultSlotNum = 3600"
    by (simp_all add: DefaultInterval_def defaultInterval_def DefaultSlotNum_def second_def)
  from assms obtain tw where tw: "new_time_wheel defaultInterval 3600 = Inr tw" "mg_tw m = tw"
    by (auto simp: new_manager_def new_manager_with_time_wheel_def d split: sum.splits if_splits)
  from fresh_wheel [OF tw(1)] tw(2) show "second_wheel (mg_tw m)" "pending_ids m = Map.empty"
    by simp_all
  from assms show "mg_modules m = []" "mg_isRunning m = False" "mg_root m = dataDir"
    by (auto simp: new_manager_def new_manager_with_time_wheel_def split: sum.splits if_splits)
qed

lemma start_services_ret:
  assumes "start_services P m w = Ret r (m', w')" "mg_isRunning m = False" "table_ok (mg_modules m)"
  shows "mg_tw m' = mg_tw m \<and> mg_genID m' = mg_genID m \<and> mg_dbTask m' = mg_dbTask m \<and>
    mg_dbResult m' = mg_dbResult m \<and> table_ok (mg_modules m') \<and> mg_moduleRoot m' = mg_moduleRoot m \<and>
    mg_cmdRoot m' = mg_cmdRoot m \<and> (mg_isRunning m' \<longleftrightarrow> r = None) \<and>
    (r = None \<longrightarrow> (\<exists>fs. pf_file_list P (mg_moduleRoot m) ''so'' w = Inr fs \<and>
       load_files (mg_moduleRoot m) fs (mg_modules m) = Inr (mg_modules m')))"
proof (cases "pf_file_list P (mg_moduleRoot m) ''so'' w")
  case (Inl e)
  with assms show ?thesis by (auto simp: start_services_def load_modules_def)
next
  case (Inr fs)
  with assms(1) obtain t where t: "load_files (mg_moduleRoot m) fs (mg_modules m) = Inr t"
    by (auto simp: start_services_def load_modules_def split: sum.splits)
  with load_files_ok [OF t assms(3)] Inr assms(1,2) show ?thesis
    by (auto simp: start_services_def load_modules_def files_watcher_def split: if_splits prod.splits option.splits)
qed

lemma open_tables_ret:
  "open_tables P m w = (None, m', w') \<Longrightarrow>
     \<exists>d d'. m' = m\<lparr>mg_dbTask := Some (new_store d TaskPrefix), mg_dbResult := Some (new_store d' ResultPrefix)\<rparr>"
  by (auto simp: open_tables_def Let_def split: prod.splits sum.splits)

lemma open_tables_running: "open_tables P m w = (e, m', w') \<Longrightarrow> mg_isRunning m' = mg_isRunning m"
  by (auto simp: open_tables_def Let_def split: prod.splits sum.splits)

lemma start_ret:
  assumes "new_manager dataDir = Inr m" "manager_start P nodeID m w = Ret r (m', w')"
  shows "case r of Some e \<Rightarrow> \<not> mg_isRunning m'
    | None \<Rightarrow> mg_isRunning m' \<and> manager_inv P v issued m' \<and> pending_ids m' = Map.empty \<and>
        mg_moduleRoot m' = path_join [dataDir, DefaultPluginDir] \<and>
        mg_cmdRoot m' = path_join [dataDir, DefaultCmdDir] \<and>
        (\<exists>fs w1. pf_file_list P (mg_moduleRoot m') ''so'' w1 = Inr fs \<and>
           load_files (mg_moduleRoot m') fs [] = Inr (mg_modules m'))"
proof -
  note new = new_manager_ok [OF assms(1)]
  obtain e1 w1 where mk1: "pf_mkdir_all P (path_join [mg_root m, DefaultPluginDir]) w = (e1, w1)" by force
  obtain e2 w2 where mk2: "pf_mkdir_all P (path_join [mg_root m, DefaultCmdDir]) w1 = (e2, w2)" by force
  define m2 where "m2 = m\<lparr>mg_moduleRoot := path_join [mg_root m, DefaultPluginDir],
    mg_cmdRoot := path_join [mg_root m, DefaultCmdDir]\<rparr>"
  show ?thesis
  proof (cases "e1 = None \<and> e2 = None \<and> (\<exists>g. pf_new_worker P (word_of_int (fst (parse_int nodeID))) = Inr g)")
    case False
    with assms(2) mk1 mk2 new show ?thesis
      by (auto simp: manager_start_def Let_def split: option.splits sum.splits)
  next
    case True
    then obtain g where g: "pf_new_worker P (word_of_int (fst (parse_int nodeID))) = Inr g" by blast
    obtain e3 m3 w3 where ot: "open_tables P (m2\<lparr>mg_genID := Some g\<rparr>) w2 = (e3, m3, w3)" by (metis prod_cases3)
    have start: "manager_start P nodeID m w =
        (case e3 of Some e \<Rightarrow> Ret (Some e) (m3, w3) | None \<Rightarrow> start_services P m3 w3)"
      using True mk1 mk2 g ot by (cases e3) (simp_all add: manager_start_def m2_def Let_def)
    show ?thesis
    proof (cases e3)
      case (Some e)
      with start assms(2) open_tables_running [OF ot] new show ?thesis by (auto simp: m2_def)
    next
      case None
      from open_tables_ret [OF ot [unfolded None]] obtain d d' where
        m3: "m3 = m2\<lparr>mg_genID := Some g, mg_dbTask := Some (new_store d TaskPrefix),
           mg_dbResult := Some (new_store d' ResultPrefix)\<rparr>" by auto
      have m3f: "mg_tw m3 = mg_tw m" "mg_modules m3 = []" "mg_isRunning m3 = False"
        "mg_moduleRoot m3 = path_join [dataDir, DefaultPluginDir]"
        "mg_cmdRoot m3 = path_join [dataDir, DefaultCmdDir]" "table_ok (mg_modules m3)"
        using new by (simp_all add: m3 m2_def table_ok_def)
      have "start_services P m3 w3 = Ret r (m', w')" using start None assms(2) by simp
      from start_services_ret [OF this m3f(3,6)] new m3f
      show ?thesis by (cases r) (auto simp: manager_inv_def m3)
    qed
  qed
qed

lemma start_inv:
  "new_manager dataDir = Inr m \<Longrightarrow> manager_start P nodeID m w = Ret None (m', w') \<Longrightarrow>
     manager_inv P v issued m'"
  using start_ret [where r = None] by fastforce

text \<open>C13: When \<open>Start\<close> returns no error on a new manager, the manager is running, holds
  the modules that \<open>loadModules\<close> found in its \<open>modules\<close> directory, and satisfies the invariant of the
  running system; when it returns an error, the manager is not running.\<close>

theorem start_establishes_invariant:
  assumes "new_manager dataDir = Inr m" "manager_start P nodeID m w = Ret r (m', w')"
  shows "case r of Some e \<Rightarrow> \<not> mg_isRunning m'
    | None \<Rightarrow> mg_isRunning m' \<and> manager_inv P v issued m' \<and> pending_ids m' = Map.empty \<and>
        mg_moduleRoot m' = path_join [dataDir, DefaultPluginDir] \<and>
        mg_cmdRoot m' = path_join [dataDir, DefaultCmdDir] \<and>
        (\<exists>fs w1. pf_file_list P (mg_moduleRoot m') ''so'' w1 = Inr fs \<and>
           load_files (mg_moduleRoot m') fs [] = Inr (mg_modules m'))"
  using start_ret [OF assms, of v issued] .

lemma sample_started:
  obtains m0 m w where "new_manager ''/data'' = Inr m0"
    "manager_start sample_platform ''7'' m0 (0, Map.empty) = Ret None (m, w)"
proof -
  obtain tw where "new_time_wheel defaultInterval 3600 = Inr tw" by (rule fresh_wheel_exists)
  moreover have "DefaultInterval = defaultInterval" "DefaultSlotNum = 3600"
    by (simp_all add: DefaultInterval_def defaultInterval_def DefaultSlotNum_def second_def)
  ultimately obtain m0 :: "(nat, bytes \<Rightarrow> bytes option) manager" where
    new: "new_manager ''/data'' = Inr m0"
    by (simp add: new_manager_def new_manager_with_time_wheel_def MaxChanSize_def)
  have "path_base ''/data/modules/hello@0.0.1.so'' = ''hello@0.0.1.so''"
    using path_base_slash [of "''hello@0.0.1.so''" "''/data/modules''"] by simp
  moreover have "parse_module_name ''hello@0.0.1.so'' = Inr (''hello'', ''0.0.1'')"
    using parse_module_name_at [of "''hello''" "''0.0.1.so''"] by simp
  ultimately have files: "\<exists>t'. load_files r [''/data/modules/hello@0.0.1.so''] t = Inr t'" for r t
    by (simp add: Let_def)
  obtain t' where "load_files (path_join [''/data'', DefaultPluginDir])
      [''/data/modules/hello@0.0.1.so''] [] = Inr t'" using files by blast
  then have serve: "\<exists>m' t fs. start_services sample_platform m w = Ret None (m', t, fs)"
    if "mg_moduleRoot m = path_join [''/data'', DefaultPluginDir]" "mg_modules m = []"
    for m :: "(nat, bytes \<Rightarrow> bytes option) manager" and w
    using that by (cases w) (simp add: start_services_def load_modules_def files_watcher_def)
  have "\<exists>m w. manager_start sample_platform ''7'' m0 (0, Map.empty) = Ret None (m, w)"
    using new_manager_ok [OF new]
    by (simp add: manager_start_def open_tables_def Let_def) (rule serve; simp)
  with new that show thesis by blast
qed

lemma sample_start_gen:
  "manager_start sample_platform nodeID m0 w0 = Ret None (m, w) \<Longrightarrow> mg_genID m = Some 1"
  by (auto simp: manager_start_def open_tables_def start_services_def load_modules_def files_watcher_def Let_def
      split: sum.splits option.splits if_splits)

theorem start_establishes_invariant_witness:
  "\<exists>m0 m w. new_manager ''/data'' = Inr m0 \<and>
     manager_start sample_platform ''7'' m0 (0, Map.empty) = Ret None (m, w) \<and>
     manager_inv sample_platform (\<lambda>d. d) sample_issued m"
proof -
  obtain m0 m w where s: "new_manager ''/data'' = Inr m0"
    "manager_start sample_platform ''7'' m0 (0, Map.empty) = Ret None (m, w)"
    by (rule sample_started)
  from start_establishes_invariant [OF s, of "\<lambda>d. d" sample_issued] s show ?thesis by auto
qed

section \<open>When a task fires\<close>

text \<open>A running manager with nothing scheduled, on the platform in memory.\<close>

lemma sample_running:
  obtains m where "manager_inv sample_platform (\<lambda>d. d) sample_issued m" "mg_genID m = Some 1"
    "mg_dbTask m = Some (new_store Map.empty TaskPrefix)"
    "mg_dbResult m = Some (new_store Map.empty ResultPrefix)"
    "mg_modules m = [(''hello@0.0.1'', new_module ''/m/hello@0.0.1.so'' ''hello@0.0.1'' ''0.0.1'')]"
    "mg_cmdRoot m = ''/data/shells''" "pending_ids m = Map.empty" "mg_results m = []"
proof -
  obtain tw where tw: "second_wheel tw" "tw_pending tw = Map.empty" by (rule fresh_wheel_exists)
  let ?m = "\<lparr>mg_root = ''/data'', mg_moduleRoot = ''/data/modules'', mg_cmdRoot = ''/data/shells'',
    mg_genID = Some 1, mg_tw = tw, mg_es = True, mg_watch = True,
    mg_dbTask = Some (new_store Map.empty TaskPrefix),
    mg_dbResult = Some (new_store Map.empty ResultPrefix),
    mg_modules = [(''hello@0.0.1'', new_module ''/m/hello@0.0.1.so'' ''hello@0.0.1'' ''0.0.1'')],
    mg_isRunning = True, mg_queueSize = 64, mg_results = [], mg_added = [], mg_canceled = False\<rparr>
    :: (nat, bytes \<Rightarrow> bytes option) manager"
  have "manager_inv sample_platform (\<lambda>d. d) sample_issued ?m"
    using tw by (simp add: manager_inv_def table_ok_def)
  with tw show thesis by (intro that [of ?m]) simp_all
qed

definition sample_job :: "job_type \<Rightarrow> string \<Rightarrow> i64 \<Rightarrow> job" where
  "sample_job ty extra n = zero_job\<lparr>j_name := ''dev'', j_type := ty, j_retry := 1, j_interval := n,
     j_extra := bytes_of_str extra\<rparr>"

lemma sample_job_acceptable: "acceptable (sample_job ty extra 2)"
  by (simp add: acceptable_def sample_job_def job_ticks_def fits_duration_def second_def)

lemma sample_next_first [simp]: "sample_next_id (Suc 0) = (Inr 1, 2)" "sample_next_id 1 = (Inr 1, 2)"
  by (simp_all add: sample_next_id_def)

lemma store_put_sample [simp]:
  "store_put sample_leveldb t k v = (None, t\<lparr>st_db := (st_db t)(st_prefix t @ k \<mapsto> v)\<rparr>)"
  by (simp add: store_put_def sample_leveldb_def)

lemma sample_add_any:
  assumes inv: "manager_inv sample_platform (\<lambda>d. d) sample_issued m" and g: "mg_genID m = Some n" "n < 2 ^ 64"
    and j: "acceptable j" "j_type j = JobTypeCmd"
  obtains m' where "add_task sample_platform j m w = Ret (Inr (word_of_nat n)) (m', w)"
    "mg_genID m' = Some (Suc n)" "manager_inv sample_platform (\<lambda>d. d) sample_issued m'"
proof -
  let ?j = "j\<lparr>j_uuid := encode_item_id (word_of_nat n)\<rparr>"
  obtain r m' w' where r: "add_task sample_platform j m w = Ret r (m', w')"
    "manager_inv sample_platform (\<lambda>d. d) sample_issued m'"
    by (rule add_task_spec [OF sample_platform_ok inv j(1), of w]) blast
  obtain t where t: "mg_dbTask m = Some t" using manager_invD(3) [OF inv] by blast
  obtain bs where bs: "job_marshal sample_hexutil ?j = Inr bs" using job_marshal_returns [of ?j] j(2) by auto
  have nx: "sample_next_id n = (Inr (word_of_nat n), Suc n)" using g(2) by (simp add: sample_next_id_def)
  have "r = Inr (word_of_nat n) \<and> w' = w \<and> mg_genID m' = Some (Suc n)"
    using r(1) g(1) t bs j(2) nx
    by (auto simp: add_task_def check_add_def schedule_job_def Let_def split: outcome.splits)
  with r that show thesis by blast
qed

lemma sample_add:
  assumes inv: "manager_inv sample_platform (\<lambda>d. d) sample_issued m" and g: "mg_genID m = Some 1"
    and j: "acceptable j" "j_type j = JobTypeCmd"
  obtains m' where "add_task sample_platform j m w = Ret (Inr 1) (m', w)"
proof -
  have "(1::nat) < 2 ^ 64" by simp
  from sample_add_any [OF inv g this j, of w] that show thesis by (metis of_nat_1)
qed

lemma tick_exists:
  assumes "system_inv P v issued s"
  obtains ks s' where "manager_step P s (Ticked ks) s'"
proof -
  obtain ks m' where "tick_handle (sy_mgr s) = Ret ks m'" by (rule tick_handle_spec [OF assms])
  from manager_step.ticked [where P = P, OF this, of "sy_world s" "sy_batches s"]
  show thesis by (cases s) (auto intro: that)
qed

text \<open>C1: After \<open>AddTask\<close> has returned an identifier for a job with a UTF-8 name and a natural delay of \<open>n\<close> seconds that the
  wheel can hold (\<open>acceptable\<close>), the tick that has exactly \<open>n\<close> ticks before it since then, so the tick number \<open>n + 1\<close>,
  hands the identifier to an execution, and no other tick does; the job stays readable in the task table. The running
  system may interleave executions, watcher events, requests of the same kind and deletions of other tasks (\<open>label_ok\<close>).\<close>

theorem added_task_fires_once_on_time:
  assumes "platform_ok P v issued" "system_inv P v issued s0" "acceptable j"
    and "manager_step P s0 (Added j k) s1" "manager_run P s1 ls s2"
    and "\<forall>l \<in> set ls. label_ok l \<and> \<not> deletes k l"
  shows "(\<forall>i < length ls. fires k (ls ! i) \<longleftrightarrow> is_tick (ls ! i) \<and> tick_count (take i ls) = job_ticks j) \<and>
    stored_job P v (sy_mgr s2) k (j\<lparr>j_uuid := encode_item_id k\<rparr>)"
proof -
  have inv1: "system_inv P v issued s1"
    using manager_step_spec(1) [OF assms(1,4,2)] assms(3) by simp
  from assms(4) obtain m w m' w' where m: "add_task P j m w = Ret (Inr k) (m', w')"
    "sy_mgr s0 = m" "sy_mgr s1 = m'" by (auto elim: added_stepE)
  with assms(2) have inv0: "manager_inv P v issued m" by simp
  have new: "k \<in> known issued m' \<and> pending_ids m' k = Some (job_ticks j) \<and>
      stored_job P v m' k (j\<lparr>j_uuid := encode_item_id k\<rparr>)"
    by (rule add_task_spec [OF assms(1) inv0 assms(3), of w]) (use m(1) in auto)
  with m have "k \<in> known issued (sy_mgr s1)" by simp
  with manager_run_fires [OF assms(1,5) inv1 assms(6)] manager_run_keeps [OF assms(1,5) inv1 assms(6)]
    new m show ?thesis by auto
qed

theorem added_task_fires_once_on_time_witness:
  "\<exists>s0 s1 s2 a b c. manager_step sample_platform s0 (Added (sample_job JobTypeCmd ''ls'' 2) 1) s1 \<and>
     manager_run sample_platform s1 [Ticked a, Ticked b, Ticked c] s2 \<and>
     1 \<notin> set a \<and> 1 \<notin> set b \<and> 1 \<in> set c"
proof -
  let ?j = "sample_job JobTypeCmd ''ls'' 2"
  obtain m where m: "manager_inv sample_platform (\<lambda>d. d) sample_issued m" "mg_genID m = Some 1"
    by (rule sample_running)
  obtain m' where "add_task sample_platform ?j m (0, Map.empty) = Ret (Inr 1) (m', (0, Map.empty))"
    by (rule sample_add [OF m sample_job_acceptable]) (simp add: sample_job_def)
  from manager_step.added [OF this, of "[]"] obtain s0 s1 where
    add: "manager_step sample_platform s0 (Added ?j 1) s1" and "sy_mgr s0 = m" by auto
  with m have inv0: "system_inv sample_platform (\<lambda>d. d) sample_issued s0" by simp
  note spec = manager_step_spec(1) [OF sample_platform_ok]
  have inv1: "system_inv sample_platform (\<lambda>d. d) sample_issued s1"
    by (rule spec [OF add inv0]) (simp add: sample_job_acceptable)
  obtain a t1 where a: "manager_step sample_platform s1 (Ticked a) t1" by (rule tick_exists [OF inv1])
  have inv2: "system_inv sample_platform (\<lambda>d. d) sample_issued t1" by (rule spec [OF a inv1]) simp
  obtain b t2 where b: "manager_step sample_platform t1 (Ticked b) t2" by (rule tick_exists [OF inv2])
  have inv3: "system_inv sample_platform (\<lambda>d. d) sample_issued t2" by (rule spec [OF b inv2]) simp
  obtain c t3 where c: "manager_step sample_platform t2 (Ticked c) t3" by (rule tick_exists [OF inv3])
  have run: "manager_run sample_platform s1 [Ticked a, Ticked b, Ticked c] t3"
    using a b c by (auto intro: manager_run.intros)
  have "job_ticks ?j = 2" by (simp add: job_ticks_def sample_job_def)
  with added_task_fires_once_on_time [OF sample_platform_ok inv0 sample_job_acceptable add run]
  have "1 \<notin> set a \<and> 1 \<notin> set b \<and> 1 \<in> set c"
    by (auto simp: less_Suc_eq all_conj_distrib numeral_3_eq_3 numeral_2_eq_2)
  with add run show ?thesis by blast
qed

section \<open>Requests\<close>

definition query :: "i64 \<Rightarrow> job" where
  "query k = zero_job\<lparr>j_uuid := encode_item_id k\<rparr>"

lemma query_uuid [simp]: "j_uuid (query k) = encode_item_id k"
  by (simp add: query_def)

text \<open>C14: In a state that satisfies the invariant of the running system \<open>AddTask\<close> of a job with a UTF-8 name and a natural
  delay that the wheel can hold, \<open>DeleteTask\<close> of any eight-byte identifier, and a tick return without a panic, and
  each keeps the invariant. (A negative interval makes \<open>AddTask\<close> panic: see Task_Api.)\<close>

theorem requests_return:
  assumes "platform_ok P v issued" "manager_inv P v issued m" "acceptable j" "valid_item_id (j_uuid d)"
  shows "(\<exists>r m' w'. add_task P j m w = Ret r (m', w') \<and> manager_inv P v issued m') \<and>
    (\<exists>e m' w'. delete_task P d m w = Ret e (m', w') \<and> manager_inv P v issued m') \<and>
    (\<exists>ks m'. tick_handle m = Ret ks m' \<and> manager_inv P v issued m')"
proof (intro conjI)
  show "\<exists>r m' w'. add_task P j m w = Ret r (m', w') \<and> manager_inv P v issued m'"
    by (rule add_task_spec [OF assms(1-3), of w]) blast
  show "\<exists>e m' w'. delete_task P d m w = Ret e (m', w') \<and> manager_inv P v issued m'"
    by (rule delete_task_spec [OF assms(1,2,4), of w]) blast
  show "\<exists>ks m'. tick_handle m = Ret ks m' \<and> manager_inv P v issued m'"
    by (rule tick_handle_spec [OF assms(2)]) blast
qed

theorem requests_return_witness:
  "\<exists>m r m'. add_task sample_platform (sample_job JobTypePlugin ''x'' 2) m (0, Map.empty) = Ret r m' \<and>
     manager_inv sample_platform (\<lambda>d. d) sample_issued m"
proof -
  obtain m where "manager_inv sample_platform (\<lambda>d. d) sample_issued m" by (rule sample_running)
  moreover have "valid_item_id (j_uuid (query 9))" by simp
  ultimately show ?thesis
    using requests_return [OF sample_platform_ok _ sample_job_acceptable, of m "query 9"
        JobTypePlugin "''x''" "(0, Map.empty)"] by blast
qed

text \<open>C9: In every state that the running system reaches from a successful \<open>Start\<close> by steps with acceptable jobs, each task that
  waits on the wheel is found: \<open>CheckTask\<close> answers true, and \<open>GetTask\<close> returns the stored
  text of a job with that identifier and a position that says how many ticks are left.\<close>

theorem scheduled_tasks_are_found:
  assumes "platform_ok P v issued" "new_manager dataDir = Inr m0"
    and "manager_start P nodeID m0 w0 = Ret None (m1, w1)"
    and "manager_run P \<lparr>sy_mgr = m1, sy_world = w1, sy_batches = []\<rparr> ls s" "\<forall>l \<in> set ls. label_ok l"
    and "pending_ids (sy_mgr s) k = Some n"
  shows "check_task P (query k) (sy_mgr s) = Inr (True, None) \<and>
    (\<exists>info j. get_task P (query k) (sy_mgr s) = Inr (Inr info) \<and> j_uuid j = encode_item_id k \<and>
       job_marshal (pf_hex P) j = Inr (bytes_of_str (ti_info info)) \<and>
       int n = (ti_slot info - currentSlot (mg_tw (sy_mgr s))) mod maxSlot (mg_tw (sy_mgr s)) +
               ti_circles info * maxSlot (mg_tw (sy_mgr s)))"
proof -
  let ?m = "sy_mgr s"
  have "system_inv P v issued \<lparr>sy_mgr = m1, sy_world = w1, sy_batches = []\<rparr>"
    using start_inv [OF assms(2,3)] by simp
  from manager_run_inv [OF assms(1,4) this assms(5)] have inv: "manager_inv P v issued ?m" .
  from manager_invD(7) [OF inv, of k] assms(6) obtain j t bs where
    j: "good_job j" "j_uuid j = encode_item_id k" "mg_dbTask ?m = Some t"
      "job_marshal (pf_hex P) j = Inr bs"
      "store_view v t (item_bytes (encode_item_id k)) = Some bs"
    by (auto simp: stored_job_def)
  have get: "store_get (pf_db P) t (item_bytes (encode_item_id k)) = Inr bs"
    by (rule task_tables.stored_job_read(1) [OF platform_okD(1) [OF assms(1)] j(1,4,5)])
  from assms(6) obtain a where a: "mapItems (mg_tw ?m) k = Some a" "ticks_left (mg_tw ?m) a = n"
    by (auto simp: tw_pending_def)
  have tw: "tw_inv (mg_tw ?m)" using manager_invD(1) [OF inv] by (simp add: second_wheel_def)
  from tw_invD(4) [OF tw a(1)] have "in_slot (mg_tw ?m) (nat (ti_index (heap (mg_tw ?m) ! a))) a"
    by (simp add: mapped_ok_def)
  from tw_invD(3) [OF tw this] have "0 \<le> ti_circle (heap (mg_tw ?m) ! a)" by (simp add: entry_ok_def)
  from ticks_left_bounds [OF tw_invD(1) [OF tw] this] a j get show ?thesis
    by (auto simp: check_task_def get_task_def tw_check_def tw_get_def)
qed

theorem scheduled_tasks_are_found_witness:
  "\<exists>m0 m w s. manager_start sample_platform ''7'' m0 (0, Map.empty) = Ret None (m, w) \<and>
     manager_run sample_platform \<lparr>sy_mgr = m, sy_world = w, sy_batches = []\<rparr> [Added (sample_job JobTypeCmd ''ls'' 2) 1] s \<and>
     pending_ids (sy_mgr s) 1 = Some 2 \<and> check_task sample_platform (query 1) (sy_mgr s) = Inr (True, None) \<and>
     (\<exists>info. get_task sample_platform (query 1) (sy_mgr s) = Inr (Inr info))"
proof -
  let ?j = "sample_job JobTypeCmd ''ls'' 2"
  obtain m0 m w where st: "new_manager ''/data'' = Inr m0"
    "manager_start sample_platform ''7'' m0 (0, Map.empty) = Ret None (m, w)" by (rule sample_started)
  have inv: "manager_inv sample_platform (\<lambda>d. d) sample_issued m"
    using start_ret [OF st, of "\<lambda>d. d" sample_issued] by simp
  obtain m' where add: "add_task sample_platform ?j m w = Ret (Inr 1) (m', w)"
    by (rule sample_add [OF inv sample_start_gen [OF st(2)] sample_job_acceptable]) (simp add: sample_job_def)
  have run: "manager_run sample_platform \<lparr>sy_mgr = m, sy_world = w, sy_batches = []\<rparr> [Added ?j 1]
      \<lparr>sy_mgr = m', sy_world = w, sy_batches = []\<rparr>" (is "manager_run _ _ _ ?s")
    by (auto intro: manager_run.intros manager_step.added [OF add])
  have ok: "\<forall>l \<in> set [Added ?j 1]. label_ok l" by (simp add: sample_job_acceptable)
  have "pending_ids m' 1 = Some (job_ticks ?j)"
    using add_task_ret(4) [OF sample_platform_ok inv sample_job_acceptable add refl] by simp
  then have k: "pending_ids (sy_mgr ?s) 1 = Some 2" by (simp add: job_ticks_def sample_job_def)
  from scheduled_tasks_are_found [OF sample_platform_ok st run ok k] st(2) run k show ?thesis by blast
qed

text \<open>C12: After \<open>DeleteTask\<close> of an identifier that the generator has given out has returned no error, \<open>CheckTask\<close> and
  \<open>GetTask\<close> report an error for it, and no later tick fires it, whatever requests with acceptable jobs follow: the
  generator does not give the identifier out again.\<close>

theorem deleted_task_is_gone:
  assumes "platform_ok P v issued" "manager_inv P v issued m" "k \<in> known issued m"
    and "delete_task P (query k) m w = Ret None (m', w')"
    and "manager_run P \<lparr>sy_mgr = m', sy_world = w', sy_batches = B\<rparr> ls s" "\<forall>l \<in> set ls. label_ok l"
  shows "(\<exists>e. check_task P (query k) m' = Inr (False, Some e) \<and> get_task P (query k) m' = Inr (Inl e)) \<and>
    (\<forall>l \<in> set ls. \<not> fires k l)"
proof -
  have id: "valid_item_id (j_uuid (query k))" by simp
  have "manager_inv P v issued m' \<and> known issued m \<subseteq> known issued m' \<and> pending_ids m' k = None"
    by (rule delete_task_spec [OF assms(1,2) id, of w]) (use assms(4) in \<open>auto simp: keeps_def\<close>)
  then have m': "system_inv P v issued \<lparr>sy_mgr = m', sy_world = w', sy_batches = B\<rparr>"
    "k \<in> known issued m'" "pending_ids m' k = None" using assms(3) by auto
  obtain t where t: "mg_dbTask m = Some t" using manager_invD(3) [OF assms(2)] by blast
  obtain e s' where del: "store_delete (pf_db P) t (item_bytes (encode_item_id k)) = (e, s')" by force
  obtain b tw where tw: "tw_delete k (mg_tw m) = Ret b tw"
    using second_wheel_delete [OF manager_invD(1) [OF assms(2)]] by blast
  have e: "e = None" "mg_dbTask m' = Some s'"
    using assms(4) t del tw
    by (auto simp: delete_task_def Let_def split: option.splits if_splits prod.splits)
  note tt = platform_okD(1) [OF assms(1)]
  have "store_view v s' (item_bytes (encode_item_id k)) = None"
    using task_tables.table_facts(6) [OF tt] del e(1) by (metis fun_upd_same)
  then obtain x where "store_get (pf_db P) s' (item_bytes (encode_item_id k)) = Inl x"
    using task_tables.table_facts(2) [OF tt] by blast
  then have "\<exists>e. check_task P (query k) m' = Inr (False, Some e) \<and> get_task P (query k) m' = Inr (Inl e)"
    by (simp add: check_task_def get_task_def e(2))
  moreover have "\<forall>l \<in> set ls. \<not> fires k l"
    using manager_run_silent [OF assms(1,5) m'(1) assms(6)] m' by simp
  ultimately show ?thesis by blast
qed

theorem deleted_task_is_gone_witness:
  "\<exists>m m' w' e ks s. delete_task sample_platform (query 0) m (0, Map.empty) = Ret None (m', w') \<and>
     check_task sample_platform (query 0) m' = Inr (False, Some e) \<and>
     manager_run sample_platform \<lparr>sy_mgr = m', sy_world = w', sy_batches = []\<rparr> [Ticked ks] s \<and> 0 \<notin> set ks"
proof -
  obtain m where m: "manager_inv sample_platform (\<lambda>d. d) sample_issued m" "mg_genID m = Some 1"
    "mg_dbTask m = Some (new_store Map.empty TaskPrefix)"
    by (rule sample_running)
  have known: "0 \<in> known sample_issued m" by (simp add: known_def m(2) sample_issued_def)
  obtain b tw where tw: "tw_delete 0 (mg_tw m) = Ret b tw"
    using second_wheel_delete [OF manager_invD(1) [OF m(1)]] by blast
  obtain m' w' where del: "delete_task sample_platform (query 0) m (0, Map.empty) = Ret None (m', w')"
    using m(3) tw
    by (simp add: delete_task_def store_delete_def sample_leveldb_def query_def)
  have id: "valid_item_id (j_uuid (query 0))" by simp
  have "manager_inv sample_platform (\<lambda>d. d) sample_issued m'"
    by (rule delete_task_spec [OF sample_platform_ok m(1) id, of "(0, Map.empty)"]) (use del in auto)
  then have "system_inv sample_platform (\<lambda>d. d) sample_issued \<lparr>sy_mgr = m', sy_world = w', sy_batches = []\<rparr>"
    by simp
  then obtain ks s where "manager_step sample_platform \<lparr>sy_mgr = m', sy_world = w', sy_batches = []\<rparr> (Ticked ks) s"
    by (rule tick_exists)
  then have run: "manager_run sample_platform \<lparr>sy_mgr = m', sy_world = w', sy_batches = []\<rparr> [Ticked ks] s"
    by (auto intro: manager_run.intros)
  from deleted_task_is_gone [OF sample_platform_ok m(1) known del run] del run show ?thesis by fastforce
qed

end
