(* ===== verification/Manager_Execute.thy ===== *)
theory Manager_Execute
  imports Manager_Correct
begin

text \<open>
  Executions of the task manager: what \<open>executeHandle\<close> and \<open>executeJobs\<close> do and store, that the variable the turns of
  the loop share is harmless, and the scripts of file tasks.
\<close>

section \<open>Executions\<close>

definition reliable_db :: "'db leveldb \<Rightarrow> bool" where
  "reliable_db L \<longleftrightarrow> (\<forall>d k v. fst (db_put L d k v) = None)"

lemma sample_reliable: "reliable_db sample_leveldb"
  by (simp add: reliable_db_def sample_leveldb_def)

lemma store_put_reliable:
  assumes "reliable_db L"
  obtains t' where "store_put L t k x = (None, t')"
proof -
  obtain e d where "db_put L (st_db t) (st_prefix t @ k) x = (e, d)" by force
  moreover from this have "e = None" using assms unfolding reliable_db_def by (metis fst_conv)
  ultimately show thesis by (intro that) (simp add: store_put_def)
qed

lemma run_job_forget [simp]: "run_job P m k (forget_uuid j) w = run_job P m k j w"
  unfolding run_job_def forget_uuid_simps by (rule refl)

text \<open>A turn of the loop for a stored task, and for one that is not in the table.\<close>

lemma execute_one_stored:
  assumes "platform_ok P v issued" "stored_job P v m k j"
  shows "execute_one P m k j0 (Some t, w) =
    (case run_job P m k j w of
       Panic p w1 \<Rightarrow> Panic p (Some t, w1)
     | Ret r w1 \<Rightarrow> Ret (r, forget_uuid j) (Some (store_result P k r t), w1))"
proof -
  from assms(2) obtain s bs where s: "mg_dbTask m = Some s" "good_job j" "job_marshal (pf_hex P) j = Inr bs"
      "store_view v s (item_bytes (encode_item_id k)) = Some bs"
    by (auto simp: stored_job_def)
  note tt = platform_okD(1) [OF assms(1)]
  from s(1) task_tables.stored_job_read [OF tt s(2,3,4)] show ?thesis
    by (simp add: execute_one_def split: outcome.split)
qed

lemma execute_one_missing:
  assumes "mg_dbTask m = Some s" "store_get (pf_db P) s (item_bytes (encode_item_id k)) = Inl e"
  shows "execute_one P m k j0 (dbR, w) =
    (case failed_result P k e w of (r, w1) \<Rightarrow> Ret (r, j0) (dbR, w1))"
  using assms by (simp add: execute_one_def)

lemma store_result_view:
  assumes "platform_ok P v issued" "reliable_db (pf_db P)" "result_marshal (pf_hex P) r = Inr bs"
  shows "store_view v (store_result P k r t) = (store_view v t)(item_bytes (encode_item_id k) \<mapsto> bs)"
proof -
  obtain t' where put: "store_put (pf_db P) t (item_bytes (encode_item_id k)) bs = (None, t')"
    by (rule store_put_reliable [OF assms(2)])
  from task_tables.table_facts(4) [OF platform_okD(1) [OF assms(1)] put] put assms(3) show ?thesis
    by (simp add: store_result_def)
qed

definition result_text :: "('w, 'g, 'db) platform \<Rightarrow> task_result \<Rightarrow> bytes" where
  "result_text P r = (case result_marshal (pf_hex P) r of Inl e \<Rightarrow> [] | Inr bs \<Rightarrow> bs)"

lemma result_marshal_text: "result_marshal (pf_hex P) r = Inr (result_text P r)"
  by (simp add: result_text_def result_marshal_def)

lemma execute_loop_stores:
  assumes env: "platform_ok P v issued" "reliable_db (pf_db P)"
  shows "execute_loop P m ks j0 (Some t, w) = Ret rs (d, w') \<Longrightarrow> distinct ks \<Longrightarrow>
    \<forall>k \<in> set ks. \<exists>j. stored_job P v m k j \<Longrightarrow>
    \<exists>t'. d = Some t' \<and> length rs = length ks \<and>
      (\<forall>i < length ks. store_view v t' (item_bytes (encode_item_id (ks ! i))) = Some (result_text P (rs ! i))) \<and>
      (\<forall>k. k \<notin> set ks \<longrightarrow> store_view v t' (item_bytes (encode_item_id k)) =
         store_view v t (item_bytes (encode_item_id k)))"
proof (induction ks arbitrary: j0 t w rs)
  case (Cons k ks)
  then obtain j where j: "stored_job P v m k j" by auto
  let ?key = "\<lambda>k. item_bytes (encode_item_id k)"
  from Cons.prems(1) execute_one_stored [OF env(1) j] obtain r w1 rs' where
    r: "rs = r # rs'" "execute_loop P m ks (forget_uuid j) (Some (store_result P k r t), w1) = Ret rs' (d, w')"
    by (auto split: outcome.splits)
  note view = store_result_view [OF env result_marshal_text, of k r t]
  from Cons.IH [OF r(2)] Cons.prems obtain t' where t': "d = Some t'" "length rs' = length ks"
    "\<forall>i < length ks. store_view v t' (?key (ks ! i)) = Some (result_text P (rs' ! i))"
    "\<forall>i. i \<notin> set ks \<longrightarrow> store_view v t' (?key i) = store_view v (store_result P k r t) (?key i)"
    by auto
  have "store_view v t' (?key ((k # ks) ! i)) = Some (result_text P (rs ! i))" if "i < length (k # ks)" for i
    using that t' view Cons.prems(2) r(1) by (cases i) auto
  with t' view r(1) show ?case by auto
qed auto

section \<open>One variable for all tasks\<close>

text \<open>\<open>executeJobs\<close> decodes every task of a batch into one variable \<open>job\<close>, declared before the loop. The reference decodes
  each into a variable of its own.\<close>

fun execute_each ::
  "('w, 'g, 'db) platform \<Rightarrow> ('g, 'db) manager \<Rightarrow> i64 list \<Rightarrow> ('w, 'db) exec_state \<Rightarrow>
    (('w, 'db) exec_state, task_result list) outcome" where
  "execute_each P m [] s = Ret [] s"
| "execute_each P m (tid # tids) s =
     (case execute_one P m tid zero_job s of
        Panic p s1 \<Rightarrow> Panic p s1
      | Ret (r, j) s1 \<Rightarrow>
          (case execute_each P m tids s1 of
             Panic p s2 \<Rightarrow> Panic p s2
           | Ret rs s2 \<Rightarrow> Ret (r # rs) s2))"

definition no_task :: "('w, 'g, 'db) platform \<Rightarrow> ('g, 'db) manager \<Rightarrow> i64 \<Rightarrow> bool" where
  "no_task P m k \<longleftrightarrow> (\<exists>s e. mg_dbTask m = Some s \<and> store_get (pf_db P) s (item_bytes (encode_item_id k)) = Inl e)"

lemma execute_one_any_variable:
  assumes "platform_ok P v issued" "stored_job P v m k j"
  shows "execute_one P m k j0 s = execute_one P m k j1 s"
proof -
  from assms(2) obtain t bs where t: "mg_dbTask m = Some t" "good_job j" "job_marshal (pf_hex P) j = Inr bs"
      "store_view v t (item_bytes (encode_item_id k)) = Some bs"
    by (auto simp: stored_job_def)
  from t(1) task_tables.stored_job_read [OF platform_okD(1) [OF assms(1)] t(2-4)] show ?thesis
    by (simp add: execute_one_def split: prod.split)
qed

text \<open>C23: The shared variable is harmless: when each task of a batch is stored in the form \<open>AddTask\<close> gives it, or
  has been deleted, the loop does what it would do with a fresh variable for every task, whatever the variable
  held before: the same results, panics, writes and effects on the world in the same order.\<close>

theorem shared_job_variable_is_harmless:
  assumes "platform_ok P v issued" "\<forall>k \<in> set ks. (\<exists>j. stored_job P v m k j) \<or> no_task P m k"
  shows "execute_loop P m ks j0 s = execute_each P m ks s"
  using assms(2)
proof (induction ks arbitrary: j0 s)
  case (Cons k ks)
  then have IH: "execute_loop P m ks j s = execute_each P m ks s" for j s by simp
  from Cons.prems consider j where "stored_job P v m k j" | "no_task P m k" by auto
  then show ?case
  proof cases
    case (1 j)
    show ?thesis by (simp add: execute_one_any_variable [OF assms(1) 1, of j0 s zero_job] IH split: outcome.split prod.split)
  next
    case 2
    then show ?thesis by (cases s) (auto simp: no_task_def execute_one_missing IH split: prod.split)
  qed
qed simp

section \<open>Stored results\<close>

lemma get_result_iff:
  assumes "platform_ok P v issued" "mg_dbResult m = Some t"
  shows "get_result P (query k) m = Inr (Inr s) \<longleftrightarrow>
    store_view v t (item_bytes (encode_item_id k)) = Some (bytes_of_str s)"
proof (cases "store_get (pf_db P) t (item_bytes (encode_item_id k))")
  case (Inl e)
  with assms(2) task_tables.table_facts(3) [OF platform_okD(1) [OF assms(1)], of t "item_bytes (encode_item_id k)" "bytes_of_str s"]
  show ?thesis by (simp add: get_result_def)
next
  case (Inr b)
  then have "store_view v t (item_bytes (encode_item_id k)) = Some b"
    using task_tables.table_facts(3) [OF platform_okD(1) [OF assms(1)]] by blast
  moreover have "str_of_bytes b = s \<longleftrightarrow> b = bytes_of_str s" by auto
  ultimately show ?thesis using assms(2) Inr by (simp add: get_result_def)
qed

text \<open>C10: An execution that returns has one result per identifier of its batch, sends them as one batch on
  the results feed, and stores each under its identifier, so that \<open>GetResult\<close> returns its
  encoding; the results of other tasks stay. This needs the tasks to be still in the
  task table and the database to take the writes, whose errors are only logged.\<close>

theorem executed_results_are_stored:
  assumes "platform_ok P v issued" "reliable_db (pf_db P)" "manager_inv P v issued m"
    and "distinct ks" "\<forall>k \<in> set ks. \<exists>j. stored_job P v m k j"
    and "execute_handle P ks m w = Ret () (m', w')"
  shows "\<exists>rs. mg_results m' = mg_results m @ [rs] \<and> length rs = length ks \<and>
    (\<forall>i < length ks. \<exists>bs. result_marshal (pf_hex P) (rs ! i) = Inr bs \<and>
       get_result P (query (ks ! i)) m' = Inr (Inr (str_of_bytes bs))) \<and>
    (\<forall>k. k \<notin> set ks \<longrightarrow> (\<forall>s. get_result P (query k) m' = Inr (Inr s) \<longleftrightarrow>
       get_result P (query k) m = Inr (Inr s)))"
proof -
  obtain t where t: "mg_dbResult m = Some t" using manager_invD(4) [OF assms(3)] by blast
  from assms(6) t obtain rs d where run: "execute_loop P m ks zero_job (Some t, w) = Ret rs (d, w')"
      "m' = m\<lparr>mg_dbResult := d, mg_results := mg_results m @ [rs]\<rparr>"
    by (auto simp: execute_handle_def split: outcome.splits)
  from execute_loop_stores [OF assms(1,2) run(1) assms(4,5)] obtain t' where
    t': "d = Some t'" "length rs = length ks"
      "\<forall>i < length ks. store_view v t' (item_bytes (encode_item_id (ks ! i))) = Some (result_text P (rs ! i))"
      "\<forall>k. k \<notin> set ks \<longrightarrow> store_view v t' (item_bytes (encode_item_id k)) =
         store_view v t (item_bytes (encode_item_id k))"
    by blast
  have new: "mg_dbResult m' = Some t'" by (simp add: run(2) t'(1))
  note iff = get_result_iff [OF assms(1) t] get_result_iff [OF assms(1) new]
  have "get_result P (query (ks ! i)) m' = Inr (Inr (str_of_bytes (result_text P (rs ! i))))" if "i < length ks" for i
    using that t'(3) by (simp add: iff(2))
  then have "\<forall>i < length ks. \<exists>bs. result_marshal (pf_hex P) (rs ! i) = Inr bs \<and>
      get_result P (query (ks ! i)) m' = Inr (Inr (str_of_bytes bs))"
    using result_marshal_text by blast
  moreover have "get_result P (query k) m' = Inr (Inr s) \<longleftrightarrow> get_result P (query k) m = Inr (Inr s)"
    if "k \<notin> set ks" for k s
    using that t'(4) by (simp add: iff)
  ultimately show ?thesis
    using t'(2) run(2) by (intro exI [of _ rs]) simp
qed

text \<open>A manager on the platform in memory that has one stored job.\<close>

lemma sample_with_job:
  assumes "good_job j" "j_uuid j = encode_item_id k" "j_type j \<noteq> JobTypeUnkown"
  obtains m where "manager_inv sample_platform (\<lambda>d. d) sample_issued m"
    "stored_job sample_platform (\<lambda>d. d) m k j" "mg_results m = []"
    "mg_dbResult m = Some (new_store Map.empty ResultPrefix)"
    "mg_modules m = [(''hello@0.0.1'', new_module ''/m/hello@0.0.1.so'' ''hello@0.0.1'' ''0.0.1'')]"
    "mg_cmdRoot m = ''/data/shells''" "\<And>i. i \<noteq> k \<Longrightarrow> no_task sample_platform m i"
proof -
  obtain m where m: "manager_inv sample_platform (\<lambda>d. d) sample_issued m"
    "mg_dbResult m = Some (new_store Map.empty ResultPrefix)" "mg_results m = []"
    "mg_modules m = [(''hello@0.0.1'', new_module ''/m/hello@0.0.1.so'' ''hello@0.0.1'' ''0.0.1'')]"
    "mg_cmdRoot m = ''/data/shells''" "pending_ids m = Map.empty"
    by (rule sample_running)
  obtain bs where bs: "job_marshal sample_hexutil j = Inr bs"
    using job_marshal_returns [OF assms(3)] by blast
  let ?d = "\<lambda>i. if i = TaskPrefix @ item_bytes (encode_item_id k) then Some bs else None"
  let ?m = "m\<lparr>mg_dbTask := Some (new_store ?d TaskPrefix)\<rparr>"
  have "stored_job sample_platform (\<lambda>d. d) ?m k j"
    using assms bs by (simp add: stored_job_def store_view_def new_store_def)
  moreover have "manager_inv sample_platform (\<lambda>d. d) sample_issued ?m"
    using m by (auto simp: manager_inv_def)
  moreover have "no_task sample_platform ?m i" if "i \<noteq> k" for i
    using that by (auto simp: no_task_def store_get_def new_store_def sample_leveldb_def)
  ultimately show thesis using m by (intro that [of ?m]) simp_all
qed

definition stored_sample :: "job_type \<Rightarrow> string \<Rightarrow> job" where
  "stored_sample ty extra = (sample_job ty extra 2)\<lparr>j_uuid := encode_item_id 5\<rparr>"

lemma stored_sample_simps [simp]:
  "good_job (stored_sample ty extra)" "j_uuid (stored_sample ty extra) = encode_item_id 5"
  "j_type (stored_sample ty extra) = ty" "j_extra (stored_sample ty extra) = bytes_of_str extra"
  "j_retry (stored_sample ty extra) = 1"
  by (simp_all add: stored_sample_def good_job_def sample_job_def)

lemma sample_execute:
  assumes "stored_job sample_platform (\<lambda>d. d) m 5 (stored_sample JobTypeCmd c)" "mg_dbResult m = Some t"
  shows "\<exists>m' w'. execute_handle sample_platform [5] m (0, fs) = Ret () (m', w')"
  using assms(2) execute_one_stored [OF sample_platform_ok assms(1), of zero_job t "(0, fs)"]
  by (simp add: execute_handle_def run_job_def ended_result_def now_unix_def)

theorem executed_results_are_stored_witness:
  "\<exists>m m' w' r bs. execute_handle sample_platform [5] m (0, Map.empty) = Ret () (m', w') \<and>
     mg_results m' = [[r]] \<and> result_marshal sample_hexutil r = Inr bs \<and>
     get_result sample_platform (query 5) m' = Inr (Inr (str_of_bytes bs))"
proof -
  obtain m where m: "manager_inv sample_platform (\<lambda>d. d) sample_issued m"
    "stored_job sample_platform (\<lambda>d. d) m 5 (stored_sample JobTypeCmd ''ls'')" "mg_results m = []"
    "mg_dbResult m = Some (new_store Map.empty ResultPrefix)"
    by (rule sample_with_job [of "stored_sample JobTypeCmd ''ls''" 5]) simp_all
  from sample_execute [OF m(2,4)] obtain m' w' where
    run: "execute_handle sample_platform [5] m (0, Map.empty) = Ret () (m', w')" by blast
  have "reliable_db (pf_db sample_platform)" by (simp add: sample_reliable)
  moreover have "\<forall>k \<in> set [5]. \<exists>j. stored_job sample_platform (\<lambda>d. d) m k j" using m(2) by auto
  ultimately obtain rs where rs: "mg_results m' = [rs]" "length rs = 1"
    "\<exists>bs. result_marshal sample_hexutil (rs ! 0) = Inr bs \<and>
       get_result sample_platform (query 5) m' = Inr (Inr (str_of_bytes bs))"
    using executed_results_are_stored [OF sample_platform_ok _ m(1) _ _ run] m(3) by auto
  then obtain r where r: "rs = [r]" by (cases rs) auto
  with rs(3) obtain bs where "result_marshal sample_hexutil r = Inr bs"
    "get_result sample_platform (query 5) m' = Inr (Inr (str_of_bytes bs))" by auto
  with run rs(1) r show ?thesis
    by (intro exI [of _ m] exI [of _ m'] exI [of _ w'] exI [of _ r] exI [of _ bs]) simp
qed

text \<open>A batch of a deleted and a stored task.\<close>

theorem shared_job_variable_is_harmless_witness:
  "\<exists>m rs s. execute_loop sample_platform m [7, 5] (stored_sample JobTypeCmd ''rm'') (Some (new_store Map.empty ResultPrefix), 0, Map.empty) =
       Ret rs s \<and> length rs = 2 \<and>
     execute_each sample_platform m [7, 5] (Some (new_store Map.empty ResultPrefix), 0, Map.empty) = Ret rs s"
proof -
  obtain m where m: "stored_job sample_platform (\<lambda>d. d) m 5 (stored_sample JobTypeCmd ''ls'')"
      "no_task sample_platform m 7"
    by (rule sample_with_job [of "stored_sample JobTypeCmd ''ls''" 5]) simp_all
  obtain t e where t: "mg_dbTask m = Some t" "store_get (pf_db sample_platform) t (item_bytes (encode_item_id 7)) = Inl e"
    using m(2) by (auto simp: no_task_def)
  let ?s = "(Some (new_store Map.empty ResultPrefix), 0, Map.empty)"
  have "\<forall>k \<in> set [7, 5]. (\<exists>j. stored_job sample_platform (\<lambda>d. d) m k j) \<or> no_task sample_platform m k"
    using m by auto
  from shared_job_variable_is_harmless [OF sample_platform_ok this, of "stored_sample JobTypeCmd ''rm''" ?s]
  show ?thesis
    using execute_one_missing [where P = sample_platform, OF t(1)] t(2)
      execute_one_stored [OF sample_platform_ok m(1), where ?j0.0 = zero_job]
    by (intro exI [of _ m]) (simp add: failed_result_def run_job_def ended_result_def now_unix_def split: prod.split)
qed

text \<open>C22: The execution of a stored command task runs its command text once with its retry count and
  publishes one result: the identifier, the seconds at which the command began and ended, the
  text of its error or \<open>success\<close>, and its output.\<close>

theorem command_task_runs:
  assumes "platform_ok P v issued" "stored_job P v m k j" "j_type j = JobTypeCmd" "mg_dbResult m = Some t"
    and "pf_now P w = (t0, w1)"
    and "pf_exec_cmd P (str_of_bytes (j_extra j)) (j_retry j) w1 = (output, e, w2)"
    and "pf_now P w2 = (t1, w3)"
  shows "let r = new_result_with_end k (unix_secs t0) (unix_secs t1) (to_msg e) output
    in execute_handle P [k] m w = Ret ()
      (m\<lparr>mg_dbResult := Some (store_result P k r t), mg_results := mg_results m @ [[r]]\<rparr>, w3)"
  using assms(3-) execute_one_stored [OF assms(1,2), of zero_job t w]
  by (simp add: execute_handle_def run_job_def ended_result_def now_unix_def new_result_with_end_def)

theorem command_task_runs_witness:
  "\<exists>m m' w'. execute_handle sample_platform [5] m (0, Map.empty) = Ret () (m', w') \<and>
     mg_results m' = [[new_result_with_end 5 0 1 ''success'' (bytes_of_str ''ls'')]]"
proof -
  obtain m where m: "stored_job sample_platform (\<lambda>d. d) m 5 (stored_sample JobTypeCmd ''ls'')"
    "mg_results m = []" "mg_dbResult m = Some (new_store Map.empty ResultPrefix)"
    by (rule sample_with_job [of "stored_sample JobTypeCmd ''ls''" 5]) simp_all
  let ?r = "new_result_with_end 5 0 1 ''success'' (bytes_of_str ''ls'')"
  from command_task_runs [OF sample_platform_ok m(1) _ m(3), of "(0, Map.empty)"]
  have "execute_handle sample_platform [5] m (0, Map.empty) = Ret ()
    (m\<lparr>mg_dbResult := Some (store_result sample_platform 5 ?r (new_store Map.empty ResultPrefix)),
       mg_results := [[?r]]\<rparr>, (2 * second, Map.empty))"
    by (simp add: Let_def unix_secs_def second_def m(2))
  then show ?thesis by (intro exI [of _ m] exI) (rule conjI, assumption, simp)
qed

text \<open>A task that is no longer in the task table when its batch is executed, because it was deleted
  after its tick, runs nothing: the error is published on the results feed, but not
  stored, so \<open>GetResult\<close> does not show it.\<close>

theorem deleted_before_execution:
  assumes "mg_dbTask m = Some s" "store_get (pf_db P) s (item_bytes (encode_item_id k)) = Inl e"
    and "pf_now P w = (t0, w1)" "pf_now P w1 = (t1, w2)"
  shows "execute_handle P [k] m w = Ret ()
    (m\<lparr>mg_results := mg_results m @
        [[new_result_with_end k (unix_secs t0) (unix_secs t1) (error_text e) []]]\<rparr>, w2)"
  using assms(3,4) execute_one_missing [OF assms(1,2)]
  by (simp add: execute_handle_def failed_result_def now_unix_def new_result_with_end_def)

theorem deleted_before_execution_witness:
  "\<exists>m. execute_handle sample_platform [5] m (0, Map.empty) =
     Ret () (m\<lparr>mg_results := [[new_result_with_end 5 0 1 ''leveldb: not found'' []]]\<rparr>,
             (2 * second, Map.empty))"
proof -
  obtain m :: "(nat, bytes \<Rightarrow> bytes option) manager" where
    m: "mg_dbTask m = Some (new_store Map.empty TaskPrefix)" "mg_results m = []"
    by (rule sample_running) blast
  have "store_get (pf_db sample_platform) (new_store Map.empty TaskPrefix)
      (item_bytes (encode_item_id 5)) = Inl (ErrExt ''leveldb: not found'')"
    by (simp add: store_get_def sample_leveldb_def new_store_def)
  from deleted_before_execution [OF m(1) this, of "(0, Map.empty)"] m(2) show ?thesis
    by (intro exI [of _ m]) (simp add: unix_secs_def second_def)
qed

text \<open>\<open>AddTask\<close> accepts a plugin name without a version when the module of the default version is
  loaded, but stores the name as it is, and an execution looks that name up in a table whose keys
  all have a version: nothing is run, and the result stored for the task is the zero record, whose
  identifier is 0.\<close>

theorem unversioned_plugin_never_runs:
  assumes "platform_ok P v issued" "stored_job P v m k j" "j_type j = JobTypePlugin"
    and "CHR ''@'' \<notin> set (str_of_bytes (j_extra j))"
    and "\<forall>i \<in> set (list_modules (mg_modules m)). CHR ''@'' \<in> set i"
    and "table_has (str_of_bytes (j_extra j) @ ''@'' @ DefaultVersion) (mg_modules m)"
    and "mg_dbResult m = Some t"
  shows "check_add P j k m w = (None, w) \<and>
    execute_handle P [k] m w = Ret () (m\<lparr>mg_dbResult := Some (store_result P k zero_result t),
      mg_results := mg_results m @ [[zero_result]]\<rparr>, snd (pf_now P w))"
proof
  show "check_add P j k m w = (None, w)"
    using assms(3,4,6) by (simp add: check_add_def split_on_no_sep)
  have "\<not> table_has (str_of_bytes (j_extra j)) (mg_modules m)"
    using assms(4,5) by (auto simp: table_has_iff)
  then have "map_of (mg_modules m) (str_of_bytes (j_extra j)) = None" by (simp add: table_has_def)
  then have "run_job P m k j w = Ret zero_result (snd (pf_now P w))"
    using assms(3) by (simp add: run_job_def split_beta)
  with execute_one_stored [OF assms(1,2), of zero_job t w] assms(7)
  show "execute_handle P [k] m w = Ret () (m\<lparr>mg_dbResult := Some (store_result P k zero_result t),
      mg_results := mg_results m @ [[zero_result]]\<rparr>, snd (pf_now P w))"
    by (simp add: execute_handle_def)
qed

theorem unversioned_plugin_never_runs_witness:
  "\<exists>m m' w'. table_has ''hello@0.0.1'' (mg_modules m) \<and>
     execute_handle sample_platform [5] m (0, Map.empty) = Ret () (m', w') \<and> mg_results m' = [[zero_result]]"
proof -
  obtain m where m: "stored_job sample_platform (\<lambda>d. d) m 5 (stored_sample JobTypePlugin ''hello'')"
    "mg_results m = []" "mg_dbResult m = Some (new_store Map.empty ResultPrefix)"
    "mg_modules m = [(''hello@0.0.1'', new_module ''/m/hello@0.0.1.so'' ''hello@0.0.1'' ''0.0.1'')]"
    by (rule sample_with_job [of "stored_sample JobTypePlugin ''hello''" 5]) simp_all
  have has: "table_has ''hello@0.0.1'' (mg_modules m)" by (simp add: table_has_def m(4))
  with unversioned_plugin_never_runs [OF sample_platform_ok m(1) _ _ _ _ m(3), of "(0, Map.empty)"]
  have "execute_handle sample_platform [5] m (0, Map.empty) = Ret ()
    (m\<lparr>mg_dbResult := Some (store_result sample_platform 5 zero_result (new_store Map.empty ResultPrefix)),
       mg_results := [[zero_result]]\<rparr>, (second, Map.empty))"
    by (simp add: DefaultVersion_def list_modules_def m(2,4))
  with has show ?thesis by (intro exI [of _ m] exI) (intro conjI, assumption, assumption, simp)
qed

section \<open>Scripts\<close>

text \<open>The files of the world, as far as writing and removing them goes.\<close>

definition files_ok :: "('w, 'g, 'db) platform \<Rightarrow> ('w \<Rightarrow> string \<Rightarrow> bytes option) \<Rightarrow> bool" where
  "files_ok P file \<longleftrightarrow>
     (\<forall>p b w w'. pf_write_file P p b w = (None, w') \<longrightarrow> file w' p = Some b) \<and>
     (\<forall>p w e w' q. pf_remove_file P p w = (e, w') \<longrightarrow> q \<noteq> p \<longrightarrow> file w' q = file w q)"

lemma show_int_chars: "\<forall>c \<in> set (show_int i). is_digit c \<or> c = CHR ''-''"
  using show_nat_digits by (auto simp: show_int_def)

lemma join_with_set: "set (join_with sep xs) \<subseteq> set sep \<union> \<Union> (set ` set xs)"
  by (induction sep xs rule: join_with.induct) auto

lemma script_names:
  "CHR ''/'' \<notin> set (show_int i @ ''.sh'')" "CHR ''/'' \<notin> set (show_bytes b @ ''.sh'')"
  "show_int i @ ''.sh'' \<noteq> show_bytes b @ ''.sh''"
proof -
  have slash: "\<not> is_digit (CHR ''/'')" "\<not> is_digit (CHR ''['')" by (simp_all add: is_digit_def)
  have digits: "CHR ''/'' \<notin> set (show_nat n)" for n using show_nat_digits [of n] slash by blast
  show "CHR ''/'' \<notin> set (show_int i @ ''.sh'')" using show_int_chars [of i] slash by auto
  have "set (join_with '' '' (map (\<lambda>x. show_nat (unat x)) b)) \<subseteq>
      {CHR '' ''} \<union> \<Union> (set ` set (map (\<lambda>x. show_nat (unat x)) b))"
    using join_with_set [of "'' ''" "map (\<lambda>x. show_nat (unat x)) b"] by simp
  then show "CHR ''/'' \<notin> set (show_bytes b @ ''.sh'')"
    using digits by (auto simp: show_bytes_def)
  show "show_int i @ ''.sh'' \<noteq> show_bytes b @ ''.sh''"
  proof
    assume "show_int i @ ''.sh'' = show_bytes b @ ''.sh''"
    then have "CHR ''['' \<in> set (show_int i)" by (simp add: show_bytes_def)
    with show_int_chars [of i] slash show False by auto
  qed
qed

lemma script_components:
  "show_int i @ ''.sh'' \<notin> {[], ''.'', ''..''}" "show_bytes b @ ''.sh'' \<notin> {[], ''.'', ''..''}"
proof -
  have "y \<notin> {[], ''.'', ''..''}" if "2 < length y" for y :: string using that by auto
  moreover have "2 < length (x @ ''.sh'')" for x :: string by simp
  ultimately show "show_int i @ ''.sh'' \<notin> {[], ''.'', ''..''}" "show_bytes b @ ''.sh'' \<notin> {[], ''.'', ''..''}"
    by blast+
qed

lemma cmd_file_not_removed:
  assumes "r \<noteq> []"
  shows "path_join [r, show_bytes b @ ''.sh''] \<noteq> cmd_file r k"
proof
  assume eq: "path_join [r, show_bytes b @ ''.sh''] = cmd_file r k"
  have "show_bytes b @ ''.sh'' = show_int (sint k) @ ''.sh''"
    by (rule path_join_inj [OF assms script_names(2,1) script_components(2,1) eq [unfolded cmd_file_def]])
  then show False using script_names(3) [of "sint k" b] by metis
qed

lemma cmd_file_inj:
  assumes "r \<noteq> []" "cmd_file r i = cmd_file r k"
  shows "i = k"
proof -
  have "show_int (sint i) @ ''.sh'' = show_int (sint k) @ ''.sh''"
    by (rule path_join_inj [OF assms(1) script_names(1,1) script_components(1,1)
        assms(2) [unfolded cmd_file_def]])
  then have "sint i = sint k" by (simp only: append_same_eq show_int_inj)
  then show "i = k" by (rule signed_word_eqI)
qed

text \<open>\<open>AddTask\<close> of a file task writes the script into the file that an execution of the task runs,
  a file of its own for every identifier.\<close>

theorem file_task_writes_its_script:
  assumes "files_ok P file" "j_type j = JobTypeFile" "add_task P j m w = Ret (Inr k) (m', w')"
  shows "file w' (cmd_file (mg_cmdRoot m) k) = Some (j_extra j) \<and> j_extra j \<noteq> [] \<and>
    mg_cmdRoot m' = mg_cmdRoot m \<and>
    (\<forall>i. mg_cmdRoot m \<noteq> [] \<longrightarrow> cmd_file (mg_cmdRoot m) i = cmd_file (mg_cmdRoot m) k \<longrightarrow> i = k)"
proof -
  from assms(3) obtain g newID g' where g: "mg_genID m = Some g" "pf_next_id P g = (Inr newID, g')"
    by (auto simp: add_task_def split: option.splits prod.splits sum.splits)
  let ?j = "j\<lparr>j_uuid := encode_item_id newID\<rparr>" and ?m = "m\<lparr>mg_genID := Some g'\<rparr>"
  from assms(3) g obtain w1 where check: "check_add P ?j newID ?m w = (None, w1)"
    and sched: "schedule_job P ?j newID ?m = Ret (Inr k) m'" "w' = w1"
    by (auto simp: add_task_def Let_def split: option.splits prod.splits outcome.splits)
  from check assms(2) have "j_extra j \<noteq> []"
    "pf_write_file P (cmd_file (mg_cmdRoot m) newID) (j_extra j) w = (None, w1)"
    by (auto simp: check_add_def split: if_splits)
  moreover from sched(1) have "k = newID" "mg_cmdRoot m' = mg_cmdRoot m"
    by (auto simp: schedule_job_def Let_def split: sum.splits option.splits prod.splits outcome.splits)
  ultimately show ?thesis using assms(1) sched(2) cmd_file_inj unfolding files_ok_def by metis
qed

text \<open>\<open>DeleteTask\<close> never removes a script that \<open>AddTask\<close> wrote: it forms the file name from the
  bytes of the identifier instead of its number, so the scripts of deleted tasks pile up.\<close>

theorem script_outlives_task:
  assumes "files_ok P file" "mg_cmdRoot m \<noteq> []" "delete_task P j m w = Ret e (m', w')"
  shows "file w' (cmd_file (mg_cmdRoot m) k) = file w (cmd_file (mg_cmdRoot m) k)"
proof -
  from assms(3) consider "w' = w"
    | e' where "pf_remove_file P (path_join [mg_cmdRoot m, show_bytes (j_uuid j) @ ''.sh'']) w = (e', w')"
    by (auto simp: delete_task_def Let_def split: option.splits prod.splits outcome.splits if_splits)
  then show ?thesis
  proof cases
    case 2
    with assms(1) cmd_file_not_removed [OF assms(2), of "j_uuid j" k] show ?thesis
      unfolding files_ok_def by metis
  qed simp
qed

lemma sample_files_ok: "files_ok sample_platform snd"
  by (simp add: files_ok_def)

theorem file_task_writes_its_script_witness:
  "\<exists>m r w'. add_task sample_platform (sample_job JobTypeFile ''echo'' 2) m (0, Map.empty) = Ret (Inr 1) (r, w') \<and>
     snd w' (cmd_file ''/data/shells'' 1) = Some (bytes_of_str ''echo'')"
proof -
  let ?j = "sample_job JobTypeFile ''echo'' 2"
  obtain m where m: "manager_inv sample_platform (\<lambda>d. d) sample_issued m" "mg_genID m = Some 1"
    "mg_dbTask m = Some (new_store Map.empty TaskPrefix)" "mg_cmdRoot m = ''/data/shells''"
    by (rule sample_running) blast
  obtain r m' w' where r: "add_task sample_platform ?j m (0, Map.empty) = Ret r (m', w')"
    by (rule add_task_spec [OF sample_platform_ok m(1) sample_job_acceptable, where w = "(0, Map.empty)"]) blast
  obtain bs where bs: "job_marshal sample_hexutil (?j\<lparr>j_uuid := encode_item_id 1\<rparr>) = Inr bs"
    using job_marshal_returns [of "?j\<lparr>j_uuid := encode_item_id 1\<rparr>"] by (auto simp: sample_job_def)
  have ty: "j_type ?j = JobTypeFile" "j_extra ?j = bytes_of_str ''echo''" "bytes_of_str ''echo'' \<noteq> []"
    by (simp_all add: sample_job_def bytes_of_str_def)
  have "r = Inr 1"
    using r m bs ty
    by (auto simp: add_task_def check_add_def schedule_job_def Let_def split: outcome.splits)
  with r have run: "add_task sample_platform ?j m (0, Map.empty) = Ret (Inr 1) (m', w')" by simp
  from file_task_writes_its_script [OF sample_files_ok ty(1) run] run m(4) ty(2) show ?thesis
    by (intro exI [of _ m] exI [of _ m'] exI [of _ w']) simp
qed

theorem script_outlives_task_witness:
  "\<exists>m e m' w'. delete_task sample_platform (query 1) m
       (0, [cmd_file ''/data/shells'' 1 \<mapsto> [7]]) = Ret e (m', w') \<and>
     snd w' (cmd_file ''/data/shells'' 1) = Some [7]"
proof -
  let ?w = "(0, [cmd_file ''/data/shells'' 1 \<mapsto> [7]]) :: sample_world"
  obtain m where m: "manager_inv sample_platform (\<lambda>d. d) sample_issued m" "mg_cmdRoot m = ''/data/shells''"
    by (rule sample_running) blast
  have id: "valid_item_id (j_uuid (query 1))" by simp
  obtain e m' w' where del: "delete_task sample_platform (query 1) m ?w = Ret e (m', w')"
    by (rule delete_task_spec [OF sample_platform_ok m(1) id, of ?w]) blast
  have "mg_cmdRoot m \<noteq> []" by (simp add: m(2))
  from script_outlives_task [OF sample_files_ok this del, of 1] del m(2) show ?thesis
    by (intro exI [of _ m] exI [of _ e] exI [of _ m'] exI [of _ w']) simp
qed

end
