(* ===== verification/Task_Api.thy ===== *)
theory Task_Api
  imports Manager_Execute
begin

text \<open>
  The RPC methods of tasks, \<open>node/task/api.go\<close>: the arguments of a request and their translation
  to a job (\<open>toJob\<close>), the methods of \<open>PrivateTaskAPI\<close> on top of the manager, and those of
  \<open>PublicTaskAPI\<close>. The two subscription methods, whose notifier is outside the repository, are not
  modelled, nor is the metrics counter. The lemmas show what each request becomes.
\<close>

section \<open>Times\<close>

text \<open>A time is a number of nanoseconds since 1970. \<open>time.Unix\<close> counts seconds from the year 1 in an
  \<open>int64\<close>, which wraps; \<open>Sub\<close> is clipped to the range of a \<open>Duration\<close>.\<close>

definition unixToInternal :: int where "unixToInternal = 62135596800"

definition time_unix :: "i64 \<Rightarrow> int" where
  "time_unix sec = (sint (sec + word_of_int unixToInternal) - unixToInternal) * second"

definition time_sub :: "int \<Rightarrow> int \<Rightarrow> int" where
  "time_sub t u = max int64_min (min int64_max (t - u))"

section \<open>Arguments\<close>

record job_args =
  a_name :: "string option"
  a_extra :: "bytes option"
  a_type :: "string option"
  a_uuid :: u64
  a_datetime :: i64
  a_retry :: i64
  a_interval :: i64

definition parse_type :: "string \<Rightarrow> error + job_type" where
  "parse_type s =
     (if s = ''cmd'' then Inr JobTypeCmd
      else if s = ''sh'' then Inr JobTypeFile
      else if s = ''plugin'' then Inr JobTypePlugin
      else Inl (ErrNew ''invalid type field''))"

text \<open>The delay of a request, in seconds: the interval, 1 for 0, or the time until a given date.\<close>

definition args_interval ::
  "('w, 'g, 'db) platform \<Rightarrow> job_args \<Rightarrow> 'w \<Rightarrow> (error + i64) \<times> 'w" where
  "args_interval P args w =
     (let interval' = (if a_interval args = 0 then 1 else a_interval args)
      in if 0 < sint (a_datetime args)
         then let dt = time_unix (a_datetime args); (now, w1) = pf_now P w
              in if \<not> now < dt then (Inl ErrInvalidDatetime, w1)
                 else (Inr (word_of_int (seconds_int (time_sub dt now))), w1)
         else (Inr interval', w))"

definition to_job ::
  "('w, 'g, 'db) platform \<Rightarrow> bool \<Rightarrow> job_args \<Rightarrow> 'w \<Rightarrow> ('w, error + job) outcome" where
  "to_job P isAdd args w =
     (case a_name args of
        None \<Rightarrow> Ret (Inl (ErrNew ''no name field'')) w
      | Some nm \<Rightarrow>
          if isAdd then
            (case a_type args of
               None \<Rightarrow> Ret (Inl (ErrNew ''no type field'')) w
             | Some ts \<Rightarrow>
                 (case parse_type ts of
                    Inl e \<Rightarrow> Ret (Inl e) w
                  | Inr ty \<Rightarrow>
                      let retry = (if a_retry args = 0 then 1 else a_retry args)
                      in case args_interval P args w of
                           (Inl e, w1) \<Rightarrow> Ret (Inl e) w1
                         | (Inr iv, w1) \<Rightarrow>
                             let (now, w2) = now_unix P w1
                             in case a_extra args of
                                  None \<Rightarrow> Panic NilDereference w2
                                | Some ex \<Rightarrow>
                                    Ret (Inr (zero_job\<lparr>j_name := nm, j_type := ty, j_retry := retry,
                                      j_interval := iv, j_addTime := now, j_extra := ex\<rparr>)) w2))
          else if a_uuid args = 0 then Ret (Inl (ErrNew ''invalid uuid field'')) w
          else Ret (Inr (zero_job\<lparr>j_uuid := encode_item_id (a_uuid args)\<rparr>)) w)"

section \<open>PrivateTaskAPI\<close>

definition api_add_task ::
  "('w, 'g, 'db) platform \<Rightarrow> job_args \<Rightarrow> ('g, 'db) manager \<Rightarrow> 'w \<Rightarrow> ('w, 'g, 'db, error + i64) action" where
  "api_add_task P args m w =
     (case to_job P True args w of
        Panic p w1 \<Rightarrow> Panic p (m, w1)
      | Ret (Inl e) w1 \<Rightarrow> Ret (Inl e) (m, w1)
      | Ret (Inr j) w1 \<Rightarrow> add_task P j m w1)"

text \<open>The other requests name a task by its identifier; \<open>with_id\<close> is their common beginning.\<close>

definition with_id ::
  "('w, 'g, 'db) platform \<Rightarrow> job_args \<Rightarrow> 'w \<Rightarrow> (job \<Rightarrow> panic + (error + 'a)) \<Rightarrow> panic + (error + 'a)" where
  "with_id P args w f =
     (case to_job P False args w of
        Panic p w1 \<Rightarrow> Inl p
      | Ret (Inl e) w1 \<Rightarrow> Inr (Inl e)
      | Ret (Inr j) w1 \<Rightarrow> f j)"

definition api_get_task ::
  "('w, 'g, 'db) platform \<Rightarrow> job_args \<Rightarrow> ('g, 'db) manager \<Rightarrow> 'w \<Rightarrow> panic + (error + task_info)" where
  "api_get_task P args m w = with_id P args w (\<lambda>j. get_task P j m)"

definition api_check_task ::
  "('w, 'g, 'db) platform \<Rightarrow> job_args \<Rightarrow> ('g, 'db) manager \<Rightarrow> 'w \<Rightarrow> panic + bool \<times> error option" where
  "api_check_task P args m w =
     (case to_job P False args w of
        Panic p w1 \<Rightarrow> Inl p
      | Ret (Inl e) w1 \<Rightarrow> Inr (False, Some e)
      | Ret (Inr j) w1 \<Rightarrow> check_task P j m)"

definition api_delete_task ::
  "('w, 'g, 'db) platform \<Rightarrow> job_args \<Rightarrow> ('g, 'db) manager \<Rightarrow> 'w \<Rightarrow> ('w, 'g, 'db, error option) action" where
  "api_delete_task P args m w =
     (case to_job P False args w of
        Panic p w1 \<Rightarrow> Panic p (m, w1)
      | Ret (Inl e) w1 \<Rightarrow> Ret (Some e) (m, w1)
      | Ret (Inr j) w1 \<Rightarrow> delete_task P j m w1)"

definition api_get_result ::
  "('w, 'g, 'db) platform \<Rightarrow> job_args \<Rightarrow> ('g, 'db) manager \<Rightarrow> 'w \<Rightarrow> panic + (error + string)" where
  "api_get_result P args m w = with_id P args w (\<lambda>j. get_result P j m)"

section \<open>PublicTaskAPI\<close>

text \<open>The manager is a pointer; the guard returns nil when it is \<^emph>\<open>not\<close> nil, and otherwise the
  method is called on nil, where taking the mutex panics.\<close>

definition public_list_modules :: "('g, 'db) manager option \<Rightarrow> panic + string list option" where
  "public_list_modules api =
     (case api of Some m \<Rightarrow> Inr None | None \<Rightarrow> Inl NilDereference)"

definition public_check_module :: "string \<Rightarrow> ('g, 'db) manager option \<Rightarrow> panic + bool \<times> error option" where
  "public_check_module name api =
     (case api of Some m \<Rightarrow> Inr (False, None) | None \<Rightarrow> Inl NilDereference)"

definition public_stats :: "('g, 'db) manager option \<Rightarrow> string list option" where
  "public_stats api = None"

section \<open>Properties\<close>

definition add_args :: "string \<Rightarrow> string \<Rightarrow> bytes \<Rightarrow> job_args" where
  "add_args nm ty ex = \<lparr>a_name = Some nm, a_extra = Some ex, a_type = Some ty, a_uuid = 0,
     a_datetime = 0, a_retry = 0, a_interval = 0\<rparr>"

definition reliable_delete :: "'db leveldb \<Rightarrow> bool" where
  "reliable_delete L \<longleftrightarrow> (\<forall>d k. fst (db_delete L d k) = None)"

lemma store_delete_reliable:
  assumes "reliable_delete L"
  obtains t' where "store_delete L t k = (None, t')"
proof -
  obtain e d where "db_delete L (st_db t) (st_prefix t @ k) = (e, d)" by force
  moreover from this have "e = None" using assms unfolding reliable_delete_def by (metis fst_conv)
  ultimately show thesis by (intro that) (simp add: store_delete_def)
qed

lemma to_job_add:
  assumes "a_name args = Some nm" "a_type args = Some ts" "parse_type ts = Inr ty"
    and "a_extra args = Some ex" "args_interval P args w = (Inr iv, w1)" "pf_now P w1 = (t, w2)"
  shows "to_job P True args w = Ret (Inr (zero_job\<lparr>j_name := nm, j_type := ty,
      j_retry := (if a_retry args = 0 then 1 else a_retry args), j_interval := iv,
      j_addTime := unix_secs t, j_extra := ex\<rparr>)) w2"
  using assms by (simp add: to_job_def now_unix_def Let_def)

text \<open>A Unix time of the request as a time of Go, and the interval of a date that is still to come.\<close>

lemma time_unix_datetime:
  assumes "0 < sint s" "sint s + unixToInternal < 2 ^ 63"
  shows "time_unix s = sint s * second"
proof -
  have "s + word_of_int unixToInternal = word_of_int (sint s + unixToInternal)" by simp
  then have "sint (s + word_of_int unixToInternal) = sint s + unixToInternal"
    using assms sint_of_int64 [of "sint s + unixToInternal"] by (simp only:) (simp add: unixToInternal_def)
  then show ?thesis by (simp add: time_unix_def)
qed

lemma args_interval_future:
  assumes "0 < sint (a_datetime args)" "sint (a_datetime args) + unixToInternal < 2 ^ 63" "pf_now P w = (now, w1)"
    and "now < sint (a_datetime args) * second" "sint (a_datetime args) * second - now < 9223372036 * second"
  obtains n where "args_interval P args w = (Inr (word_of_int n), w1)"
    "(sint (a_datetime args) * second - now) div second \<le> n" "n \<le> (sint (a_datetime args) * second - now) div second + 1"
    "sint (word_of_int n :: i64) = n" "0 \<le> n" "n \<le> 9223372036"
proof -
  define d where "d = sint (a_datetime args) * second - now"
  have d: "0 \<le> d" "d < 9223372036 * second" using assms(4,5) by (simp_all add: d_def)
  then have "time_sub (sint (a_datetime args) * second) now = d"
    by (simp add: d_def time_sub_def int64_max_def int64_min_def second_def)
  then have iv: "args_interval P args w = (Inr (word_of_int (seconds_int d)), w1)"
    using assms(1,3,4) time_unix_datetime [OF assms(1,2)] by (simp add: args_interval_def Let_def)
  have "0 \<le> d div second" "d div second < 9223372036" using d by (simp_all add: second_def)
  with seconds_int_bounds [OF d(1)] have n: "0 \<le> seconds_int d" "seconds_int d \<le> 9223372036" by simp_all
  then have "sint (word_of_int (seconds_int d) :: i64) = seconds_int d" by (intro sint_of_int64) simp_all
  with iv n seconds_int_bounds [OF d(1)] that show thesis by (simp add: d_def)
qed

text \<open>A request with a date less than 292 years ahead is accepted and becomes a job whose delay is the
  time until that date in whole seconds, exact or, through the rounding of \<open>float64\<close>, one more; the
  manager accepts it. A date that is not in the future is refused with \<open>ErrInvalidDatetime\<close> before
  anything changes.\<close>

theorem datetime_becomes_delay:
  assumes "a_name args = Some nm" "a_type args = Some ts" "parse_type ts = Inr ty"
    and "a_extra args = Some ex" "0 < sint (a_datetime args)"
    and "sint (a_datetime args) + unixToInternal < 2 ^ 63"
    and "pf_now P w = (now, w1)" "utf8_ok nm"
    and "sint (a_datetime args) * second - now < 9223372036 * second"
  shows "if sint (a_datetime args) * second \<le> now then to_job P True args w = Ret (Inl ErrInvalidDatetime) w1
    else \<exists>j w2. to_job P True args w = Ret (Inr j) w2 \<and> acceptable j \<and> j_type j = ty \<and> j_extra j = ex \<and>
      (let d = sint (a_datetime args) * second - now
       in d div second \<le> sint (j_interval j) \<and> sint (j_interval j) \<le> d div second + 1)"
proof (cases "sint (a_datetime args) * second \<le> now")
  case True
  then have "args_interval P args w = (Inl ErrInvalidDatetime, w1)"
    using assms(5,7) time_unix_datetime [OF assms(5,6)] by (simp add: args_interval_def Let_def)
  with True assms(1-3) show ?thesis by (simp add: to_job_def)
next
  case False
  then have "now < sint (a_datetime args) * second" by simp
  from args_interval_future [OF assms(5-7) this assms(9)] obtain n where
    iv: "args_interval P args w = (Inr (word_of_int n), w1)" and
    n: "(sint (a_datetime args) * second - now) div second \<le> n" "n \<le> (sint (a_datetime args) * second - now) div second + 1"
      "sint (word_of_int n :: i64) = n" "0 \<le> n" "n \<le> 9223372036" by metis
  obtain t w2 where "pf_now P w1 = (t, w2)" by force
  from to_job_add [OF assms(1-4) iv this] obtain j where
    j: "to_job P True args w = Ret (Inr j) w2" "j_interval j = word_of_int n"
      "j_name j = nm" "j_type j = ty" "j_extra j = ex" by simp
  have "fits_duration (job_ticks j)"
    using n(3-5) by (simp add: fits_duration_def job_ticks_def j(2) second_def)
  then have "acceptable j" using assms(8) n j by (simp add: acceptable_def)
  with False j n show ?thesis by auto
qed

theorem datetime_becomes_delay_witness:
  "\<exists>j w2. to_job sample_platform True ((add_args ''dev'' ''cmd'' [])\<lparr>a_datetime := 100\<rparr>) (40 * second, Map.empty)
     = Ret (Inr j) w2 \<and> acceptable j \<and> 60 \<le> sint (j_interval j) \<and> sint (j_interval j) \<le> 61"
proof -
  have "unixToInternal + 100 < 2 ^ 63" by (simp add: unixToInternal_def)
  then show ?thesis
    using datetime_becomes_delay [of "(add_args ''dev'' ''cmd'' [])\<lparr>a_datetime := 100\<rparr>" "''dev''" "''cmd''"
        JobTypeCmd "[]" sample_platform "(40 * second, Map.empty)" "40 * second" "(41 * second, Map.empty)"]
    by (auto simp: add_args_def parse_type_def second_def)
qed

text \<open>A request for a new task without the member \<open>extra\<close> makes the method panic, whatever its kind:
  the pointer is followed without a check.\<close>

theorem missing_extra_panics:
  assumes "a_name args = Some nm" "a_type args = Some ts" "parse_type ts = Inr ty"
    and "sint (a_datetime args) \<le> 0" "a_extra args = None"
  shows "api_add_task P args m w = Panic NilDereference (m, snd (pf_now P w))"
  using assms by (simp add: api_add_task_def to_job_def args_interval_def now_unix_def split_beta Let_def)

theorem missing_extra_panics_witness:
  "\<exists>m :: (nat, bytes \<Rightarrow> bytes option) manager.
     api_add_task sample_platform ((add_args ''dev'' ''cmd'' [])\<lparr>a_extra := None\<rparr>) m (0, Map.empty)
       = Panic NilDereference (m, (second, Map.empty))"
proof -
  obtain m :: "(nat, bytes \<Rightarrow> bytes option) manager" where "mg_results m = []"
    by (rule sample_running) blast
  from missing_extra_panics [of "(add_args ''dev'' ''cmd'' [])\<lparr>a_extra := None\<rparr>" "''dev''" "''cmd''" JobTypeCmd
      sample_platform m "(0, Map.empty)"]
  show ?thesis by (intro exI [of _ m]) (simp add: add_args_def parse_type_def)
qed

text \<open>The public methods answer nothing of the modules: on a manager they return nil and false
  whatever is loaded, and only without a manager they go on, to panic.\<close>

theorem public_api_hides_modules:
  "public_list_modules (Some m) = Inr None \<and> public_check_module name (Some m) = Inr (False, None) \<and>
   public_list_modules None = Inl NilDereference \<and> public_check_module name None = Inl NilDereference \<and>
   (table_has name (mg_modules m) \<longrightarrow> check_module name (mg_modules m) = (True, None))"
  by (simp add: public_list_modules_def public_check_module_def check_module_def)

theorem public_api_hides_modules_witness:
  "\<exists>m :: (nat, bytes \<Rightarrow> bytes option) manager.
     public_check_module ''a@1'' (Some m) = Inr (False, None) \<and> check_module ''a@1'' (mg_modules m) = (True, None)"
proof -
  obtain m :: "(nat, bytes \<Rightarrow> bytes option) manager" where m: "mg_modules m = [(''hello@0.0.1'',
      new_module ''/m/hello@0.0.1.so'' ''hello@0.0.1'' ''0.0.1'')]"
    by (rule sample_running) blast
  define m' where "m' = m\<lparr>mg_modules := [(''a@1'', new_module [] ''a@1'' ''1'')]\<rparr>"
  have "table_has ''a@1'' (mg_modules m')" by (simp add: m'_def table_has_def)
  with public_api_hides_modules [of m' "''a@1''"] show ?thesis by blast
qed

text \<open>The delay of a job with a negative interval, in ticks of the manager's wheel.\<close>

lemma negative_delay_ticks:
  assumes "interval tw = defaultInterval" "- 9223372036 \<le> sint (j_interval j)" "sint (j_interval j) < 0"
  shows "delay_ticks tw (job_delay j) = sint (j_interval j)"
proof -
  have "job_delay j = word_of_int (sint (j_interval j) * second)" by (simp add: job_delay_def)
  moreover have "- (2 ^ 63) \<le> sint (j_interval j) * second" "sint (j_interval j) * second < 2 ^ 63"
    using assms(2,3) by (simp_all add: second_def)
  ultimately have "sint (job_delay j) = sint (j_interval j) * second" by (simp only: sint_of_int64)
  then show ?thesis by (simp add: delay_ticks_def assms(1) seconds_int_of_seconds)
qed

text \<open>A task that is in its table and known to the wheel passes \<open>CheckTask\<close>; \<open>DeleteTask\<close> panics with the wheel.\<close>

lemma stored_task_checked:
  assumes "platform_ok P v issued" "store_put (pf_db P) t (item_bytes (encode_item_id k)) bs = (None, t')"
    and "mg_dbTask m = Some t'" "tw_check k (mg_tw m)"
  shows "check_task P (query k) m = Inr (True, None)"
proof -
  note tt = platform_okD(1) [OF assms(1)]
  have "store_view v t' (item_bytes (encode_item_id k)) = Some bs"
    using task_tables.table_facts(4) [OF tt assms(2)] by simp
  then have "store_get (pf_db P) t' (item_bytes (encode_item_id k)) = Inr bs"
    using task_tables.table_facts(3) [OF tt] by blast
  with assms(3,4) show ?thesis by (simp add: check_task_def)
qed

lemma delete_task_panics:
  assumes "reliable_delete (pf_db P)" "mg_dbTask m = Some t" "tw_delete k (mg_tw m) = Panic p tw"
  shows "\<exists>s. delete_task P (query k) m w = Panic p s"
proof -
  obtain t' where "store_delete (pf_db P) t (item_bytes (encode_item_id k)) = (None, t')"
    by (rule store_delete_reliable [OF assms(1)])
  with assms(2,3) show ?thesis by (simp add: delete_task_def Let_def)
qed

text \<open>C39: A command request without a date and with a negative interval that fits a \<open>time.Duration\<close> is not refused. When the
  current slot plus the interval is negative and not a multiple of the number of slots, \<open>AddTask\<close> stores the job and panics
  in the wheel, which it indexes with a negative slot. On a database that takes writes and deletions, the task then passes
  \<open>CheckTask\<close>, no tick will fire it, and \<open>DeleteTask\<close> of it panics too.\<close>

theorem negative_interval_breaks_wheel:
  assumes "platform_ok P v issued" "manager_inv P v issued m" "reliable_db (pf_db P)"
    and "mg_genID m = Some g" "pf_next_id P g = (Inr k, g')" "reliable_delete (pf_db P)"
    and "a_name args = Some nm" "a_type args = Some ''cmd''" "a_extra args = Some ex"
    and "sint (a_datetime args) \<le> 0" "- 9223372036 \<le> sint (a_interval args)"
    and "currentSlot (mg_tw m) + sint (a_interval args) < 0"
    and "(currentSlot (mg_tw m) + sint (a_interval args)) smod maxSlot (mg_tw m) \<noteq> 0"
  shows "\<exists>m' w'. api_add_task P args m w = Panic IndexOutOfRange (m', w') \<and>
    check_task P (query k) m' = Inr (True, None) \<and> slots (mg_tw m') = slots (mg_tw m) \<and>
    (\<exists>s. delete_task P (query k) m' w' = Panic IndexOutOfRange s)"
proof -
  let ?iv = "sint (a_interval args)"
  have D: "wheel_ok (mg_tw m)" "interval (mg_tw m) = defaultInterval"
    using manager_invD(1) [OF assms(2)] by (simp_all add: second_wheel_def tw_invD)
  obtain t where t: "mg_dbTask m = Some t" using manager_invD(3) [OF assms(2)] by blast
  have neg: "?iv < 0" using assms(12) wheel_ok_current [OF D(1)] by simp
  then have ne: "a_interval args \<noteq> 0" by auto
  have iv: "args_interval P args w = (Inr (a_interval args), w)"
    using assms(10) ne by (simp add: args_interval_def)
  obtain now w2 where now: "pf_now P w = (now, w2)" by force
  define j where "j = zero_job\<lparr>j_name := nm, j_type := JobTypeCmd,
      j_retry := (if a_retry args = 0 then 1 else a_retry args), j_interval := a_interval args,
      j_addTime := unix_secs now, j_extra := ex, j_uuid := encode_item_id k\<rparr>"
  obtain j0 where j0: "to_job P True args w = Ret (Inr j0) w2" "j0\<lparr>j_uuid := encode_item_id k\<rparr> = j"
    "j_type j0 = JobTypeCmd"
    using to_job_add [OF assms(7,8) _ assms(9) iv now, of JobTypeCmd] by (simp add: parse_type_def j_def)
  have jd: "j_type j = JobTypeCmd" "j_uuid j = encode_item_id k" "j_interval j = a_interval args" "job_id j = k"
    by (simp_all add: j_def job_id_def)
  have ticks: "delay_ticks (mg_tw m) (job_delay j) = ?iv"
    using negative_delay_ticks [OF D(2), of j] assms(11) neg by (simp add: jd)
  obtain tw where tw: "tw_add (job_delay j) k (mg_tw m) = Panic IndexOutOfRange tw" "tw_check k tw"
      "slots tw = slots (mg_tw m)" "tw_delete k tw = Panic IndexOutOfRange tw"
    using tw_add_negative [OF D(1), of "job_delay j" k] assms(12,13) ticks by auto
  obtain bs where bs: "job_marshal (pf_hex P) j = Inr bs"
    using job_marshal_returns [of j] jd(1) by auto
  obtain t' where put: "store_put (pf_db P) t (item_bytes (encode_item_id k)) bs = (None, t')"
    by (rule store_put_reliable [OF assms(3)])
  define m' where "m' = m\<lparr>mg_genID := Some g', mg_dbTask := Some t', mg_tw := tw\<rparr>"
  have "api_add_task P args m w = Panic IndexOutOfRange (m', w2)"
    using j0 assms(4,5) bs t put tw(1) jd
    by (simp add: api_add_task_def add_task_def check_add_def schedule_job_def m'_def Let_def)
  moreover have "check_task P (query k) m' = Inr (True, None)"
    by (rule stored_task_checked [OF assms(1) put]) (simp_all add: m'_def tw(2))
  moreover have "\<exists>s. delete_task P (query k) m' w2 = Panic IndexOutOfRange s"
    by (rule delete_task_panics [OF assms(6)]) (simp_all add: m'_def tw(4))
  ultimately show ?thesis using tw(3) by (auto simp: m'_def)
qed

theorem negative_interval_breaks_wheel_witness:
  "\<exists>m m' w'. api_add_task sample_platform ((add_args ''dev'' ''cmd'' [])\<lparr>a_interval := - 5\<rparr>) m (0, Map.empty)
       = Panic IndexOutOfRange (m', w') \<and> check_task sample_platform (query 1) m' = Inr (True, None)"
proof -
  obtain tw where tw: "new_time_wheel defaultInterval 3600 = Inr tw" "second_wheel tw" "tw_pending tw = Map.empty"
    by (rule fresh_wheel_exists)
  have "0 < sint defaultInterval" by (simp add: defaultInterval_def)
  from new_time_wheel_ok [OF this, of 3600] tw(1) have cur: "currentSlot tw = 0" "maxSlot tw = 3600" by auto
  obtain m0 where m0: "manager_inv sample_platform (\<lambda>d. d) sample_issued m0" "mg_genID m0 = Some 1"
    by (rule sample_running) blast
  define m where "m = m0\<lparr>mg_tw := tw\<rparr>"
  have m: "manager_inv sample_platform (\<lambda>d. d) sample_issued m" "mg_genID m = Some 1"
    using m0 tw by (simp_all add: m_def manager_inv_def)
  have r: "reliable_db (pf_db sample_platform)" "reliable_delete (pf_db sample_platform)"
    by (simp_all add: reliable_db_def reliable_delete_def sample_leveldb_def)
  have n: "pf_next_id sample_platform 1 = (Inr 1, 2)" by simp
  have s: "sint (- 5 :: i64) = - 5" by simp
  have "(- 5 :: int) smod 3600 \<noteq> 0" by (simp add: signed_modulo_int_def)
  with negative_interval_breaks_wheel [OF sample_platform_ok m(1) r(1) m(2) n r(2),
      of "(add_args ''dev'' ''cmd'' [])\<lparr>a_interval := - 5\<rparr>" "''dev''" "[]" "(0, Map.empty)"] s cur
  obtain m' w' where
    "api_add_task sample_platform ((add_args ''dev'' ''cmd'' [])\<lparr>a_interval := - 5\<rparr>) m (0, Map.empty)
       = Panic IndexOutOfRange (m', w')" "check_task sample_platform (query 1) m' = Inr (True, None)"
    by (auto simp: add_args_def m_def)
  then show ?thesis by blast
qed

end
