(* ===== verification/Task_Lifecycle.thy ===== *)
theory Task_Lifecycle
  imports Manager_Execute "HOL-Library.Multiset"
begin

text \<open>
  The life of a task, from \<open>AddTask\<close> over the tick that takes it off the wheel and the goroutine of its batch to its stored
  result, in \<open>node/task/manager.go\<close>. The labels of a run are its history; every identifier that a tick hands to
  a goroutine is accounted for, in an execution or in a batch that still waits. The lemmas show that a
  task is executed at most once, and exactly once when enough ticks have passed and no batch waits, and that
  its result stays readable.
\<close>

section \<open>The account of batches\<close>

fun ticked_ids :: "label \<Rightarrow> i64 list" where
  "ticked_ids (Ticked ks) = ks"
| "ticked_ids l = []"

fun executed_ids :: "label \<Rightarrow> i64 list" where
  "executed_ids (Executed ks) = ks"
| "executed_ids l = []"

definition all_ticked :: "label list \<Rightarrow> i64 list" where
  "all_ticked ls = concat (map ticked_ids ls)"

definition all_executed :: "label list \<Rightarrow> i64 list" where
  "all_executed ls = concat (map executed_ids ls)"

lemma history_simps [simp]:
  "all_ticked [] = []" "all_ticked (l # ls) = ticked_ids l @ all_ticked ls"
  "all_ticked (ls @ ls') = all_ticked ls @ all_ticked ls'"
  "all_executed [] = []" "all_executed (l # ls) = executed_ids l @ all_executed ls"
  "all_executed (ls @ ls') = all_executed ls @ all_executed ls'"
  by (simp_all add: all_ticked_def all_executed_def)

text \<open>The batches whose goroutines have not executed them.\<close>

definition waiting_ids :: "('w, 'g, 'db) system \<Rightarrow> i64 list" where
  "waiting_ids s = concat (sy_batches s)"

lemma manager_step_account:
  "manager_step P s l s' \<Longrightarrow>
     mset (waiting_ids s) + mset (ticked_ids l) = mset (executed_ids l) + mset (waiting_ids s')"
  by (cases rule: manager_step.cases) (auto simp: waiting_ids_def)

lemma manager_run_account:
  "manager_run P s ls s' \<Longrightarrow>
     mset (waiting_ids s) + mset (all_ticked ls) = mset (all_executed ls) + mset (waiting_ids s')"
proof (induction rule: manager_run.induct)
  case (step s l s1 ls s2)
  from manager_step_account [OF step.hyps(1)] step.IH show ?case by (simp add: ac_simps)
qed simp

lemma manager_run_append:
  "manager_run P s (ls @ ls') s' \<longleftrightarrow> (\<exists>s1. manager_run P s ls s1 \<and> manager_run P s1 ls' s')"
  by (induction ls arbitrary: s) (auto simp: manager_run_Cons)

lemma count_mset_list: "count (mset xs) k = count_list xs k"
  by (induction xs) auto

section \<open>Which ticks\<close>

lemma ticked_step:
  assumes "system_inv P v issued s" "manager_step P s l s'"
  shows "distinct (ticked_ids l)" "set (ticked_ids l) \<subseteq> known issued (sy_mgr s)"
proof -
  have "distinct (ticked_ids l) \<and> set (ticked_ids l) \<subseteq> known issued (sy_mgr s)"
    using assms(2)
  proof cases
    case (ticked m ks m' w B)
    then have inv: "manager_inv P v issued m" using assms(1) by simp
    from tick_handle_spec [OF inv] ticked have "distinct ks" "set ks = due (pending_ids m)" by auto
    moreover have "due (pending_ids m) \<subseteq> known issued m"
      using manager_invD(5,6) [OF inv] by (auto simp: due_def known_def)
    ultimately show ?thesis using ticked by simp
  qed simp_all
  then show "distinct (ticked_ids l)" "set (ticked_ids l) \<subseteq> known issued (sy_mgr s)" by simp_all
qed

lemma manager_run_known:
  assumes env: "platform_ok P v issued" and run: "manager_run P s ls s'"
    and "system_inv P v issued s" "\<forall>l \<in> set ls. label_ok l"
  shows "known issued (sy_mgr s) \<union> set (all_ticked ls) \<subseteq> known issued (sy_mgr s')"
  using run assms(3,4)
proof induction
  case (step s l s1 ls s2)
  from step.prems have "label_ok l" by simp
  note spec = manager_step_spec(1,2) [OF env step.hyps(1) step.prems(1) this]
  from step.IH [OF spec(1)] spec(2) ticked_step(2) [OF step.prems(1) step.hyps(1)] step.prems(2)
  show ?case by auto
qed simp

text \<open>How often a known identifier is handed out in a run that does not delete it.\<close>

lemma manager_run_ticked_once:
  assumes env: "platform_ok P v issued" and run: "manager_run P s ls s'"
    and "system_inv P v issued s" "\<forall>l \<in> set ls. label_ok l \<and> \<not> deletes k l"
    and "k \<in> known issued (sy_mgr s)"
  shows "count (mset (all_ticked ls)) k =
    (case pending_ids (sy_mgr s) k of None \<Rightarrow> 0 | Some n \<Rightarrow> if n < tick_count ls then 1 else 0)"
  using run assms(3-)
proof induction
  case (step s l s1 ls s2)
  from step.prems have l: "label_ok l" "\<not> deletes k l" by simp_all
  note spec = manager_step_spec [OF env step.hyps(1) step.prems(1) l(1)]
  have k: "k \<in> known issued (sy_mgr s1)" using spec(2) step.prems(3) by blast
  note frame = spec(3) [OF step.prems(3) l(2)]
  have ids: "k \<in> set (ticked_ids l) \<longleftrightarrow> fires k l" by (cases l) simp_all
  have "count (mset (ticked_ids l)) k = (if fires k l then 1 else 0)"
    using ticked_step(1) [OF step.prems(1) step.hyps(1)] by (simp add: distinct_count_atmost_1 ids [symmetric])
  with step.IH [OF spec(1) _ k] step.prems(2) frame show ?case
    by (cases "pending_ids (sy_mgr s) k"; cases "the (pending_ids (sy_mgr s) k)") (auto simp: tick_down_def)
qed (simp split: option.split)

section \<open>Results\<close>

text \<open>The result of a run of a job: it carries the identifier, but for a plugin that is not loaded.\<close>

definition result_of :: "i64 \<Rightarrow> job \<Rightarrow> task_result \<Rightarrow> bool" where
  "result_of k j r \<longleftrightarrow> r_id r = k \<or> j_type j = JobTypePlugin \<and> r = zero_result"

lemma run_job_result: "run_job P m k j w = Ret r w' \<Longrightarrow> j_type j \<noteq> JobTypeUnkown \<Longrightarrow> result_of k j r"
  by (auto simp: run_job_def ended_result_def result_of_def Let_def
      split: job_type.splits prod.splits option.splits outcome.splits)

lemma stored_job_type: "stored_job P v m k j \<Longrightarrow> j_type j \<noteq> JobTypeUnkown"
  by (auto simp: stored_job_def job_marshal_def job_type_marshal_text_def)

text \<open>A turn of the loop writes no result but its own, whatever it meets.\<close>

lemma execute_one_view:
  assumes "platform_ok P v issued" "execute_one P m k j0 (Some t, w) = Ret rj (d, w')"
  shows "\<exists>t'. d = Some t' \<and> (\<forall>i. i \<noteq> k \<longrightarrow>
    store_view v t' (item_bytes (encode_item_id i)) = store_view v t (item_bytes (encode_item_id i)))"
proof -
  have "store_view v (store_result P k r t) (item_bytes (encode_item_id i)) =
      store_view v t (item_bytes (encode_item_id i))" if "i \<noteq> k" for r i
  proof -
    obtain e t' where put: "store_put (pf_db P) t (item_bytes (encode_item_id k)) (result_text P r) = (e, t')" by force
    note facts = task_tables.table_facts(4,5) [OF platform_okD(1) [OF assms(1)]]
    have "store_view v t' (item_bytes (encode_item_id i)) = store_view v t (item_bytes (encode_item_id i))"
    proof (cases e)
      case None
      with facts(1) put that show ?thesis by simp
    next
      case (Some x)
      with facts(2) put show ?thesis by metis
    qed
    with put show ?thesis by (simp add: store_result_def result_marshal_text)
  qed
  with assms(2) show ?thesis
    by (auto simp: execute_one_def failed_result_def Let_def
        split: option.splits sum.splits prod.splits outcome.splits)
qed

lemma execute_loop_view:
  assumes env: "platform_ok P v issued"
  shows "execute_loop P m ks j0 (Some t, w) = Ret rs (d, w') \<Longrightarrow> \<exists>t'. d = Some t' \<and> (\<forall>i. i \<notin> set ks \<longrightarrow>
    store_view v t' (item_bytes (encode_item_id i)) = store_view v t (item_bytes (encode_item_id i)))"
proof (induction ks arbitrary: j0 t w rs)
  case (Cons k ks)
  then obtain r j1 s1 rs' where one: "execute_one P m k j0 (Some t, w) = Ret (r, j1) s1"
    and rest: "execute_loop P m ks j1 s1 = Ret rs' (d, w')"
    by (auto split: outcome.splits prod.splits)
  obtain t1 w1 where s1: "s1 = (Some t1, w1)" "\<forall>i. i \<noteq> k \<longrightarrow>
      store_view v t1 (item_bytes (encode_item_id i)) = store_view v t (item_bytes (encode_item_id i))"
    using execute_one_view [OF env, of m k j0 t w "(r, j1)" "fst s1" "snd s1"] one by (cases s1) auto
  from Cons.IH [OF rest [unfolded s1(1)]] s1(2) show ?case by auto
qed auto

lemma execute_loop_result:
  assumes env: "platform_ok P v issued" "reliable_db (pf_db P)" and j: "stored_job P v m k j"
  shows "execute_loop P m ks j0 (Some t, w) = Ret rs (d, w') \<Longrightarrow> count_list ks k = 1 \<Longrightarrow>
    \<exists>t' r. d = Some t' \<and> r \<in> set rs \<and> result_of k j r \<and>
      store_view v t' (item_bytes (encode_item_id k)) = Some (result_text P r)"
proof (induction ks arbitrary: j0 t w rs)
  case (Cons i ks)
  then obtain r j1 s1 rs' where one: "execute_one P m i j0 (Some t, w) = Ret (r, j1) s1"
    and rest: "execute_loop P m ks j1 s1 = Ret rs' (d, w')" "rs = r # rs'"
    by (auto split: outcome.splits prod.splits)
  show ?case
  proof (cases "i = k")
    case True
    from one execute_one_stored [OF env(1) j, of j0 t w] True obtain w1 where
      run: "run_job P m k j w = Ret r w1" "s1 = (Some (store_result P k r t), w1)"
      by (auto split: outcome.splits)
    from execute_loop_view [OF env(1) rest(1) [unfolded run(2)]] Cons.prems(2) True count_list_0_iff [of ks k]
      store_result_view [OF env result_marshal_text, of k r t] run_job_result [OF run(1) stored_job_type [OF j]] rest(2)
    show ?thesis by auto
  next
    case False
    obtain t1 w1 where s1: "s1 = (Some t1, w1)"
      using execute_one_view [OF env(1), of m i j0 t w "(r, j1)" "fst s1" "snd s1"] one by (cases s1) auto
    from Cons.IH [OF rest(1) [unfolded s1]] Cons.prems(2) False rest(2) show ?thesis by auto
  qed
qed simp

text \<open>Only an execution writes results.\<close>

lemma manager_step_results:
  assumes "manager_step P s l s'" "\<And>ks. l \<noteq> Executed ks"
  shows "mg_dbResult (sy_mgr s') = mg_dbResult (sy_mgr s)" "mg_results (sy_mgr s') = mg_results (sy_mgr s)"
proof -
  have "mg_dbResult (sy_mgr s') = mg_dbResult (sy_mgr s) \<and> mg_results (sy_mgr s') = mg_results (sy_mgr s)"
    using assms by cases
      (auto simp: add_task_def schedule_job_def delete_task_def tick_handle_def watch_handle_def manager_stop_def Let_def
        split: option.splits prod.splits sum.splits outcome.splits if_splits)
  then show "mg_dbResult (sy_mgr s') = mg_dbResult (sy_mgr s)" "mg_results (sy_mgr s') = mg_results (sy_mgr s)"
    by simp_all
qed

text \<open>A result of the job that has been sent to the feed and is in the table.\<close>

definition has_result ::
  "('w, 'g, 'db) platform \<Rightarrow> ('db \<Rightarrow> bytes \<Rightarrow> bytes option) \<Rightarrow> i64 \<Rightarrow> job \<Rightarrow> ('g, 'db) manager \<Rightarrow> task_result \<Rightarrow> bool" where
  "has_result P v k j m r \<longleftrightarrow> result_of k j r \<and> r \<in> set (concat (mg_results m)) \<and>
     (\<exists>t. mg_dbResult m = Some t \<and> store_view v t (item_bytes (encode_item_id k)) = Some (result_text P r))"

lemma executed_step:
  assumes env: "platform_ok P v issued" and step: "manager_step P s (Executed ks) s'" and inv: "system_inv P v issued s"
  obtains t rs t' w' where "mg_dbResult (sy_mgr s) = Some t" "mg_dbResult (sy_mgr s') = Some t'"
    "mg_results (sy_mgr s') = mg_results (sy_mgr s) @ [rs]"
    "execute_loop P (sy_mgr s) ks zero_job (Some t, sy_world s) = Ret rs (Some t', w')"
proof -
  obtain t where t: "mg_dbResult (sy_mgr s) = Some t" using manager_invD(4) [OF inv] by blast
  from step t obtain rs d w' where run: "execute_loop P (sy_mgr s) ks zero_job (Some t, sy_world s) = Ret rs (d, w')"
      "sy_mgr s' = (sy_mgr s)\<lparr>mg_dbResult := d, mg_results := mg_results (sy_mgr s) @ [rs]\<rparr>"
    by (auto elim!: executed_stepE simp: execute_handle_def split: outcome.splits)
  from execute_loop_view [OF env run(1)] run t that show thesis by auto
qed

lemma step_keeps_result:
  assumes env: "platform_ok P v issued" and step: "manager_step P s l s'" and inv: "system_inv P v issued s"
    and "k \<notin> set (executed_ids l)" "has_result P v k j (sy_mgr s) r"
  shows "has_result P v k j (sy_mgr s') r"
proof (cases "\<exists>ks. l = Executed ks")
  case True
  then obtain ks where ks: "l = Executed ks" by blast
  obtain t rs t' w' where x: "mg_dbResult (sy_mgr s) = Some t" "mg_dbResult (sy_mgr s') = Some t'"
    "mg_results (sy_mgr s') = mg_results (sy_mgr s) @ [rs]"
    "execute_loop P (sy_mgr s) ks zero_job (Some t, sy_world s) = Ret rs (Some t', w')"
    by (rule executed_step [OF env step [unfolded ks] inv])
  from execute_loop_view [OF env x(4)] x(1-3) assms(4,5) ks show ?thesis by (auto simp: has_result_def)
next
  case False
  with manager_step_results [OF step] assms(5) show ?thesis by (simp add: has_result_def)
qed

lemma step_gives_result:
  assumes env: "platform_ok P v issued" "reliable_db (pf_db P)" and step: "manager_step P s l s'"
    and inv: "system_inv P v issued s" and "count_list (executed_ids l) k = 1" "stored_job P v (sy_mgr s) k j"
  shows "\<exists>r. has_result P v k j (sy_mgr s') r"
proof -
  obtain ks where ks: "l = Executed ks" "count_list ks k = 1" using assms(5) by (cases l) simp_all
  obtain t rs t' w' where x: "mg_dbResult (sy_mgr s) = Some t" "mg_dbResult (sy_mgr s') = Some t'"
    "mg_results (sy_mgr s') = mg_results (sy_mgr s) @ [rs]"
    "execute_loop P (sy_mgr s) ks zero_job (Some t, sy_world s) = Ret rs (Some t', w')"
    by (rule executed_step [OF env(1) step [unfolded ks(1)] inv])
  from execute_loop_result [OF env assms(6) x(4) ks(2)] x(2,3) show ?thesis by (auto simp: has_result_def)
qed

lemma run_keeps_result:
  assumes env: "platform_ok P v issued" and run: "manager_run P s ls s'"
    and "system_inv P v issued s" "\<forall>l \<in> set ls. label_ok l"
    and "k \<notin> set (all_executed ls)" "has_result P v k j (sy_mgr s) r"
  shows "has_result P v k j (sy_mgr s') r"
  using run assms(3-)
proof induction
  case (step s l s1 ls s2)
  from step.prems have l: "label_ok l" "k \<notin> set (executed_ids l)" by simp_all
  show ?case
    by (rule step.IH [OF manager_step_spec(1) [OF env step.hyps(1) step.prems(1) l(1)] _ _
          step_keeps_result [OF env step.hyps(1) step.prems(1) l(2) step.prems(4)]])
      (use step.prems in simp_all)
qed simp

lemma run_gives_result:
  assumes env: "platform_ok P v issued" "reliable_db (pf_db P)" and run: "manager_run P s ls s'"
    and "system_inv P v issued s" "\<forall>l \<in> set ls. label_ok l \<and> \<not> deletes k l"
    and "k \<in> known issued (sy_mgr s)" "stored_job P v (sy_mgr s) k j" "count_list (all_executed ls) k = 1"
  shows "\<exists>r. has_result P v k j (sy_mgr s') r"
  using run assms(4-)
proof induction
  case (step s l s1 ls s2)
  from step.prems have l: "label_ok l" "\<not> deletes k l" by simp_all
  note spec = manager_step_spec [OF env(1) step.hyps(1) step.prems(1) l(1)]
  show ?case
  proof (cases "k \<in> set (executed_ids l)")
    case True
    then have "count_list (executed_ids l) k \<noteq> 0" by (simp add: count_list_0_iff)
    with step.prems(5) have n: "count_list (executed_ids l) k = 1" "count_list (all_executed ls) k = 0"
      by (simp_all add: history_simps)
    obtain r where "has_result P v k j (sy_mgr s1) r"
      using step_gives_result [OF env step.hyps(1) step.prems(1) n(1) step.prems(4)] by blast
    with run_keeps_result [OF env(1) step.hyps(2) spec(1)] n(2) step.prems(2) show ?thesis
      by (auto simp: count_list_0_iff)
  next
    case False
    show ?thesis
      by (rule step.IH [OF spec(1)])
        (use step.prems spec(2,3) l False in \<open>auto simp: count_list_0_iff [symmetric]\<close>)
  qed
qed simp

section \<open>From the request to the result\<close>

text \<open>The new task in the state that \<open>AddTask\<close> leaves.\<close>

lemma added_step:
  assumes env: "platform_ok P v issued" and inv: "system_inv P v issued s" and j: "acceptable j"
    and step: "manager_step P s (Added j k) s'"
  shows "k \<notin> known issued (sy_mgr s)" "k \<in> known issued (sy_mgr s')" "system_inv P v issued s'"
    "pending_ids (sy_mgr s') k = Some (job_ticks j)"
    "stored_job P v (sy_mgr s') k (j\<lparr>j_uuid := encode_item_id k\<rparr>)" "sy_batches s' = sy_batches s"
proof -
  from step obtain m w m' w' where m: "add_task P j m w = Ret (Inr k) (m', w')" "sy_mgr s = m" "sy_mgr s' = m'"
    "sy_batches s' = sy_batches s" by (auto elim: added_stepE)
  note ret = add_task_ret [OF env _ j m(1)]
  have "k \<notin> known issued m \<and> k \<in> known issued m' \<and> manager_inv P v issued m' \<and>
      pending_ids m' k = Some (job_ticks j) \<and> stored_job P v m' k (j\<lparr>j_uuid := encode_item_id k\<rparr>)"
    using ret(1,4,5) inv m(2) by simp
  with m show "k \<notin> known issued (sy_mgr s)" "k \<in> known issued (sy_mgr s')" "system_inv P v issued s'"
    "pending_ids (sy_mgr s') k = Some (job_ticks j)"
    "stored_job P v (sy_mgr s') k (j\<lparr>j_uuid := encode_item_id k\<rparr>)" "sy_batches s' = sy_batches s" by simp_all
qed

text \<open>A whole life: a manager that has just started, a run, an \<open>AddTask\<close> that returns \<open>k\<close>, and a run that does
  not delete \<open>k\<close>. The method of the API that calls \<open>AddTask\<close> has read the clock, so the world may have changed before.\<close>

definition task_life ::
  "('w, 'g, 'db) platform \<Rightarrow> ('g, 'db) manager \<Rightarrow> 'w \<Rightarrow> label list \<Rightarrow> job \<Rightarrow> i64 \<Rightarrow> label list \<Rightarrow> ('w, 'g, 'db) system \<Rightarrow> bool" where
  "task_life P m w ls0 j k ls s2 \<longleftrightarrow>
     (\<exists>s0 w1 s1. manager_run P \<lparr>sy_mgr = m, sy_world = w, sy_batches = []\<rparr> ls0 s0 \<and>
        manager_step P (s0\<lparr>sy_world := w1\<rparr>) (Added j k) s1 \<and> manager_run P s1 ls s2) \<and>
     (\<forall>l \<in> set (ls0 @ Added j k # ls). label_ok l) \<and> (\<forall>l \<in> set ls. \<not> deletes k l)"

lemma task_lifeI:
  assumes "manager_run P \<lparr>sy_mgr = m, sy_world = w, sy_batches = []\<rparr> ls0 s0" "manager_step P (s0\<lparr>sy_world := w1\<rparr>) (Added j k) s1"
    and "manager_run P s1 ls s2" "\<forall>l \<in> set (ls0 @ Added j k # ls). label_ok l" "\<forall>l \<in> set ls. \<not> deletes k l"
  shows "task_life P m w ls0 j k ls s2"
  using assms unfolding task_life_def by blast

lemma task_life_parts:
  assumes env: "platform_ok P v issued" and inv: "manager_inv P v issued m" and life: "task_life P m w ls0 j k ls s2"
  obtains s1 where "manager_run P s1 ls s2" "system_inv P v issued s1" "k \<in> known issued (sy_mgr s1)"
    "stored_job P v (sy_mgr s1) k (j\<lparr>j_uuid := encode_item_id k\<rparr>)" "\<forall>l \<in> set ls. label_ok l \<and> \<not> deletes k l"
    "count_list (all_executed ls0) k = 0"
    "count_list (all_executed ls) k + count_list (waiting_ids s2) k = (if job_ticks j < tick_count ls then 1 else 0)"
proof -
  let ?s = "\<lparr>sy_mgr = m, sy_world = w, sy_batches = []\<rparr>"
  from life obtain s0 w1 s1 where run: "manager_run P ?s ls0 s0" "manager_step P (s0\<lparr>sy_world := w1\<rparr>) (Added j k) s1" "manager_run P s1 ls s2"
    and ok: "\<forall>l \<in> set ls0. label_ok l" "acceptable j" "\<forall>l \<in> set ls. label_ok l \<and> \<not> deletes k l"
    by (auto simp: task_life_def)
  have inv0: "system_inv P v issued (s0\<lparr>sy_world := w1\<rparr>)" using manager_run_inv [OF env run(1)] inv ok(1) by simp
  note added = added_step [OF env inv0 ok(2) run(2)]
  have "k \<notin> set (all_ticked ls0)" using manager_run_known [OF env run(1) _ ok(1)] inv added(1) by auto
  moreover have "mset (all_ticked ls0) = mset (all_executed ls0) + mset (waiting_ids s0)"
    using manager_run_account [OF run(1)] by (simp add: waiting_ids_def)
  ultimately have before: "count (mset (all_executed ls0)) k = 0" "count (mset (waiting_ids s0)) k = 0"
    by (metis count_mset_0_iff count_union add_is_0)+
  have "count (mset (all_executed ls)) k + count (mset (waiting_ids s2)) k = count (mset (waiting_ids s1)) k + count (mset (all_ticked ls)) k"
    by (simp only: manager_run_account [OF run(3)] count_union [symmetric])
  with before manager_run_ticked_once [OF env run(3) added(3) ok(3) added(2)] added(4,6)
  have "count_list (all_executed ls) k + count_list (waiting_ids s2) k = (if job_ticks j < tick_count ls then 1 else 0)"
    by (simp add: count_mset_list waiting_ids_def)
  with that [OF run(3) added(3,2,5) ok(3)] before(1) show thesis by (simp add: count_mset_list)
qed

text \<open>C2: The task of a successful \<open>AddTask\<close> is executed at most once in the whole life of the manager: while its delay has not
  passed, neither an execution nor a waiting goroutine has it; when the tick after its delay has come, either
  exactly one execution has had it, or exactly one goroutine that waits still has it. The system may
  interleave all its requests, ticks, executions and watcher events, as long as the task is not deleted, added jobs have a
  UTF-8 name and a natural delay that the wheel can hold, and deleted identifiers have eight bytes (\<open>label_ok\<close>).\<close>

theorem added_task_is_executed_once:
  assumes "platform_ok P v issued" "new_manager dataDir = Inr m0" "manager_start P nodeID m0 w0 = Ret None (m, w)"
    and "task_life P m w ls0 j k ls s2"
  shows "count_list (all_executed (ls0 @ Added j k # ls)) k + count_list (concat (sy_batches s2)) k =
    (if job_ticks j < tick_count ls then 1 else 0)"
  by (rule task_life_parts [OF assms(1) start_inv [OF assms(2,3)] assms(4)]) (simp add: waiting_ids_def)

text \<open>When the task has been executed and the database takes the writes, a result of it has been sent to the
  subscribers and \<open>GetResult\<close> returns it, whatever has happened since. The result carries the identifier of the
  task, but for a plugin task whose module was not loaded: its result is empty.\<close>

theorem executed_task_has_its_result:
  assumes "platform_ok P v issued" "reliable_db (pf_db P)"
    and "new_manager dataDir = Inr m0" "manager_start P nodeID m0 w0 = Ret None (m, w)"
    and "task_life P m w ls0 j k ls s2" "job_ticks j < tick_count ls" "k \<notin> set (concat (sy_batches s2))"
  shows "\<exists>r. r \<in> set (concat (mg_results (sy_mgr s2))) \<and> (r_id r = k \<or> j_type j = JobTypePlugin \<and> r = zero_result) \<and>
    get_result P (query k) (sy_mgr s2) = Inr (Inr (str_of_bytes (result_text P r)))"
proof -
  obtain s1 where s1: "manager_run P s1 ls s2" "system_inv P v issued s1" "k \<in> known issued (sy_mgr s1)"
    "stored_job P v (sy_mgr s1) k (j\<lparr>j_uuid := encode_item_id k\<rparr>)" "\<forall>l \<in> set ls. label_ok l \<and> \<not> deletes k l"
    "count_list (all_executed ls) k = 1"
    by (rule task_life_parts [OF assms(1) start_inv [OF assms(3,4)] assms(5)])
      (use assms(6,7) in \<open>simp add: waiting_ids_def count_notin\<close>)
  from run_gives_result [OF assms(1,2) s1(1,2,5,3,4,6)] obtain r t where r: "r \<in> set (concat (mg_results (sy_mgr s2)))"
    "result_of k (j\<lparr>j_uuid := encode_item_id k\<rparr>) r" "mg_dbResult (sy_mgr s2) = Some t"
    "store_view v t (item_bytes (encode_item_id k)) = Some (result_text P r)"
    by (auto simp: has_result_def)
  from get_result_iff [OF assms(1) r(3)] r show ?thesis by (auto simp: result_of_def)
qed

section \<open>A life on the platform in memory\<close>

lemma tick_step:
  assumes "system_inv P v issued s"
  obtains ks s' where "manager_step P s (Ticked ks) s'" "distinct ks" "set ks = due (pending_ids (sy_mgr s))"
    "pending_ids (sy_mgr s') = tick_down (pending_ids (sy_mgr s))" "mg_dbResult (sy_mgr s') = mg_dbResult (sy_mgr s)"
    "sy_batches s' = (if ks = [] then sy_batches s else sy_batches s @ [ks])"
proof -
  obtain ks m' where t: "tick_handle (sy_mgr s) = Ret ks m'" "distinct ks" "set ks = due (pending_ids (sy_mgr s))"
    "pending_ids m' = tick_down (pending_ids (sy_mgr s))" by (rule tick_handle_spec [OF assms])
  have step: "manager_step P s (Ticked ks)
      \<lparr>sy_mgr = m', sy_world = sy_world s, sy_batches = (if ks = [] then sy_batches s else sy_batches s @ [ks])\<rparr>"
    using manager_step.ticked [where P = P, OF t(1), of "sy_world s" "sy_batches s"] by (cases s) (simp split del: if_split)
  from manager_step_results(1) [OF step] that [OF step t(2,3)] t(4) show thesis by simp
qed

lemma sample_ticks:
  assumes "system_inv sample_platform (\<lambda>d. d) sample_issued s" "pending_ids (sy_mgr s) = [1 \<mapsto> 1]" "sy_batches s = []"
  obtains s' where "manager_run sample_platform s [Ticked [], Ticked [1]] s'" "sy_batches s' = [[1]]"
proof -
  have down: "due [1 :: i64 \<mapsto> 1] = {}" "tick_down [1 :: i64 \<mapsto> 1] = [1 \<mapsto> 0]" "due [1 :: i64 \<mapsto> 0] = {1}"
    by (auto simp: due_def tick_down_def fun_eq_iff split: if_splits)
  obtain a t1 where a: "manager_step sample_platform s (Ticked a) t1" "set a = due (pending_ids (sy_mgr s))"
    "pending_ids (sy_mgr t1) = tick_down (pending_ids (sy_mgr s))" "sy_batches t1 = (if a = [] then sy_batches s else sy_batches s @ [a])"
    by (rule tick_step [OF assms(1)])
  have inv: "system_inv sample_platform (\<lambda>d. d) sample_issued t1"
    by (rule manager_step_spec(1) [OF sample_platform_ok a(1) assms(1)]) simp
  obtain b t2 where b: "manager_step sample_platform t1 (Ticked b) t2" "distinct b" "set b = due (pending_ids (sy_mgr t1))"
    "sy_batches t2 = (if b = [] then sy_batches t1 else sy_batches t1 @ [b])"
    by (rule tick_step [OF inv])
  have "a = []" using a(2) assms(2) down(1) by simp
  moreover have "set b = {1}" using b(3) a(3) assms(2) down(2,3) by simp
  with b(2) have "b = [1]" by (cases b; cases "tl b") auto
  ultimately show thesis using that [of t2] a(1,4) b(1,4) assms(3) by (auto intro: manager_run.intros)
qed

text \<open>The whole life of a command task with a delay of one second, the first of a manager that has just started.\<close>

lemma sample_life:
  assumes "new_manager dataDir = Inr m0" "manager_start sample_platform nodeID m0 w0 = Ret None (m, w)"
    and j: "acceptable j" "j_type j = JobTypeCmd" "job_ticks j = 1"
  obtains m1 s2 s3 where "add_task sample_platform j m w1 = Ret (Inr 1) (m1, w1)"
    "manager_run sample_platform \<lparr>sy_mgr = m1, sy_world = w1, sy_batches = []\<rparr> [Ticked [], Ticked [1]] s2"
    "manager_run sample_platform \<lparr>sy_mgr = m1, sy_world = w1, sy_batches = []\<rparr> [Ticked [], Ticked [1], Executed [1]] s3"
    "sy_batches s3 = []"
proof -
  let ?P = sample_platform
  from start_ret [OF assms(1,2), of "\<lambda>d. d" sample_issued] have
    inv: "manager_inv ?P (\<lambda>d. d) sample_issued m" "pending_ids m = Map.empty" by simp_all
  obtain m1 where add: "add_task ?P j m w1 = Ret (Inr 1) (m1, w1)"
    by (rule sample_add [OF inv(1) sample_start_gen [OF assms(2)] j(1,2)])
  let ?s1 = "\<lparr>sy_mgr = m1, sy_world = w1, sy_batches = []\<rparr>"
  note ret = add_task_ret [OF sample_platform_ok inv(1) j(1) add]
  have inv1: "system_inv ?P (\<lambda>d. d) sample_issued ?s1" "pending_ids (sy_mgr ?s1) = [1 \<mapsto> 1]"
    using ret(1) ret(4) [OF refl] inv(2) j(3) by simp_all
  obtain s2 where run: "manager_run ?P ?s1 [Ticked [], Ticked [1]] s2" "sy_batches s2 = [[1]]"
    by (rule sample_ticks [OF inv1]) simp
  have inv2: "system_inv ?P (\<lambda>d. d) sample_issued s2" by (rule manager_run_inv [OF sample_platform_ok run(1) inv1(1)]) simp
  have stored: "stored_job ?P (\<lambda>d. d) (sy_mgr s2) 1 (j\<lparr>j_uuid := encode_item_id 1\<rparr>)"
    using manager_run_keeps [OF sample_platform_ok run(1) inv1(1), of 1] ret(5) [OF refl] by simp
  obtain t where t: "mg_dbResult (sy_mgr s2) = Some t" using manager_invD(4) [OF inv2] by blast
  have "\<exists>m' w'. execute_handle ?P [1] (sy_mgr s2) (sy_world s2) = Ret () (m', w')"
    using t execute_one_stored [OF sample_platform_ok stored, of zero_job t "sy_world s2"] j(2)
    by (simp add: execute_handle_def run_job_def ended_result_def now_unix_def)
  then obtain m' w' where "execute_handle ?P [1] (sy_mgr s2) (sy_world s2) = Ret () (m', w')" by blast
  from manager_step.executed [OF this, of "[]" "[]"] run(2) obtain s3 where
    "manager_step ?P s2 (Executed [1]) s3" "sy_batches s3 = []" by (cases s2) auto
  with that [OF add run(1)] run(1) show thesis by (auto simp: manager_run_Cons)
qed

lemma sample_life_job:
  "acceptable (sample_job JobTypeCmd c 1)" "job_ticks (sample_job JobTypeCmd c 1) = 1" "j_type (sample_job JobTypeCmd c 1) = JobTypeCmd"
  by (simp_all add: acceptable_def sample_job_def job_ticks_def fits_duration_def second_def)

lemma sample_task_life:
  assumes "add_task sample_platform j m w = Ret (Inr 1) (m1, w)" "acceptable j"
    and "manager_run sample_platform \<lparr>sy_mgr = m1, sy_world = w, sy_batches = []\<rparr> ls s2"
    and "\<forall>l \<in> set ls. label_ok l \<and> \<not> deletes 1 l"
  shows "task_life sample_platform m w [] j 1 ls s2"
  using manager_step.added [OF assms(1), of "[]"] assms(2-4)
  by (intro task_lifeI [where ?s0.0 = "\<lparr>sy_mgr = m, sy_world = w, sy_batches = []\<rparr>" and ?w1.0 = w]) auto

theorem added_task_is_executed_once_witness:
  "\<exists>m0 m w s2. new_manager ''/data'' = Inr m0 \<and>
     manager_start sample_platform ''7'' m0 (0, Map.empty) = Ret None (m, w) \<and>
     task_life sample_platform m w [] (sample_job JobTypeCmd ''ls'' 1) 1 [Ticked [], Ticked [1]] s2 \<and>
     count_list (concat (sy_batches s2)) 1 = 1"
proof -
  obtain m0 m w where s: "new_manager ''/data'' = Inr m0" "manager_start sample_platform ''7'' m0 (0, Map.empty) = Ret None (m, w)"
    by (rule sample_started)
  obtain m1 s2 where l: "add_task sample_platform (sample_job JobTypeCmd ''ls'' 1) m w = Ret (Inr 1) (m1, w)"
    "manager_run sample_platform \<lparr>sy_mgr = m1, sy_world = w, sy_batches = []\<rparr> [Ticked [], Ticked [1]] s2"
    by (rule sample_life [OF s sample_life_job(1,3,2)])
  have life: "task_life sample_platform m w [] (sample_job JobTypeCmd ''ls'' 1) 1 [Ticked [], Ticked [1]] s2"
    by (rule sample_task_life [OF l(1) sample_life_job(1) l(2)]) simp
  from added_task_is_executed_once [OF sample_platform_ok s life]
  have "count_list (concat (sy_batches s2)) 1 = 1" by (simp add: sample_life_job)
  with s life show ?thesis by blast
qed

theorem executed_task_has_its_result_witness:
  "\<exists>m0 m w s2 r. new_manager ''/data'' = Inr m0 \<and>
     manager_start sample_platform ''7'' m0 (0, Map.empty) = Ret None (m, w) \<and>
     task_life sample_platform m w [] (sample_job JobTypeCmd ''ls'' 1) 1 [Ticked [], Ticked [1], Executed [1]] s2 \<and>
     r_id r = 1 \<and> get_result sample_platform (query 1) (sy_mgr s2) = Inr (Inr (str_of_bytes (result_text sample_platform r)))"
proof -
  let ?j = "sample_job JobTypeCmd ''ls'' 1"
  obtain m0 m w where s: "new_manager ''/data'' = Inr m0" "manager_start sample_platform ''7'' m0 (0, Map.empty) = Ret None (m, w)"
    by (rule sample_started)
  obtain m1 s3 where l: "add_task sample_platform ?j m w = Ret (Inr 1) (m1, w)"
    "manager_run sample_platform \<lparr>sy_mgr = m1, sy_world = w, sy_batches = []\<rparr> [Ticked [], Ticked [1], Executed [1]] s3"
    "sy_batches s3 = []"
    by (rule sample_life [OF s sample_life_job(1,3,2)])
  have life: "task_life sample_platform m w [] ?j 1 [Ticked [], Ticked [1], Executed [1]] s3"
    by (rule sample_task_life [OF l(1) sample_life_job(1) l(2)]) simp
  from executed_task_has_its_result [OF sample_platform_ok _ s life] l(3) sample_reliable
  obtain r where "r_id r = 1" "get_result sample_platform (query 1) (sy_mgr s3) = Inr (Inr (str_of_bytes (result_text sample_platform r)))"
    by (auto simp: sample_life_job)
  with s life show ?thesis by blast
qed

end
