(* ===== verification/Task_Request.thy ===== *)
theory Task_Request
  imports Task_Api Task_Lifecycle
begin

text \<open>
  A request from end to end: \<open>AddTask\<close> of the API (\<open>node/task/api.go\<close>), the manager with its wheel and goroutines
  (\<open>node/task/manager.go\<close>), and the query \<open>GetResult\<close>. The lemmas say which job a request becomes and put it into the
  life of a task.
\<close>

section \<open>The job of a request\<close>

text \<open>The delay that a request without a date asks for, in ticks.\<close>

definition args_ticks :: "job_args \<Rightarrow> nat" where
  "args_ticks args = (if a_interval args = 0 then 1 else nat (sint (a_interval args)))"

lemma to_job_interval:
  assumes "to_job P True args w = Ret (Inr j) w1" "a_datetime args = 0"
  shows "j_interval j = (if a_interval args = 0 then 1 else a_interval args)" "a_name args = Some (j_name j)"
    "j_type j = JobTypePlugin \<Longrightarrow> a_type args = Some ''plugin''"
  using assms
  by (auto simp: to_job_def args_interval_def parse_type_def Let_def split: option.splits sum.splits prod.splits if_splits)

lemma api_add_task_job:
  assumes "api_add_task P args m w = Ret (Inr k) (m1, w1)" "a_datetime args = 0"
    and "0 \<le> sint (a_interval args)" "fits_duration (args_ticks args)" "\<forall>nm. a_name args = Some nm \<longrightarrow> utf8_ok nm"
  obtains j w' where "add_task P j m w' = Ret (Inr k) (m1, w1)" "acceptable j" "job_ticks j = args_ticks args"
    "j_type j = JobTypePlugin \<longrightarrow> a_type args = Some ''plugin''"
proof -
  from assms(1) obtain j w' where j: "to_job P True args w = Ret (Inr j) w'" "add_task P j m w' = Ret (Inr k) (m1, w1)"
    by (auto simp: api_add_task_def split: outcome.splits sum.splits)
  note job = to_job_interval [OF j(1) assms(2)]
  have ticks: "job_ticks j = args_ticks args" by (simp add: job_ticks_def args_ticks_def job(1))
  have acc: "acceptable j" using assms(3-5) job(1,2) ticks by (simp add: acceptable_def)
  show thesis by (rule that [OF j(2) acc ticks]) (use job(3) in blast)
qed

lemma api_get_result_query:
  assumes "a_name q \<noteq> None" "a_uuid q = k" "k \<noteq> 0"
  shows "api_get_result P q m w = get_result P (query k) m"
  using assms by (auto simp: api_get_result_def with_id_def to_job_def query_def)

section \<open>From the request to the answer\<close>

text \<open>C3: A request that \<open>AddTask\<close> of the API accepts, without a date, with a UTF-8 name and with a natural delay of \<open>n\<close> seconds
  that the wheel can hold (1 when it gives none), has been executed exactly once when \<open>n\<close> ticks and one more have passed and
  no goroutine still waits with it, under every interleaving that does not delete it. The database takes its writes; then
  its result has been sent to the subscribers, and \<open>GetResult\<close> of the API returns it for
  the identifier that the request was given; it carries that identifier, but for a plugin that was not loaded, whose result
  is empty.\<close>

theorem request_ends_with_its_result:
  assumes "platform_ok P v issued" "reliable_db (pf_db P)"
    and "new_manager dataDir = Inr m0" "manager_start P nodeID m0 w0 = Ret None (m, w)"
    and "manager_run P \<lparr>sy_mgr = m, sy_world = w, sy_batches = []\<rparr> ls0 s0"
    and "api_add_task P args (sy_mgr s0) (sy_world s0) = Ret (Inr k) (m1, w1)"
    and "a_datetime args = 0" "0 \<le> sint (a_interval args)" "fits_duration (args_ticks args)"
    and "\<forall>nm. a_name args = Some nm \<longrightarrow> utf8_ok nm"
    and "manager_run P \<lparr>sy_mgr = m1, sy_world = w1, sy_batches = sy_batches s0\<rparr> ls s2"
    and "\<forall>l \<in> set (ls0 @ ls). label_ok l" "\<forall>l \<in> set ls. \<not> deletes k l"
    and "args_ticks args < tick_count ls" "k \<notin> set (concat (sy_batches s2))"
    and "a_name q \<noteq> None" "a_uuid q = k" "k \<noteq> 0"
  shows "count_list (all_executed (ls0 @ ls)) k = 1 \<and>
    (\<exists>r. r \<in> set (concat (mg_results (sy_mgr s2))) \<and>
       (r_id r = k \<or> a_type args = Some ''plugin'' \<and> r = zero_result) \<and>
       api_get_result P q (sy_mgr s2) w' = Inr (Inr (str_of_bytes (result_text P r))))"
proof -
  obtain j wa where j: "add_task P j (sy_mgr s0) wa = Ret (Inr k) (m1, w1)" "acceptable j" "job_ticks j = args_ticks args"
    "j_type j = JobTypePlugin \<longrightarrow> a_type args = Some ''plugin''"
    by (rule api_add_task_job [OF assms(6-10)])
  have "manager_step P (s0\<lparr>sy_world := wa\<rparr>) (Added j k) \<lparr>sy_mgr = m1, sy_world = w1, sy_batches = sy_batches s0\<rparr>"
    using manager_step.added [where P = P, OF j(1), of "sy_batches s0"] by (cases s0) simp
  with assms(5,11-13) j(2) have life: "task_life P m w ls0 j k ls s2" by (intro task_lifeI) auto
  have "count_list (all_executed (ls0 @ ls)) k = 1"
    by (rule task_life_parts [OF assms(1) start_inv [OF assms(3,4)] life])
      (use assms(14,15) j(3) in \<open>simp add: waiting_ids_def count_notin\<close>)
  moreover have "api_get_result P q (sy_mgr s2) w' = get_result P (query k) (sy_mgr s2)"
    by (rule api_get_result_query [OF assms(16-18)])
  moreover have "job_ticks j < tick_count ls" using assms(14) j(3) by simp
  ultimately show ?thesis using executed_task_has_its_result [OF assms(1-4) life _ assms(15)] j(4) by auto
qed

section \<open>A request on the platform in memory\<close>

theorem request_ends_with_its_result_witness:
  "\<exists>m0 m w m1 w1 s2 r. new_manager ''/data'' = Inr m0 \<and>
     manager_start sample_platform ''7'' m0 (0, Map.empty) = Ret None (m, w) \<and>
     api_add_task sample_platform (add_args ''dev'' ''cmd'' (bytes_of_str ''ls'')) m w = Ret (Inr 1) (m1, w1) \<and>
     manager_run sample_platform \<lparr>sy_mgr = m1, sy_world = w1, sy_batches = []\<rparr> [Ticked [], Ticked [1], Executed [1]] s2 \<and>
     r_id r = 1 \<and> api_get_result sample_platform ((add_args ''dev'' ''cmd'' [])\<lparr>a_uuid := 1\<rparr>) (sy_mgr s2) w1 =
       Inr (Inr (str_of_bytes (result_text sample_platform r)))"
proof -
  let ?P = sample_platform and ?args = "add_args ''dev'' ''cmd'' (bytes_of_str ''ls'')"
  let ?q = "(add_args ''dev'' ''cmd'' [])\<lparr>a_uuid := 1\<rparr>"
  obtain m0 m w where s: "new_manager ''/data'' = Inr m0" "manager_start ?P ''7'' m0 (0, Map.empty) = Ret None (m, w)"
    by (rule sample_started)
  obtain j w1 where j: "to_job ?P True ?args w = Ret (Inr j) w1" "j_name j = ''dev''" "j_type j = JobTypeCmd" "j_interval j = 1"
    by (cases w) (simp add: to_job_def args_interval_def add_args_def parse_type_def now_unix_def Let_def)
  then have job: "acceptable j" "job_ticks j = 1"
    by (simp_all add: acceptable_def job_ticks_def fits_duration_def second_def)
  obtain m1 s3 where l: "add_task ?P j m w1 = Ret (Inr 1) (m1, w1)"
    "manager_run ?P \<lparr>sy_mgr = m1, sy_world = w1, sy_batches = []\<rparr> [Ticked [], Ticked [1], Executed [1]] s3" "sy_batches s3 = []"
    by (rule sample_life [OF s job(1) j(3) job(2)])
  have api: "api_add_task ?P ?args m w = Ret (Inr 1) (m1, w1)" using j(1) l(1) by (simp add: api_add_task_def)
  have args: "args_ticks ?args = 1" "fits_duration (args_ticks ?args)" "a_datetime ?args = 0" "a_interval ?args = 0"
    "\<forall>nm. a_name ?args = Some nm \<longrightarrow> utf8_ok nm"
    by (simp_all add: args_ticks_def add_args_def fits_duration_def second_def)
  have q: "a_name ?q \<noteq> None" "a_uuid ?q = 1" "a_type ?args \<noteq> Some ''plugin''" by (simp_all add: add_args_def)
  from request_ends_with_its_result [OF sample_platform_ok _ s manager_run.idle, of ?args 1 m1 w1
      "[Ticked [], Ticked [1], Executed [1]]" s3 ?q w1] sample_reliable api args l(2,3) q
  obtain r where "r_id r = 1" "api_get_result ?P ?q (sy_mgr s3) w1 = Inr (Inr (str_of_bytes (result_text ?P r)))" by auto
  with s api l(2) show ?thesis by blast
qed

end
