(* ===== verification/Event_Msg.thy ===== *)
theory Event_Msg
  imports Task_Result
begin

text \<open>
  The broadcast of task events to subscriptions, \<open>node/subscribe/subscribe.go\<close>: the goroutine of
  \<open>eventLoop\<close>, the clients that install, read and uninstall subscriptions, and the channels between
  them, with their capacities, as a step relation. A send on a full channel blocks: the loop stays
  in the middle of a broadcast until the receiver makes room; on a channel without places it stays until the
  receiver takes the event. Go ranges over the index in an
  unspecified order, so a broadcast may serve its subscriptions in any order. The history
  fields \<open>sb_due\<close> and \<open>sb_got\<close> record what was broadcast while a subscription was installed
  and what its reader took; no step looks at them.
  The lemmas show that nothing is lost or reordered, and which clients can always uninstall.
\<close>

section \<open>State\<close>

datatype sub_type =
    UnknownSubscription
  | ResultsTaskSubscription
  | NewTaskSubscription
  | LastIndexSubscription

definition addEvChanSize :: nat where "addEvChanSize = 128"
definition resultEvChanSize :: nat where "resultEvChanSize = 64"

datatype task_event = EvResults "task_result list" | EvAdded i64

type_synonym sub_id = nat

text \<open>A subscription: its kind, the capacity and content of its channel (\<open>results\<close> or \<open>adds\<close>; the other
  one is nil), and where its client is: it waits to be installed, it reads, it is in the loop of
  \<open>Unsubscribe\<close>, or it is done.\<close>

datatype sub_phase = Installing | Reading | Unsubscribing | Uninstalled

record subscription =
  sb_typ :: sub_type
  sb_cap :: nat
  sb_chan :: "task_event list"
  sb_phase :: sub_phase
  sb_due :: "task_event list"
  sb_got :: "task_event list"

text \<open>The loop waits in its \<open>select\<close>, is in the middle of a broadcast with some subscriptions left, or
  has returned.\<close>

datatype loop_state = Waiting | Sending task_event "sub_id list" | Returned

record event_msg =
  es_resultsCh :: "task_result list list"
  es_addsCh :: "i64 list"
  es_index :: "sub_type \<Rightarrow> sub_id list"
  es_subs :: "sub_id \<Rightarrow> subscription option"
  es_loop :: loop_state

text \<open>\<open>NewEventMsg\<close>; the two arguments say whether the backend's subscriptions are not nil.\<close>

definition new_event_msg :: "bool \<Rightarrow> bool \<Rightarrow> error + event_msg" where
  "new_event_msg resultsSub addsSub =
     (if \<not> resultsSub \<or> \<not> addsSub then Inl (ErrNew ''subscribe for event system failed'')
      else Inr \<lparr>es_resultsCh = [], es_addsCh = [], es_index = (\<lambda>_. []), es_subs = (\<lambda>_. None),
                es_loop = Waiting\<rparr>)"

section \<open>The steps of the loop\<close>

definition event_sub_type :: "task_event \<Rightarrow> sub_type" where
  "event_sub_type ev =
     (case ev of EvResults rs \<Rightarrow> ResultsTaskSubscription | EvAdded k \<Rightarrow> NewTaskSubscription)"

definition upd_sub :: "(subscription \<Rightarrow> subscription) \<Rightarrow> sub_id \<Rightarrow> event_msg \<Rightarrow> event_msg" where
  "upd_sub f i es = es\<lparr>es_subs := (es_subs es)(i := map_option f (es_subs es i))\<rparr>"

text \<open>\<open>broadcast\<close> begins: \<open>order\<close> is the order in which the range visits the index.\<close>

definition begin_broadcast :: "task_event \<Rightarrow> sub_id list \<Rightarrow> event_msg \<Rightarrow> event_msg" where
  "begin_broadcast ev order es =
     es\<lparr>es_loop := Sending ev order,
        es_subs := (\<lambda>i. if i \<in> set order then map_option (sb_due_update (\<lambda>d. d @ [ev])) (es_subs es i)
                        else es_subs es i)\<rparr>"

text \<open>One send of the range, possible when the channel has room.\<close>

definition deliver :: "task_event \<Rightarrow> sub_id list \<Rightarrow> sub_id \<Rightarrow> event_msg \<Rightarrow> event_msg" where
  "deliver ev rest i es = (upd_sub (sb_chan_update (\<lambda>c. c @ [ev])) i es)\<lparr>es_loop := Sending ev rest\<rparr>"

definition install_sub :: "sub_id \<Rightarrow> event_msg \<Rightarrow> event_msg" where
  "install_sub i es =
     (case es_subs es i of
        None \<Rightarrow> es
      | Some f \<Rightarrow>
          (upd_sub (sb_phase_update (\<lambda>_. Reading)) i es)
            \<lparr>es_index := (es_index es)(sb_typ f := i # filter (\<lambda>x. x \<noteq> i) (es_index es (sb_typ f)))\<rparr>)"

definition uninstall_sub :: "sub_id \<Rightarrow> event_msg \<Rightarrow> event_msg" where
  "uninstall_sub i es =
     (case es_subs es i of
        None \<Rightarrow> es
      | Some f \<Rightarrow>
          (upd_sub (sb_phase_update (\<lambda>_. Uninstalled)) i es)
            \<lparr>es_index := (es_index es)(sb_typ f := filter (\<lambda>x. x \<noteq> i) (es_index es (sb_typ f)))\<rparr>)"

text \<open>A receive takes the head of the channel.\<close>

definition take_one :: "sub_id \<Rightarrow> event_msg \<Rightarrow> event_msg" where
  "take_one i es =
     upd_sub (\<lambda>f. f\<lparr>sb_chan := tl (sb_chan f), sb_got := sb_got f @ [hd (sb_chan f)]\<rparr>) i es"

section \<open>The step relation\<close>

inductive es_step :: "event_msg \<Rightarrow> event_msg \<Rightarrow> bool" where
  feed_results: "length (es_resultsCh es) < resultEvChanSize \<Longrightarrow>
     es_step es (es\<lparr>es_resultsCh := es_resultsCh es @ [rs]\<rparr>)"
| feed_added: "length (es_addsCh es) < addEvChanSize \<Longrightarrow>
     es_step es (es\<lparr>es_addsCh := es_addsCh es @ [k]\<rparr>)"
| loop_results: "es_loop es = Waiting \<Longrightarrow> es_resultsCh es = rs # q \<Longrightarrow>
     distinct order \<Longrightarrow> set order = set (es_index es ResultsTaskSubscription) \<Longrightarrow>
     es_step es (begin_broadcast (EvResults rs) order (es\<lparr>es_resultsCh := q\<rparr>))"
| loop_added: "es_loop es = Waiting \<Longrightarrow> es_addsCh es = k # q \<Longrightarrow>
     distinct order \<Longrightarrow> set order = set (es_index es NewTaskSubscription) \<Longrightarrow>
     es_step es (begin_broadcast (EvAdded k) order (es\<lparr>es_addsCh := q\<rparr>))"
| loop_send: "es_loop es = Sending ev (i # rest) \<Longrightarrow> es_subs es i = Some f \<Longrightarrow>
     length (sb_chan f) < sb_cap f \<Longrightarrow> es_step es (deliver ev rest i es)"
| loop_hand: "es_loop es = Sending ev (i # rest) \<Longrightarrow> es_subs es i = Some f \<Longrightarrow> sb_cap f = 0 \<Longrightarrow>
     sb_phase f = Reading \<or> sb_phase f = Unsubscribing \<and> sb_typ f = ResultsTaskSubscription \<Longrightarrow>
     es_step es (take_one i (deliver ev rest i es))"
| loop_sent: "es_loop es = Sending ev [] \<Longrightarrow> es_step es (es\<lparr>es_loop := Waiting\<rparr>)"
| loop_install: "es_loop es = Waiting \<Longrightarrow> es_subs es i = Some f \<Longrightarrow> sb_phase f = Installing \<Longrightarrow>
     es_step es (install_sub i es)"
| loop_uninstall: "es_loop es = Waiting \<Longrightarrow> es_subs es i = Some f \<Longrightarrow> sb_phase f = Unsubscribing \<Longrightarrow>
     es_step es (uninstall_sub i es)"
| loop_done: "es_loop es = Waiting \<Longrightarrow> es_step es (es\<lparr>es_loop := Returned\<rparr>)"
| subscribe: "es_subs es i = None \<Longrightarrow> ty \<in> {ResultsTaskSubscription, NewTaskSubscription} \<Longrightarrow>
     es_step es (es\<lparr>es_subs := (es_subs es)(i \<mapsto> \<lparr>sb_typ = ty, sb_cap = n, sb_chan = [],
        sb_phase = Installing, sb_due = [], sb_got = []\<rparr>)\<rparr>)"
| client_read: "es_subs es i = Some f \<Longrightarrow> sb_phase f = Reading \<Longrightarrow> sb_chan f \<noteq> [] \<Longrightarrow>
     es_step es (take_one i es)"
| client_unsubscribe: "es_subs es i = Some f \<Longrightarrow> sb_phase f = Reading \<Longrightarrow>
     es_step es (upd_sub (sb_phase_update (\<lambda>_. Unsubscribing)) i es)"
| client_drain: "es_subs es i = Some f \<Longrightarrow> sb_phase f = Unsubscribing \<Longrightarrow>
     sb_typ f = ResultsTaskSubscription \<Longrightarrow> sb_chan f \<noteq> [] \<Longrightarrow> es_step es (take_one i es)"

text \<open>The steps of the loop and of the clients: those that put nothing into the channels the manager feeds.\<close>

definition inner_step :: "event_msg \<Rightarrow> event_msg \<Rightarrow> bool" where
  "inner_step es es' \<longleftrightarrow> es_step es es' \<and>
     length (es_resultsCh es') \<le> length (es_resultsCh es) \<and> length (es_addsCh es') \<le> length (es_addsCh es)"

lemma inner_es_step: "inner_step es es' \<Longrightarrow> es_step es es'"
  by (simp add: inner_step_def)

lemma inner_stepI:
  "es_step es es' \<Longrightarrow> es_resultsCh es' = es_resultsCh es \<Longrightarrow> es_addsCh es' = es_addsCh es \<Longrightarrow> inner_step es es'"
  by (simp add: inner_step_def)

lemma inner_runs_es: "inner_step\<^sup>*\<^sup>* es es' \<Longrightarrow> es_step\<^sup>*\<^sup>* es es'"
  by (rule rtranclp_mono [THEN predicate2D]) (auto simp: inner_es_step)

inductive es_reachable :: "event_msg \<Rightarrow> bool" where
  es_start: "new_event_msg True True = Inr es \<Longrightarrow> es_reachable es"
| es_next: "es_reachable es \<Longrightarrow> es_step es es' \<Longrightarrow> es_reachable es'"

section \<open>Invariant\<close>

definition installed :: "subscription \<Rightarrow> bool" where
  "installed f \<longleftrightarrow> sb_phase f = Reading \<or> sb_phase f = Unsubscribing"

definition owed :: "event_msg \<Rightarrow> sub_id \<Rightarrow> task_event list" where
  "owed es i = (case es_loop es of Sending ev rest \<Rightarrow> if i \<in> set rest then [ev] else [] | _ \<Rightarrow> [])"

definition sub_ok :: "event_msg \<Rightarrow> sub_id \<Rightarrow> subscription \<Rightarrow> bool" where
  "sub_ok es i f \<longleftrightarrow> sb_typ f \<in> {ResultsTaskSubscription, NewTaskSubscription} \<and>
     (\<forall>ty. i \<in> set (es_index es ty) \<longleftrightarrow> ty = sb_typ f \<and> installed f) \<and>
     sb_due f = sb_got f @ sb_chan f @ owed es i \<and> length (sb_chan f) \<le> sb_cap f \<and>
     (\<forall>ev \<in> set (sb_due f). event_sub_type ev = sb_typ f)"

definition loop_ok :: "event_msg \<Rightarrow> bool" where
  "loop_ok es \<longleftrightarrow> (case es_loop es of
      Sending ev rest \<Rightarrow> distinct rest \<and> set rest \<subseteq> set (es_index es (event_sub_type ev))
    | _ \<Rightarrow> True)"

definition es_inv :: "event_msg \<Rightarrow> bool" where
  "es_inv es \<longleftrightarrow> loop_ok es \<and> (\<forall>i f. es_subs es i = Some f \<longrightarrow> sub_ok es i f) \<and>
     (\<forall>i ty. i \<in> set (es_index es ty) \<longrightarrow> es_subs es i \<noteq> None)"

lemma new_event_msg_inv: "new_event_msg True True = Inr es \<Longrightarrow> es_inv es"
  by (auto simp: new_event_msg_def es_inv_def loop_ok_def)

lemma es_invI:
  assumes "loop_ok es" "\<And>i f. es_subs es i = Some f \<Longrightarrow> sub_ok es i f"
    and "\<And>i ty. i \<in> set (es_index es ty) \<Longrightarrow> es_subs es i \<noteq> None"
  shows "es_inv es"
  using assms by (auto simp: es_inv_def)

lemma es_invD:
  assumes "es_inv es"
  shows "loop_ok es" "es_subs es i = Some f \<Longrightarrow> sub_ok es i f"
    "i \<in> set (es_index es ty) \<Longrightarrow> es_subs es i \<noteq> None"
  using assms by (auto simp: es_inv_def)

lemma loop_ok_cong: "es_loop es' = es_loop es \<Longrightarrow> es_index es' = es_index es \<Longrightarrow> loop_ok es' = loop_ok es"
  by (cases "es_loop es") (simp_all add: loop_ok_def)

lemma owed_cong: "es_loop es' = es_loop es \<Longrightarrow> owed es' = owed es"
  by (simp add: owed_def fun_eq_iff)

lemma begin_broadcast_inv:
  assumes inv: "es_inv es" and w: "es_loop es = Waiting"
    and order: "distinct order" "set order = set (es_index es (event_sub_type ev))"
  shows "es_inv (begin_broadcast ev order es)"
proof (rule es_invI)
  show "loop_ok (begin_broadcast ev order es)" using order by (simp add: loop_ok_def begin_broadcast_def)
next
  fix i f assume f: "es_subs (begin_broadcast ev order es) i = Some f"
  then obtain g where g: "es_subs es i = Some g"
    "f = (if i \<in> set order then g\<lparr>sb_due := sb_due g @ [ev]\<rparr> else g)"
    by (auto simp: begin_broadcast_def split: if_splits)
  with es_invD(2) [OF inv g(1)] w order(2) show "sub_ok (begin_broadcast ev order es) i f"
    by (auto simp: sub_ok_def owed_def begin_broadcast_def installed_def)
next
  fix i ty assume "i \<in> set (es_index (begin_broadcast ev order es) ty)"
  with es_invD(3) [OF inv, of i ty] show "es_subs (begin_broadcast ev order es) i \<noteq> None"
    by (simp add: begin_broadcast_def)
qed

lemma deliver_inv:
  assumes inv: "es_inv es" and s: "es_loop es = Sending ev (i # rest)"
    and f: "es_subs es i = Some f" "length (sb_chan f) < sb_cap f"
  shows "es_inv (deliver ev rest i es)"
proof (rule es_invI)
  show "loop_ok (deliver ev rest i es)"
    using es_invD(1) [OF inv] s by (simp add: loop_ok_def deliver_def upd_sub_def)
next
  fix j g assume g: "es_subs (deliver ev rest i es) j = Some g"
  have notin: "i \<notin> set rest" using es_invD(1) [OF inv] s by (simp add: loop_ok_def)
  show "sub_ok (deliver ev rest i es) j g"
  proof (cases "j = i")
    case True
    with g f have "g = sb_chan_update (\<lambda>c. c @ [ev]) f" by (simp add: deliver_def upd_sub_def)
    with True es_invD(2) [OF inv f(1)] s f notin show ?thesis
      by (simp add: sub_ok_def owed_def deliver_def upd_sub_def installed_def)
  next
    case False
    with g have "es_subs es j = Some g" by (simp add: deliver_def upd_sub_def)
    with False es_invD(2) [OF inv] s show ?thesis
      by (simp add: sub_ok_def owed_def deliver_def upd_sub_def)
  qed
next
  fix j ty assume "j \<in> set (es_index (deliver ev rest i es) ty)"
  then have "es_subs es j \<noteq> None" using es_invD(3) [OF inv, of j ty] by (simp add: deliver_def upd_sub_def)
  then show "es_subs (deliver ev rest i es) j \<noteq> None" by (auto simp: deliver_def upd_sub_def)
qed

text \<open>An event that is handed over on a channel without places goes straight to the reader.\<close>

lemma hand_subs:
  assumes "es_subs es i = Some f" "sb_chan f = []"
  shows "es_subs (take_one i (deliver ev rest i es)) =
    (es_subs es)(i \<mapsto> f\<lparr>sb_got := sb_got f @ [ev]\<rparr>)"
proof -
  have eq: "f\<lparr>sb_chan := [], sb_got := sb_got f @ [ev]\<rparr> = f\<lparr>sb_got := sb_got f @ [ev]\<rparr>"
    using assms(2) by (intro subscription.equality) simp_all
  from assms show ?thesis by (simp add: take_one_def deliver_def upd_sub_def) (simp only: eq)
qed

lemma hand_inv:
  assumes inv: "es_inv es" and s: "es_loop es = Sending ev (i # rest)"
    and f: "es_subs es i = Some f" "sb_cap f = 0"
  shows "es_inv (take_one i (deliver ev rest i es))" (is "es_inv ?es")
proof -
  have ok: "sub_ok es i f" by (rule es_invD(2) [OF inv f(1)])
  then have "sb_chan f = []" using f(2) by (simp add: sub_ok_def)
  note subs = hand_subs [OF f(1) this, of ev rest]
  have loop: "es_loop ?es = Sending ev rest" "es_index ?es = es_index es"
    by (simp_all add: take_one_def deliver_def upd_sub_def)
  have notin: "i \<notin> set rest" using es_invD(1) [OF inv] s by (simp add: loop_ok_def)
  show ?thesis
  proof (rule es_invI)
    show "loop_ok ?es" using es_invD(1) [OF inv] s by (simp add: loop_ok_def loop)
  next
    fix j g assume g: "es_subs ?es j = Some g"
    show "sub_ok ?es j g"
    proof (cases "j = i")
      case True
      with g ok s notin \<open>sb_chan f = []\<close> show ?thesis by (auto simp: subs sub_ok_def owed_def loop installed_def)
    next
      case False
      with g have "es_subs es j = Some g" by (simp add: subs)
      from es_invD(2) [OF inv this] s False show ?thesis by (simp add: sub_ok_def owed_def loop)
    qed
  next
    fix j ty assume "j \<in> set (es_index ?es ty)"
    with es_invD(3) [OF inv, of j ty] show "es_subs ?es j \<noteq> None" by (simp add: subs loop)
  qed
qed

lemma move_inv:
  assumes inv: "es_inv es" and w: "es_loop es = Waiting" and i: "es_subs es i = Some f"
    and idx: "\<And>ty. i \<in> set (index ty) \<longleftrightarrow> ty = sb_typ f \<and> installed (sb_phase_update (\<lambda>_. ph) f)"
      "\<And>j ty. j \<noteq> i \<Longrightarrow> j \<in> set (index ty) \<longleftrightarrow> j \<in> set (es_index es ty)"
  shows "es_inv ((upd_sub (sb_phase_update (\<lambda>_. ph)) i es)\<lparr>es_index := index\<rparr>)"
proof (rule es_invI)
  show "loop_ok ((upd_sub (sb_phase_update (\<lambda>_. ph)) i es)\<lparr>es_index := index\<rparr>)"
    using w by (simp add: loop_ok_def upd_sub_def)
next
  fix j g assume g: "es_subs ((upd_sub (sb_phase_update (\<lambda>_. ph)) i es)\<lparr>es_index := index\<rparr>) j = Some g"
  show "sub_ok ((upd_sub (sb_phase_update (\<lambda>_. ph)) i es)\<lparr>es_index := index\<rparr>) j g"
  proof (cases "j = i")
    case True
    with g i have "g = sb_phase_update (\<lambda>_. ph) f" by (simp add: upd_sub_def)
    with True es_invD(2) [OF inv i] w idx(1) show ?thesis by (simp add: sub_ok_def owed_def upd_sub_def)
  next
    case False
    with g have "es_subs es j = Some g" by (simp add: upd_sub_def)
    from es_invD(2) [OF inv this] w idx(2) [OF False] show ?thesis
      by (simp add: sub_ok_def owed_def upd_sub_def)
  qed
next
  fix j ty assume "j \<in> set (es_index ((upd_sub (sb_phase_update (\<lambda>_. ph)) i es)\<lparr>es_index := index\<rparr>) ty)"
  then show "es_subs ((upd_sub (sb_phase_update (\<lambda>_. ph)) i es)\<lparr>es_index := index\<rparr>) j \<noteq> None"
    using i idx(2) es_invD(3) [OF inv, of j ty] by (cases "j = i") (auto simp: upd_sub_def)
qed

text \<open>A step of a client changes its own subscription only, and neither the loop nor the index.\<close>

lemma client_inv:
  assumes inv: "es_inv es" and i: "es_subs es i = Some f" and g: "sub_ok es i (h f)"
  shows "es_inv (upd_sub h i es)"
proof (rule es_invI)
  show "loop_ok (upd_sub h i es)"
    using es_invD(1) [OF inv] loop_ok_cong [of "upd_sub h i es" es] by (simp add: upd_sub_def)
next
  fix j g' assume g': "es_subs (upd_sub h i es) j = Some g'"
  have same: "sub_ok (upd_sub h i es) j x \<longleftrightarrow> sub_ok es j x" for x
    by (simp add: sub_ok_def owed_def upd_sub_def)
  show "sub_ok (upd_sub h i es) j g'"
    using g' g i es_invD(2) [OF inv, of j g'] same by (cases "j = i") (auto simp: upd_sub_def)
next
  fix j ty assume "j \<in> set (es_index (upd_sub h i es) ty)"
  then show "es_subs (upd_sub h i es) j \<noteq> None"
    using i es_invD(3) [OF inv, of j ty] by (auto simp: upd_sub_def)
qed

lemma take_one_inv:
  assumes inv: "es_inv es" and f: "es_subs es i = Some f" "sb_chan f \<noteq> []"
  shows "es_inv (take_one i es)"
  unfolding take_one_def
proof (rule client_inv [OF inv f(1)])
  have "sb_got f @ [hd (sb_chan f)] @ tl (sb_chan f) = sb_got f @ sb_chan f" using f(2) by simp
  with es_invD(2) [OF inv f(1)] f(2)
  show "sub_ok es i (f\<lparr>sb_chan := tl (sb_chan f), sb_got := sb_got f @ [hd (sb_chan f)]\<rparr>)"
    by (auto simp: sub_ok_def installed_def)
qed

lemma same_subs_inv:
  assumes inv: "es_inv es"
    and same: "es_index es' = es_index es" "es_subs es' = es_subs es" "loop_ok es'" "owed es' = owed es"
  shows "es_inv es'"
  using inv same by (auto simp: es_inv_def sub_ok_def)

lemma subscribe_inv:
  assumes inv: "es_inv es" and new: "es_subs es i = None" "ty \<in> {ResultsTaskSubscription, NewTaskSubscription}"
  shows "es_inv (es\<lparr>es_subs := (es_subs es)(i \<mapsto>
    \<lparr>sb_typ = ty, sb_cap = n, sb_chan = [], sb_phase = Installing, sb_due = [], sb_got = []\<rparr>)\<rparr>)" (is "es_inv ?es")
proof (rule es_invI)
  have none: "i \<notin> set (es_index es t)" for t using es_invD(3) [OF inv, of i t] new(1) by blast
  then have "owed es i = []"
    using es_invD(1) [OF inv] by (cases "es_loop es") (auto simp: owed_def loop_ok_def)
  with new(2) none have "sub_ok es i \<lparr>sb_typ = ty, sb_cap = n, sb_chan = [], sb_phase = Installing, sb_due = [], sb_got = []\<rparr>"
    by (auto simp: sub_ok_def installed_def)
  moreover have same: "sub_ok ?es j x \<longleftrightarrow> sub_ok es j x" for j x
    using owed_cong [of ?es es] by (simp add: sub_ok_def)
  moreover fix j x assume "es_subs ?es j = Some x"
  ultimately show "sub_ok ?es j x"
    using es_invD(2) [OF inv, of j x] unfolding same by (cases "j = i") simp_all
next
  show "loop_ok ?es" using es_invD(1) [OF inv] loop_ok_cong [of ?es es] by simp
  fix j t assume "j \<in> set (es_index ?es t)"
  then show "es_subs ?es j \<noteq> None" using es_invD(3) [OF inv, of j t] by simp
qed

lemma es_step_inv: "es_step es es' \<Longrightarrow> es_inv es \<Longrightarrow> es_inv es'"
proof (induction rule: es_step.induct)
  case (feed_results es rs)
  let ?es = "es\<lparr>es_resultsCh := es_resultsCh es @ [rs]\<rparr>"
  have "loop_ok ?es" using es_invD(1) [OF feed_results.prems] loop_ok_cong [of ?es es] by simp
  then show ?case using owed_cong [of ?es es] by (intro same_subs_inv [OF feed_results.prems]) simp_all
next
  case (feed_added es k)
  let ?es = "es\<lparr>es_addsCh := es_addsCh es @ [k]\<rparr>"
  have "loop_ok ?es" using es_invD(1) [OF feed_added.prems] loop_ok_cong [of ?es es] by simp
  then show ?case using owed_cong [of ?es es] by (intro same_subs_inv [OF feed_added.prems]) simp_all
next
  case (loop_results es rs q order)
  have "es_inv (es\<lparr>es_resultsCh := q\<rparr>)"
    by (rule same_subs_inv [OF loop_results.prems])
      (use loop_results in \<open>simp_all add: loop_ok_def owed_def fun_eq_iff\<close>)
  then show ?case by (rule begin_broadcast_inv) (use loop_results in \<open>simp_all add: event_sub_type_def\<close>)
next
  case (loop_added es k q order)
  have "es_inv (es\<lparr>es_addsCh := q\<rparr>)"
    by (rule same_subs_inv [OF loop_added.prems])
      (use loop_added in \<open>simp_all add: loop_ok_def owed_def fun_eq_iff\<close>)
  then show ?case by (rule begin_broadcast_inv) (use loop_added in \<open>simp_all add: event_sub_type_def\<close>)
next
  case (loop_send es ev i rest f)
  then show ?case by (intro deliver_inv)
next
  case (loop_hand es ev i rest f)
  then show ?case by (intro hand_inv)
next
  case (loop_sent es ev)
  have "owed (es\<lparr>es_loop := Waiting\<rparr>) = owed es"
    using loop_sent.hyps by (simp add: owed_def fun_eq_iff)
  then show ?case by (intro same_subs_inv [OF loop_sent.prems]) (simp_all add: loop_ok_def)
next
  case (loop_install es i f)
  from es_invD(2) [OF loop_install.prems loop_install.hyps(2)] loop_install.hyps(2,3) show ?case
    unfolding install_sub_def by (simp, intro move_inv [OF loop_install.prems loop_install.hyps(1,2)])
      (auto simp: sub_ok_def installed_def)
next
  case (loop_uninstall es i f)
  from es_invD(2) [OF loop_uninstall.prems loop_uninstall.hyps(2)] loop_uninstall.hyps(2,3) show ?case
    unfolding uninstall_sub_def by (simp, intro move_inv [OF loop_uninstall.prems loop_uninstall.hyps(1,2)])
      (auto simp: sub_ok_def installed_def)
next
  case (loop_done es)
  have "owed (es\<lparr>es_loop := Returned\<rparr>) = owed es"
    using loop_done.hyps by (simp add: owed_def fun_eq_iff)
  then show ?case by (intro same_subs_inv [OF loop_done.prems]) (simp_all add: loop_ok_def)
next
  case (subscribe es i ty n)
  then show ?case by (intro subscribe_inv)
next
  case (client_read es i f)
  then show ?case by (intro take_one_inv)
next
  case (client_unsubscribe es i f)
  from es_invD(2) [OF client_unsubscribe.prems client_unsubscribe.hyps(1)] client_unsubscribe.hyps(2)
  show ?case by (intro client_inv [OF client_unsubscribe.prems client_unsubscribe.hyps(1)])
      (auto simp: sub_ok_def installed_def)
next
  case (client_drain es i f)
  then show ?case by (intro take_one_inv)
qed

lemma es_reachable_inv: "es_reachable es \<Longrightarrow> es_inv es"
  by (induction rule: es_reachable.induct) (auto intro: new_event_msg_inv es_step_inv)

section \<open>Properties\<close>

text \<open>C24: In every reachable state, what was broadcast to a subscription since it was installed is what
  its reader has taken, followed by what waits in its channel, followed by the event that a broadcast
  in progress still owes it: no event is lost, duplicated or reordered. All of them are events of the
  subscription's kind, and the channel never holds more than its capacity.\<close>

theorem subscription_gets_every_event:
  assumes "es_reachable es" "es_subs es i = Some f"
  shows "sb_due f = sb_got f @ sb_chan f @ owed es i \<and> length (sb_chan f) \<le> sb_cap f \<and>
    (\<forall>ev \<in> set (sb_got f). event_sub_type ev = sb_typ f)"
  using es_invD(2) [OF es_reachable_inv [OF assms(1)] assms(2)] by (auto simp: sub_ok_def)

text \<open>A broadcast in progress goes on when the next subscriber reads, or takes part in the draining of
  \<open>Unsubscribe\<close>.\<close>

definition drains :: "subscription \<Rightarrow> bool" where
  "drains f \<longleftrightarrow> sb_phase f = Unsubscribing \<longrightarrow> sb_typ f = ResultsTaskSubscription"

lemma send_with_room:
  assumes "es_loop es = Sending ev (j # rest)" "es_subs es j = Some f" "length (sb_chan f) < sb_cap f"
  shows "inner_step es (deliver ev rest j es)" "es_loop (deliver ev rest j es) = Sending ev rest"
  using es_step.loop_send [OF assms] by (auto simp: deliver_def upd_sub_def intro!: inner_stepI)

lemma take_one_channels [simp]:
  "es_resultsCh (take_one i es) = es_resultsCh es" "es_addsCh (take_one i es) = es_addsCh es"
  by (simp_all add: take_one_def upd_sub_def)

lemma upd_sub_subs [simp]:
  "es_subs (upd_sub h i es) k = (if k = i then map_option h (es_subs es k) else es_subs es k)"
  "es_loop (upd_sub h i es) = es_loop es" "es_index (upd_sub h i es) = es_index es"
  by (simp_all add: upd_sub_def)

definition same_clients :: "event_msg \<Rightarrow> event_msg \<Rightarrow> bool" where
  "same_clients es es' \<longleftrightarrow> (\<forall>i. map_option (\<lambda>f. (sb_phase f, sb_typ f)) (es_subs es' i) =
     map_option (\<lambda>f. (sb_phase f, sb_typ f)) (es_subs es i))"

lemma same_clients_drains:
  assumes "same_clients es es'" "\<forall>i f. es_subs es i = Some f \<longrightarrow> drains f"
  shows "\<forall>i f. es_subs es' i = Some f \<longrightarrow> drains f"
proof (intro allI impI)
  fix i f assume "es_subs es' i = Some f"
  with assms(1) obtain g where "es_subs es i = Some g" "sb_phase g = sb_phase f" "sb_typ g = sb_typ f"
    unfolding same_clients_def by (metis (mono_tags, lifting) map_option_eq_Some prod.inject)
  with assms(2) show "drains f" by (auto simp: drains_def)
qed

lemma same_clients_trans: "same_clients a b \<Longrightarrow> same_clients b c \<Longrightarrow> same_clients a c"
  by (simp add: same_clients_def)

lemma broadcast_advances:
  assumes inv: "es_inv es" and s: "es_loop es = Sending ev (j # rest)" and f: "es_subs es j = Some f" "drains f"
  obtains es' where "inner_step\<^sup>*\<^sup>* es es'" "es_loop es' = Sending ev rest" "es_inv es'"
    "same_clients es es'"
proof -
  have "j \<in> set (es_index es (event_sub_type ev))" using es_invD(1) [OF inv] s by (simp add: loop_ok_def)
  with es_invD(2) [OF inv f(1)] have ph: "installed f" and cap: "length (sb_chan f) \<le> sb_cap f"
    by (auto simp: sub_ok_def)
  consider (room) "length (sb_chan f) < sb_cap f" | (none) "sb_cap f = 0" | (full) "0 < sb_cap f" "\<not> length (sb_chan f) < sb_cap f"
    by linarith
  then show thesis
  proof cases
    case none
    let ?t = "take_one j (deliver ev rest j es)"
    have "sb_chan f = []" using cap none by simp
    note subs = hand_subs [OF f(1) this, of ev rest]
    have "es_step es ?t"
      by (rule es_step.loop_hand [OF s f(1) none]) (use ph f(2) in \<open>auto simp: installed_def drains_def\<close>)
    then have "inner_step es ?t" by (rule inner_stepI) (simp_all add: deliver_def upd_sub_def)
    with es_step_inv [OF inner_es_step [OF this] inv] f(1) show thesis
      by (intro that [of ?t]) (auto simp: subs same_clients_def take_one_def deliver_def)
  next
    case room
    note True = room
    note st = send_with_room [OF s f(1) True]
    from es_step_inv [OF inner_es_step [OF st(1)] inv] st show thesis by (intro that [of "deliver ev rest j es"])
        (auto simp: deliver_def same_clients_def f(1))
  next
    case full
    with cap have ne: "sb_chan f \<noteq> []" by auto
    let ?t = "take_one j es"
    have "es_step es ?t"
      using ph f ne by (auto simp: installed_def drains_def intro: es_step.client_read es_step.client_drain)
    then have step: "inner_step es ?t" by (rule inner_stepI) simp_all
    have inv': "es_inv ?t" by (rule take_one_inv [OF inv f(1) ne])
    have loop: "es_loop ?t = Sending ev (j # rest)" using s by (simp add: take_one_def)
    let ?g = "f\<lparr>sb_chan := tl (sb_chan f), sb_got := sb_got f @ [hd (sb_chan f)]\<rparr>"
    have g: "es_subs ?t j = Some ?g" using f(1) by (simp add: take_one_def)
    have room: "length (sb_chan ?g) < sb_cap ?g" using cap full ne by (cases "sb_chan f") auto
    note st = send_with_room [OF loop g room]
    have "inner_step\<^sup>*\<^sup>* es (deliver ev rest j ?t)" using step st(1) by auto
    with es_step_inv [OF inner_es_step [OF st(1)] inv'] st show thesis
      by (intro that [of "deliver ev rest j ?t"]) (auto simp: deliver_def take_one_def same_clients_def f(1))
  qed
qed

lemma broadcast_ends:
  assumes "es_inv es" "es_loop es = Sending ev rest" "\<forall>i f. es_subs es i = Some f \<longrightarrow> drains f"
  obtains es' where "inner_step\<^sup>*\<^sup>* es es'" "es_loop es' = Waiting" "es_inv es'"
    "same_clients es es'"
proof -
  have "\<exists>es'. inner_step\<^sup>*\<^sup>* es es' \<and> es_loop es' = Waiting \<and> es_inv es' \<and> same_clients es es'"
    using assms
  proof (induction rest arbitrary: es)
    case Nil
    have st: "inner_step es (es\<lparr>es_loop := Waiting\<rparr>)"
      by (intro inner_stepI es_step.loop_sent [OF Nil(2)]) simp_all
    with es_step_inv [OF inner_es_step [OF st] Nil(1)] show ?case by (intro exI [of _ "es\<lparr>es_loop := Waiting\<rparr>"]) (auto simp: same_clients_def)
  next
    case (Cons j rest)
    have "j \<in> set (es_index es (event_sub_type ev))"
      using es_invD(1) [OF Cons.prems(1)] Cons.prems(2) by (simp add: loop_ok_def)
    then obtain f where f: "es_subs es j = Some f" using es_invD(3) [OF Cons.prems(1)] by blast
    with Cons.prems(3) have "drains f" by blast
    then obtain t where t: "inner_step\<^sup>*\<^sup>* es t" "es_loop t = Sending ev rest" "es_inv t" "same_clients es t"
      by (rule broadcast_advances [OF Cons.prems(1,2) f]) blast
    from Cons.IH [OF t(3,2) same_clients_drains [OF t(4) Cons.prems(3)]] obtain es' where
      es': "inner_step\<^sup>*\<^sup>* t es'" "es_loop es' = Waiting" "es_inv es'" "same_clients t es'" by blast
    from t(1) es'(1) have "inner_step\<^sup>*\<^sup>* es es'" by simp
    with es' same_clients_trans [OF t(4)] show ?case by blast
  qed
  with that show thesis by blast
qed

text \<open>C34: \<open>Unsubscribe\<close> cannot be locked out as long as no subscription of new tasks is in \<open>Unsubscribe\<close>: from
  every reachable state in which the loop has not returned, the steps of the loop and of the
  other clients lead to a state where a client that waits in \<open>Unsubscribe\<close> is done, because a
  subscription of results drains its channel while it waits.\<close>

theorem unsubscribe_can_finish:
  assumes "es_reachable es" "es_loop es \<noteq> Returned" "\<forall>i f. es_subs es i = Some f \<longrightarrow> drains f"
    and "es_subs es i = Some f" "sb_phase f = Unsubscribing"
  shows "\<exists>es' f'. rtranclp es_step es es' \<and> es_subs es' i = Some f' \<and> sb_phase f' = Uninstalled \<and>
    (\<forall>ty. i \<notin> set (es_index es' ty))"
proof -
  have inv: "es_inv es" by (rule es_reachable_inv [OF assms(1)])
  obtain t where t: "inner_step\<^sup>*\<^sup>* es t" "es_loop t = Waiting" "es_inv t" "same_clients es t"
  proof (cases "es_loop es")
    case Waiting
    with inv that [of es] show thesis by (simp add: same_clients_def)
  next
    case (Sending ev rest)
    show thesis by (rule broadcast_ends [OF inv Sending assms(3)]) (rule that)
  qed (use assms(2) in simp)
  from t(4) assms(4) obtain g where g: "es_subs t i = Some g" "sb_phase g = sb_phase f"
    unfolding same_clients_def by (metis (mono_tags, lifting) map_option_eq_Some option.simps(9) prod.inject)
  have st: "es_step t (uninstall_sub i t)"
    by (rule es_step.loop_uninstall [OF t(2) g(1)]) (simp add: g(2) assms(5))
  have "es_subs (uninstall_sub i t) i = Some (g\<lparr>sb_phase := Uninstalled\<rparr>)"
    using g(1) by (simp add: uninstall_sub_def)
  moreover from this es_invD(2) [OF es_step_inv [OF st t(3)], of i]
  have "\<forall>ty. i \<notin> set (es_index (uninstall_sub i t) ty)" by (auto simp: sub_ok_def installed_def)
  moreover have "rtranclp es_step es (uninstall_sub i t)" using inner_runs_es [OF t(1)] st by simp
  ultimately show ?thesis by (intro exI [of _ "uninstall_sub i t"] exI [of _ "g\<lparr>sb_phase := Uninstalled\<rparr>"]) simp
qed

text \<open>A subscription of new tasks can block the whole loop for ever. When the loop is about to send to its
  full channel and its client is in \<open>Unsubscribe\<close>, which drains only the channel of results, no step
  of anyone changes that: no event is broadcast, and nobody is installed or uninstalled any more.\<close>

theorem new_task_unsubscribe_deadlocks:
  assumes "es_loop es = Sending ev (i # rest)" "es_subs es i = Some f" "sb_phase f = Unsubscribing"
    and "sb_typ f = NewTaskSubscription" "\<not> length (sb_chan f) < sb_cap f" "rtranclp es_step es es'"
  shows "es_loop es' = Sending ev (i # rest) \<and> es_subs es' i = Some f \<and> es_index es' = es_index es"
  using assms(6)
proof (induction rule: rtranclp_induct)
  case base
  with assms(1,2) show ?case by simp
next
  case (step y z)
  from step(2,3) assms(3-5) show ?case
    by (cases rule: es_step.cases) (auto simp: take_one_def)
qed

text \<open>Witnesses: a run that subscribes \<open>0\<close> with capacity 1, installs it, and broadcasts.\<close>

definition one_sub :: "sub_type \<Rightarrow> sub_phase \<Rightarrow> task_event list \<Rightarrow> task_event list \<Rightarrow> subscription" where
  "one_sub ty ph c d = \<lparr>sb_typ = ty, sb_cap = 1, sb_chan = c, sb_phase = ph, sb_due = d, sb_got = []\<rparr>"

definition one_state :: "i64 list \<Rightarrow> subscription \<Rightarrow> loop_state \<Rightarrow> event_msg" where
  "one_state q f l = \<lparr>es_resultsCh = [], es_addsCh = q,
     es_index = (\<lambda>_. [])(sb_typ f := (if installed f then [0] else [])),
     es_subs = [0 \<mapsto> f], es_loop = l\<rparr>"

lemma one_state_fields [simp]:
  "es_subs (one_state q f l) i = (if i = 0 then Some f else None)" "es_loop (one_state q f l) = l"
  "es_addsCh (one_state q f l) = q" "es_index (one_state q f l) (sb_typ f) = (if installed f then [0] else [])"
  by (simp_all add: one_state_def)

lemma one_sub_fields [simp]:
  "sb_typ (one_sub ty ph c d) = ty" "sb_phase (one_sub ty ph c d) = ph" "sb_chan (one_sub ty ph c d) = c"
  "sb_cap (one_sub ty ph c d) = 1" "sb_due (one_sub ty ph c d) = d" "sb_got (one_sub ty ph c d) = []"
  "installed (one_sub ty ph c d) = (ph = Reading \<or> ph = Unsubscribing)"
  by (simp_all add: one_sub_def installed_def)

definition no_subs :: event_msg where
  "no_subs = \<lparr>es_resultsCh = [], es_addsCh = [], es_index = (\<lambda>_. []), es_subs = (\<lambda>_. None), es_loop = Waiting\<rparr>"

lemma new_event_msg_no_subs: "new_event_msg True True = Inr no_subs"
  by (simp add: new_event_msg_def no_subs_def)

lemma one_inner: "es_step (one_state q f l) (one_state q' f' l') \<Longrightarrow> length q' \<le> length q \<Longrightarrow>
    inner_step (one_state q f l) (one_state q' f' l')"
  by (simp add: inner_step_def one_state_def)

lemma one_install:
  assumes "ty \<in> {ResultsTaskSubscription, NewTaskSubscription}"
  shows "inner_step\<^sup>*\<^sup>* no_subs (one_state [] (one_sub ty Reading [] []) Waiting)"
proof -
  let ?i = "one_state [] (one_sub ty Installing [] []) Waiting"
  have "es_step no_subs (no_subs\<lparr>es_subs := (es_subs no_subs)(0 \<mapsto> \<lparr>sb_typ = ty, sb_cap = 1, sb_chan = [],
      sb_phase = Installing, sb_due = [], sb_got = []\<rparr>)\<rparr>)"
    by (rule es_step.subscribe) (use assms in \<open>simp_all add: no_subs_def\<close>)
  moreover have "no_subs\<lparr>es_subs := (es_subs no_subs)(0 \<mapsto> \<lparr>sb_typ = ty, sb_cap = 1, sb_chan = [],
      sb_phase = Installing, sb_due = [], sb_got = []\<rparr>)\<rparr> = ?i"
    by (simp add: no_subs_def one_state_def one_sub_def installed_def fun_eq_iff)
  ultimately have "inner_step no_subs ?i" by (simp add: inner_step_def no_subs_def one_state_def)
  moreover have "es_step ?i (install_sub 0 ?i)"
    by (rule es_step.loop_install [where f = "one_sub ty Installing [] []"]) simp_all
  moreover have "install_sub 0 ?i = one_state [] (one_sub ty Reading [] []) Waiting"
    by (simp add: install_sub_def) (simp add: one_state_def one_sub_def upd_sub_def installed_def fun_eq_iff)
  ultimately show ?thesis using one_inner by (metis converse_rtranclp_into_rtranclp list.size(3) order_refl r_into_rtranclp)
qed

lemma es_reachable_inner: "inner_step\<^sup>*\<^sup>* es es' \<Longrightarrow> es_reachable es \<Longrightarrow> es_reachable es'"
  by (induction rule: rtranclp_induct) (auto intro: es_next inner_es_step)

lemma one_installed:
  assumes "ty \<in> {ResultsTaskSubscription, NewTaskSubscription}"
  shows "es_reachable (one_state [] (one_sub ty Reading [] []) Waiting)"
  by (rule es_reachable_inner [OF one_install [OF assms] es_start [OF new_event_msg_no_subs]])

lemma one_feed:
  "length q < addEvChanSize \<Longrightarrow> es_step (one_state q f l) (one_state (q @ [k]) f l)"
  using es_step.feed_added [of "one_state q f l" k] by (simp add: one_state_def)

lemma one_take:
  "es_step (one_state (k # q) (one_sub NewTaskSubscription Reading c d) Waiting)
     (one_state q (one_sub NewTaskSubscription Reading c (d @ [EvAdded k])) (Sending (EvAdded k) [0]))"
proof -
  let ?s = "one_state (k # q) (one_sub NewTaskSubscription Reading c d) Waiting"
  have "es_index ?s NewTaskSubscription = [0]" by (simp add: one_state_def)
  from es_step.loop_added [of ?s k q "[0]"] this
  have "es_step ?s (begin_broadcast (EvAdded k) [0] (?s\<lparr>es_addsCh := q\<rparr>))" by simp
  moreover have "begin_broadcast (EvAdded k) [0] (?s\<lparr>es_addsCh := q\<rparr>)
      = one_state q (one_sub NewTaskSubscription Reading c (d @ [EvAdded k])) (Sending (EvAdded k) [0])"
    by (simp add: begin_broadcast_def one_state_def one_sub_def installed_def fun_eq_iff)
  ultimately show ?thesis by simp
qed

lemma one_send:
  "es_step (one_state q (one_sub ty Reading [] d) (Sending ev [0])) (one_state q (one_sub ty Reading [ev] d) (Sending ev []))"
proof -
  let ?s = "one_state q (one_sub ty Reading [] d) (Sending ev [0])"
  have "es_step ?s (deliver ev [] 0 ?s)" by (rule es_step.loop_send [where f = "one_sub ty Reading [] d"]) simp_all
  moreover have "deliver ev [] 0 ?s = one_state q (one_sub ty Reading [ev] d) (Sending ev [])"
    by (simp add: deliver_def upd_sub_def one_state_def one_sub_def installed_def fun_eq_iff)
  ultimately show ?thesis by simp
qed

lemma one_sent: "es_step (one_state q f (Sending ev [])) (one_state q f Waiting)"
  using es_step.loop_sent [of "one_state q f (Sending ev [])" ev] by (simp add: one_state_def)

lemma one_unsubscribe:
  "es_step (one_state q (one_sub ty Reading c d) l) (one_state q (one_sub ty Unsubscribing c d) l)"
proof -
  let ?s = "one_state q (one_sub ty Reading c d) l"
  have "es_step ?s (upd_sub (sb_phase_update (\<lambda>_. Unsubscribing)) 0 ?s)"
    by (rule es_step.client_unsubscribe [where f = "one_sub ty Reading c d"]) simp_all
  moreover have "upd_sub (sb_phase_update (\<lambda>_. Unsubscribing)) 0 ?s = one_state q (one_sub ty Unsubscribing c d) l"
    by (simp add: upd_sub_def one_state_def one_sub_def installed_def fun_eq_iff)
  ultimately show ?thesis by simp
qed

lemma one_received:
  "es_reachable (one_state [] (one_sub NewTaskSubscription Reading [EvAdded 7] [EvAdded 7]) Waiting)"
proof -
  have size: "length [] < addEvChanSize" by (simp add: addEvChanSize_def)
  have "es_reachable (one_state [] (one_sub NewTaskSubscription Reading [] []) Waiting)"
    by (rule one_installed) simp
  from es_next [OF es_next [OF es_next [OF es_next [OF this one_feed [OF size]]]]]
    one_take one_send one_sent
  show ?thesis by (metis append_Nil)
qed

lemma one_blocked:
  "es_reachable (one_state [] (one_sub NewTaskSubscription Unsubscribing [EvAdded 7] [EvAdded 7, EvAdded 8])
     (Sending (EvAdded 8) [0]))"
proof -
  have size: "length [] < addEvChanSize" by (simp add: addEvChanSize_def)
  from es_next [OF es_next [OF es_next [OF one_received one_feed [OF size]]]] one_take one_unsubscribe
  show ?thesis by (metis append_Nil append_Cons)
qed

theorem subscription_gets_every_event_witness:
  "\<exists>es f. es_reachable es \<and> es_subs es 0 = Some f \<and> sb_due f = [EvAdded 7, EvAdded 8] \<and> sb_chan f = [EvAdded 7] \<and>
     sb_due f = sb_got f @ sb_chan f @ owed es 0"
proof -
  let ?f = "one_sub NewTaskSubscription Unsubscribing [EvAdded 7] [EvAdded 7, EvAdded 8]"
  have "es_subs (one_state [] ?f (Sending (EvAdded 8) [0])) 0 = Some ?f" by simp
  from subscription_gets_every_event [OF one_blocked this] one_blocked this show ?thesis
    by (intro exI conjI) (assumption, assumption, simp_all)
qed

theorem unsubscribe_can_finish_witness:
  "\<exists>es es' f'. es_reachable es \<and> rtranclp es_step es es' \<and> es_subs es' 0 = Some f' \<and> sb_phase f' = Uninstalled"
proof -
  let ?f = "one_sub ResultsTaskSubscription Unsubscribing [] []"
  have r: "es_reachable (one_state [] ?f Waiting)"
    by (rule es_next [OF one_installed one_unsubscribe]) simp
  have "es_subs (one_state [] ?f Waiting) 0 = Some ?f" by simp
  moreover have "\<forall>i f. es_subs (one_state [] ?f Waiting) i = Some f \<longrightarrow> drains f"
    by (auto simp: drains_def split: if_splits)
  ultimately show ?thesis using unsubscribe_can_finish [OF r, of 0 ?f] r by (simp del: One_nat_def) blast
qed

theorem new_task_unsubscribe_deadlocks_witness:
  "\<exists>es. es_reachable es \<and> (\<forall>es'. rtranclp es_step es es' \<longrightarrow> es_loop es' = Sending (EvAdded 8) [0])"
proof -
  let ?f = "one_sub NewTaskSubscription Unsubscribing [EvAdded 7] [EvAdded 7, EvAdded 8]"
  let ?es = "one_state [] ?f (Sending (EvAdded 8) [0])"
  have "es_loop ?es = Sending (EvAdded 8) [0]" "es_subs ?es 0 = Some ?f" "sb_phase ?f = Unsubscribing"
    "sb_typ ?f = NewTaskSubscription" "\<not> length (sb_chan ?f) < sb_cap ?f" by simp_all
  from new_task_unsubscribe_deadlocks [OF this] one_blocked show ?thesis by blast
qed

end
