(* ===== verification/Notifier.thy ===== *)
theory Notifier
  imports Event_Msg "HOL-Library.Sublist"
begin

text \<open>
  The two subscription methods of the task API, \<open>Results\<close> and \<open>NewTask\<close> of \<open>node/task/api.go\<close>: each subscribes to the
  event loop with a channel of 128 places and runs a goroutine that passes what it receives on to the notifier
  of the RPC server, until the client or the server is gone; then it unsubscribes. The goroutine is a machine beside the
  event system of Event_Msg, of which it is one client. The notifier itself is outside the repository; what it
  was asked to send is the list of notifications.
  The lemmas show that a client is notified of the broadcast events in order, without a gap.
\<close>

section \<open>Subscribing\<close>

text \<open>The subscription a method makes; without a notifier in the context it returns an error of the server
  package, \<open>unsupported\<close>.\<close>

definition notifierChanSize :: nat where "notifierChanSize = 128"

definition subscribe_with :: "sub_type \<Rightarrow> subscription" where
  "subscribe_with ty = \<lparr>sb_typ = ty, sb_cap = notifierChanSize, sb_chan = [], sb_phase = Installing,
     sb_due = [], sb_got = []\<rparr>"

definition api_results :: "error \<Rightarrow> bool \<Rightarrow> sub_id \<Rightarrow> event_msg \<Rightarrow> error + event_msg" where
  "api_results unsupported supported i es =
     (if \<not> supported then Inl unsupported
      else Inr (es\<lparr>es_subs := (es_subs es)(i \<mapsto> subscribe_with ResultsTaskSubscription)\<rparr>))"

definition api_new_task :: "error \<Rightarrow> bool \<Rightarrow> sub_id \<Rightarrow> event_msg \<Rightarrow> error + event_msg" where
  "api_new_task unsupported supported i es =
     (if \<not> supported then Inl unsupported
      else Inr (es\<lparr>es_subs := (es_subs es)(i \<mapsto> subscribe_with NewTaskSubscription)\<rparr>))"

text \<open>Both are steps of the event system.\<close>

lemma api_results_step: "es_subs es i = None \<Longrightarrow> api_results e True i es = Inr es' \<Longrightarrow> es_step es es'"
  using es_step.subscribe [of es i ResultsTaskSubscription notifierChanSize]
  by (simp add: api_results_def subscribe_with_def notifierChanSize_def)

lemma api_new_task_step: "es_subs es i = None \<Longrightarrow> api_new_task e True i es = Inr es' \<Longrightarrow> es_step es es'"
  using es_step.subscribe [of es i NewTaskSubscription notifierChanSize]
  by (simp add: api_new_task_def subscribe_with_def notifierChanSize_def)

section \<open>The goroutine\<close>

datatype notification = NotifyResult task_result | NotifyTask i64

text \<open>It waits for its subscription to be installed; is in its \<open>select\<close>; in the range over a list of results, with those
  that are left; about to pass on a new task; in \<open>Unsubscribe\<close>; or has returned.\<close>

datatype nt_place =
    NtSubscribing
  | NtSelecting
  | NtRanging "task_result list"
  | NtPassing i64
  | NtLeaving
  | NtReturned

text \<open>\<open>nt_notes\<close>: the calls of \<open>Notify\<close> so far.\<close>

record notifier =
  nt_es :: event_msg
  nt_place :: nt_place
  nt_notes :: "notification list"

text \<open>A step of the event system that is not one of client \<open>i\<close>: it takes nothing out of its channel and does not
  begin its \<open>Unsubscribe\<close>.\<close>

definition others_step :: "sub_id \<Rightarrow> event_msg \<Rightarrow> event_msg \<Rightarrow> bool" where
  "others_step i es es' \<longleftrightarrow> es_step es es' \<and>
     (\<forall>f f'. es_subs es i = Some f \<longrightarrow> es_subs es' i = Some f' \<longrightarrow>
        sb_got f' = sb_got f \<and> (sb_phase f = Reading \<longrightarrow> sb_phase f' = Reading))"

text \<open>The select takes what is received, or, when the client's subscription has an error or the notifier is closed, begins to
  unsubscribe. What \<open>Unsubscribe\<close> drains from the channel is discarded.\<close>

inductive nt_step :: "sub_id \<Rightarrow> notifier \<Rightarrow> notifier \<Rightarrow> bool" for i where
  others: "others_step i (nt_es n) es' \<Longrightarrow> nt_step i n (n\<lparr>nt_es := es'\<rparr>)"
| subscribed: "nt_place n = NtSubscribing \<Longrightarrow> es_subs (nt_es n) i = Some f \<Longrightarrow> sb_phase f \<noteq> Installing \<Longrightarrow>
     nt_step i n (n\<lparr>nt_place := NtSelecting\<rparr>)"
| receive_results: "nt_place n = NtSelecting \<Longrightarrow> es_subs (nt_es n) i = Some f \<Longrightarrow> sb_phase f = Reading \<Longrightarrow>
     sb_chan f = EvResults rs # q \<Longrightarrow> nt_step i n (n\<lparr>nt_es := take_one i (nt_es n), nt_place := NtRanging rs\<rparr>)"
| notify_result: "nt_place n = NtRanging (h # rs) \<Longrightarrow>
     nt_step i n (n\<lparr>nt_place := NtRanging rs, nt_notes := nt_notes n @ [NotifyResult h]\<rparr>)"
| range_ends: "nt_place n = NtRanging [] \<Longrightarrow> nt_step i n (n\<lparr>nt_place := NtSelecting\<rparr>)"
| receive_task: "nt_place n = NtSelecting \<Longrightarrow> es_subs (nt_es n) i = Some f \<Longrightarrow> sb_phase f = Reading \<Longrightarrow>
     sb_chan f = EvAdded k # q \<Longrightarrow> nt_step i n (n\<lparr>nt_es := take_one i (nt_es n), nt_place := NtPassing k\<rparr>)"
| notify_task: "nt_place n = NtPassing k \<Longrightarrow>
     nt_step i n (n\<lparr>nt_place := NtSelecting, nt_notes := nt_notes n @ [NotifyTask k]\<rparr>)"
| client_gone: "nt_place n = NtSelecting \<Longrightarrow> es_subs (nt_es n) i = Some f \<Longrightarrow> sb_phase f = Reading \<Longrightarrow>
     nt_step i n (n\<lparr>nt_es := upd_sub (sb_phase_update (\<lambda>_. Unsubscribing)) i (nt_es n), nt_place := NtLeaving\<rparr>)"
| drain: "nt_place n = NtLeaving \<Longrightarrow> es_subs (nt_es n) i = Some f \<Longrightarrow> sb_phase f = Unsubscribing \<Longrightarrow>
     sb_typ f = ResultsTaskSubscription \<Longrightarrow> sb_chan f \<noteq> [] \<Longrightarrow> nt_step i n (n\<lparr>nt_es := take_one i (nt_es n)\<rparr>)"
| unsubscribed: "nt_place n = NtLeaving \<Longrightarrow> es_subs (nt_es n) i = Some f \<Longrightarrow> sb_phase f = Uninstalled \<Longrightarrow>
     nt_step i n (n\<lparr>nt_place := NtReturned\<rparr>)"

inductive nt_reachable :: "sub_id \<Rightarrow> notifier \<Rightarrow> bool" for i where
  nt_start: "es_reachable es \<Longrightarrow> es_subs es i = None \<Longrightarrow>
     api_results e True i es = Inr es' \<or> api_new_task e True i es = Inr es' \<Longrightarrow>
     nt_reachable i \<lparr>nt_es = es', nt_place = NtSubscribing, nt_notes = []\<rparr>"
| nt_next: "nt_reachable i n \<Longrightarrow> nt_step i n n' \<Longrightarrow> nt_reachable i n'"

section \<open>Order\<close>

text \<open>What the events of a subscription are to a client: the results of all lists, one by one, and the new tasks.\<close>

definition results_broadcast :: "task_event list \<Rightarrow> task_result list" where
  "results_broadcast evs = concat [rs. EvResults rs \<leftarrow> evs]"

definition tasks_broadcast :: "task_event list \<Rightarrow> i64 list" where
  "tasks_broadcast evs = [k. EvAdded k \<leftarrow> evs]"

definition client_view :: "sub_type \<Rightarrow> task_event list \<Rightarrow> notification list" where
  "client_view ty evs =
     (if ty = ResultsTaskSubscription then map NotifyResult (results_broadcast evs) else map NotifyTask (tasks_broadcast evs))"

lemma client_view_append: "client_view ty (as @ bs) = client_view ty as @ client_view ty bs"
  by (simp add: client_view_def results_broadcast_def tasks_broadcast_def)

lemma client_view_Nil [simp]: "client_view ty [] = []"
  by (simp add: client_view_def results_broadcast_def tasks_broadcast_def)

lemma client_view_one:
  "event_sub_type ev = ty \<Longrightarrow> client_view ty [ev] = (case ev of EvResults rs \<Rightarrow> map NotifyResult rs | EvAdded k \<Rightarrow> [NotifyTask k])"
  by (auto simp: client_view_def results_broadcast_def tasks_broadcast_def event_sub_type_def split: task_event.splits)

text \<open>What the client has been notified of, with what the goroutine holds, is what it has received; once it unsubscribes, an
  initial part of that.\<close>

definition in_hand :: "nt_place \<Rightarrow> notification list" where
  "in_hand p = (case p of NtRanging rs \<Rightarrow> map NotifyResult rs | NtPassing k \<Rightarrow> [NotifyTask k] | _ \<Rightarrow> [])"

definition nt_inv :: "sub_id \<Rightarrow> notifier \<Rightarrow> bool" where
  "nt_inv i n \<longleftrightarrow> es_reachable (nt_es n) \<and>
     (\<exists>f. es_subs (nt_es n) i = Some f \<and>
        (if nt_place n = NtLeaving \<or> nt_place n = NtReturned
         then prefix (nt_notes n) (client_view (sb_typ f) (sb_got f))
         else nt_notes n @ in_hand (nt_place n) = client_view (sb_typ f) (sb_got f)))"

lemma es_step_keeps_sub:
  "es_step es es' \<Longrightarrow> es_subs es i = Some f \<Longrightarrow> \<exists>f'. es_subs es' i = Some f' \<and> sb_typ f' = sb_typ f"
  by (induction rule: es_step.induct)
    (auto simp: begin_broadcast_def deliver_def install_sub_def uninstall_sub_def take_one_def split: option.splits)

lemma taken_view:
  assumes "es_reachable es" "es_subs es i = Some f" "sb_chan f = ev # q"
  shows "\<exists>f'. es_subs (take_one i es) i = Some f' \<and> sb_typ f' = sb_typ f \<and>
    client_view (sb_typ f) (sb_got f') =
      client_view (sb_typ f) (sb_got f) @ (case ev of EvResults rs \<Rightarrow> map NotifyResult rs | EvAdded k \<Rightarrow> [NotifyTask k])"
proof -
  have "sub_ok es i f" by (rule es_invD(2) [OF es_reachable_inv [OF assms(1)] assms(2)])
  then have "event_sub_type ev = sb_typ f" using assms(3) by (auto simp: sub_ok_def)
  from client_view_one [OF this] assms(2,3) show ?thesis
    by (simp add: take_one_def client_view_append)
qed

lemma nt_step_inv: "nt_step i n n' \<Longrightarrow> nt_inv i n \<Longrightarrow> nt_inv i n'"
proof (induction rule: nt_step.induct)
  case (others n es')
  then obtain f where f: "es_reachable (nt_es n)" "es_subs (nt_es n) i = Some f"
    by (auto simp: nt_inv_def)
  have st: "es_step (nt_es n) es'" using others.hyps by (simp add: others_step_def)
  from es_step_keeps_sub [OF st f(2)] obtain f' where "es_subs es' i = Some f'" "sb_typ f' = sb_typ f" by blast
  moreover from this others.hyps f(2) have "sb_got f' = sb_got f" by (auto simp: others_step_def)
  ultimately show ?case using others.prems f es_next [OF f(1) st] by (auto simp: nt_inv_def)
next
  case (receive_results n f rs q)
  then have r: "es_reachable (nt_es n)" by (simp add: nt_inv_def)
  from taken_view [OF r receive_results.hyps(2,4)] obtain f' where "es_subs (take_one i (nt_es n)) i = Some f'"
    "sb_typ f' = sb_typ f" "client_view (sb_typ f) (sb_got f') = client_view (sb_typ f) (sb_got f) @ map NotifyResult rs" by auto
  moreover have "es_reachable (take_one i (nt_es n))"
    by (rule es_next [OF r es_step.client_read [OF receive_results.hyps(2,3)]]) (simp add: receive_results.hyps(4))
  ultimately show ?case using receive_results by (auto simp: nt_inv_def in_hand_def)
next
  case (receive_task n f k q)
  then have r: "es_reachable (nt_es n)" by (simp add: nt_inv_def)
  from taken_view [OF r receive_task.hyps(2,4)] obtain f' where "es_subs (take_one i (nt_es n)) i = Some f'"
    "sb_typ f' = sb_typ f" "client_view (sb_typ f) (sb_got f') = client_view (sb_typ f) (sb_got f) @ [NotifyTask k]" by auto
  moreover have "es_reachable (take_one i (nt_es n))"
    by (rule es_next [OF r es_step.client_read [OF receive_task.hyps(2,3)]]) (simp add: receive_task.hyps(4))
  ultimately show ?case using receive_task by (auto simp: nt_inv_def in_hand_def)
next
  case (client_gone n f)
  have "es_reachable (upd_sub (sb_phase_update (\<lambda>_. Unsubscribing)) i (nt_es n))"
    using client_gone.prems es_next [OF _ es_step.client_unsubscribe [OF client_gone.hyps(2,3)]] by (simp add: nt_inv_def)
  with client_gone show ?case by (auto simp: nt_inv_def in_hand_def)
next
  case (drain n f)
  then have r: "es_reachable (nt_es n)" by (simp add: nt_inv_def)
  have "es_reachable (take_one i (nt_es n))" by (rule es_next [OF r es_step.client_drain [OF drain.hyps(2-5)]])
  with drain show ?case by (auto simp: nt_inv_def take_one_def client_view_append)
qed (auto simp: nt_inv_def in_hand_def)

lemma nt_reachable_inv: "nt_reachable i n \<Longrightarrow> nt_inv i n"
proof (induction rule: nt_reachable.induct)
  case (nt_start es e es')
  then have "es_reachable es'" using api_results_step api_new_task_step es_next by blast
  with nt_start show ?case
    by (auto simp: nt_inv_def in_hand_def api_results_def api_new_task_def subscribe_with_def)
qed (rule nt_step_inv)

section \<open>Properties\<close>

text \<open>C35: A client of \<open>Results\<close> or \<open>NewTask\<close> is notified in the order of the broadcasts, with none left out
  and none twice. The calls of \<open>Notify\<close> are an initial part of the results of all lists broadcast to its subscription, one by
  one, or of the new tasks; and they are all of them when the goroutine is in its \<open>select\<close> and nothing is left in the channel or
  owed by the loop. What \<open>Unsubscribe\<close> drains is not notified.\<close>

theorem clients_are_notified_in_order:
  assumes "nt_reachable i n" "es_subs (nt_es n) i = Some f"
  shows "prefix (nt_notes n) (client_view (sb_typ f) (sb_due f)) \<and>
    (nt_place n = NtSelecting \<and> sb_chan f = [] \<and> owed (nt_es n) i = [] \<longrightarrow>
       nt_notes n = client_view (sb_typ f) (sb_due f))"
proof -
  have inv: "nt_inv i n" by (rule nt_reachable_inv [OF assms(1)])
  then have "es_reachable (nt_es n)" by (simp add: nt_inv_def)
  then have "sub_ok (nt_es n) i f" using es_invD(2) [OF es_reachable_inv] assms(2) by blast
  then have due: "sb_due f = sb_got f @ sb_chan f @ owed (nt_es n) i" by (simp add: sub_ok_def)
  have got: "prefix (nt_notes n) (client_view (sb_typ f) (sb_got f))"
    using inv assms(2) by (auto simp: nt_inv_def split: if_splits) (metis prefixI)
  have "nt_notes n = client_view (sb_typ f) (sb_got f)" if "nt_place n = NtSelecting"
    using inv assms(2) that by (simp add: nt_inv_def in_hand_def)
  with due got show ?thesis by (auto simp: client_view_append)
qed

section \<open>Witnesses\<close>

text \<open>A client of \<open>NewTask\<close>: its subscription is installed, the task 7 is added and broadcast to it, and it is notified.\<close>

definition task_sub :: "sub_phase \<Rightarrow> task_event list \<Rightarrow> task_event list \<Rightarrow> task_event list \<Rightarrow> subscription" where
  "task_sub ph c d g = \<lparr>sb_typ = NewTaskSubscription, sb_cap = notifierChanSize, sb_chan = c, sb_phase = ph, sb_due = d, sb_got = g\<rparr>"

definition task_state :: "i64 list \<Rightarrow> subscription \<Rightarrow> loop_state \<Rightarrow> event_msg" where
  "task_state q f l = \<lparr>es_resultsCh = [], es_addsCh = q,
     es_index = (\<lambda>_. [])(NewTaskSubscription := (if installed f then [0] else [])), es_subs = [0 \<mapsto> f], es_loop = l\<rparr>"

lemma task_fields [simp]:
  "es_subs (task_state q f l) i = (if i = 0 then Some f else None)" "es_loop (task_state q f l) = l"
  "es_addsCh (task_state q f l) = q" "es_index (task_state q f l) NewTaskSubscription = (if installed f then [0] else [])"
  "sb_phase (task_sub ph c d g) = ph" "sb_chan (task_sub ph c d g) = c" "sb_got (task_sub ph c d g) = g"
  "sb_due (task_sub ph c d g) = d" "sb_typ (task_sub ph c d g) = NewTaskSubscription"
  "sb_cap (task_sub ph c d g) = 128" "installed (task_sub ph c d g) = (ph = Reading \<or> ph = Unsubscribing)"
  by (simp_all add: task_state_def task_sub_def installed_def notifierChanSize_def)

lemma task_others:
  assumes "nt_reachable 0 \<lparr>nt_es = task_state q (task_sub ph c d g) l, nt_place = p, nt_notes = ns\<rparr>"
    and "es_step (task_state q (task_sub ph c d g) l) es'" "es' = task_state q' (task_sub ph' c' d' g) l'"
    and "ph = Reading \<longrightarrow> ph' = Reading"
  shows "nt_reachable 0 \<lparr>nt_es = task_state q' (task_sub ph' c' d' g) l', nt_place = p, nt_notes = ns\<rparr>"
proof -
  have "others_step 0 (task_state q (task_sub ph c d g) l) es'" using assms(2-4) by (simp add: others_step_def)
  from nt_next [OF assms(1) nt_step.others, simplified, OF this] show ?thesis by (simp add: assms(3))
qed

lemma task_received:
  "nt_reachable 0 \<lparr>nt_es = task_state [] (task_sub Reading [EvAdded 7] [EvAdded 7] []) Waiting,
     nt_place = NtSelecting, nt_notes = []\<rparr>"
proof -
  let ?s = "\<lambda>q ph c d l. task_state q (task_sub ph c d []) l"
  have eqs: "install_sub 0 (?s [] Installing [] [] Waiting) = ?s [] Reading [] [] Waiting"
    "(?s [] Reading [] [] Waiting)\<lparr>es_addsCh := [7]\<rparr> = ?s [7] Reading [] [] Waiting"
    "begin_broadcast (EvAdded 7) [0] ((?s [7] Reading [] [] Waiting)\<lparr>es_addsCh := []\<rparr>) = ?s [] Reading [] [EvAdded 7] (Sending (EvAdded 7) [0])"
    "deliver (EvAdded 7) [] 0 (?s [] Reading [] [EvAdded 7] (Sending (EvAdded 7) [0])) =
       ?s [] Reading [EvAdded 7] [EvAdded 7] (Sending (EvAdded 7) [])"
    "(?s [] Reading [EvAdded 7] [EvAdded 7] (Sending (EvAdded 7) []))\<lparr>es_loop := Waiting\<rparr> = ?s [] Reading [EvAdded 7] [EvAdded 7] Waiting"
    by (auto simp: install_sub_def begin_broadcast_def deliver_def upd_sub_def task_state_def task_sub_def installed_def fun_eq_iff)
  have "api_new_task (ErrExt ''unsupported'') True 0 no_subs = Inr (?s [] Installing [] [] Waiting)"
    by (auto simp: api_new_task_def subscribe_with_def no_subs_def task_state_def task_sub_def installed_def fun_eq_iff)
  then have a: "nt_reachable 0 \<lparr>nt_es = ?s [] Installing [] [] Waiting, nt_place = NtSubscribing, nt_notes = []\<rparr>"
    by (intro nt_start [OF es_start [OF new_event_msg_no_subs]]) (simp add: no_subs_def, blast)
  have b: "nt_reachable 0 \<lparr>nt_es = ?s [] Reading [] [] Waiting, nt_place = NtSubscribing, nt_notes = []\<rparr>"
    by (rule task_others [OF a es_step.loop_install [where f = "task_sub Installing [] [] []"] eqs(1)]) simp_all
  have "nt_step 0 \<lparr>nt_es = ?s [] Reading [] [] Waiting, nt_place = NtSubscribing, nt_notes = []\<rparr>
      (\<lparr>nt_es = ?s [] Reading [] [] Waiting, nt_place = NtSubscribing, nt_notes = []\<rparr>\<lparr>nt_place := NtSelecting\<rparr>)"
    by (rule nt_step.subscribed [where f = "task_sub Reading [] [] []"]) simp_all
  from nt_next [OF b this] have c: "nt_reachable 0 \<lparr>nt_es = ?s [] Reading [] [] Waiting, nt_place = NtSelecting, nt_notes = []\<rparr>" by simp
  have d: "nt_reachable 0 \<lparr>nt_es = ?s [7] Reading [] [] Waiting, nt_place = NtSelecting, nt_notes = []\<rparr>"
    by (rule task_others [OF c es_step.feed_added [where k = 7]]) (simp_all add: eqs(2) addEvChanSize_def)
  have e: "nt_reachable 0 \<lparr>nt_es = ?s [] Reading [] [EvAdded 7] (Sending (EvAdded 7) [0]), nt_place = NtSelecting, nt_notes = []\<rparr>"
    by (rule task_others [OF d es_step.loop_added [where q = "[]"] eqs(3)]) simp_all
  have f: "nt_reachable 0 \<lparr>nt_es = ?s [] Reading [EvAdded 7] [EvAdded 7] (Sending (EvAdded 7) []), nt_place = NtSelecting, nt_notes = []\<rparr>"
    by (rule task_others [OF e es_step.loop_send [where f = "task_sub Reading [] [EvAdded 7] []"] eqs(4)]) simp_all
  show ?thesis by (rule task_others [OF f es_step.loop_sent eqs(5)]) simp_all
qed

theorem clients_are_notified_in_order_witness:
  "\<exists>n f. nt_reachable 0 n \<and> es_subs (nt_es n) 0 = Some f \<and> sb_due f = [EvAdded 7] \<and> nt_notes n = [NotifyTask 7]"
proof -
  let ?n = "\<lparr>nt_es = task_state [] (task_sub Reading [EvAdded 7] [EvAdded 7] []) Waiting, nt_place = NtSelecting, nt_notes = []\<rparr>"
  have "nt_step 0 ?n (?n\<lparr>nt_es := take_one 0 (nt_es ?n), nt_place := NtPassing 7\<rparr>)"
    by (rule nt_step.receive_task [where f = "task_sub Reading [EvAdded 7] [EvAdded 7] []" and q = "[]"]) simp_all
  from nt_next [OF task_received this] have p: "nt_reachable 0 (?n\<lparr>nt_es := take_one 0 (nt_es ?n), nt_place := NtPassing 7\<rparr>)"
    (is "nt_reachable 0 ?p") .
  let ?m = "?p\<lparr>nt_place := NtSelecting, nt_notes := nt_notes ?p @ [NotifyTask 7]\<rparr>"
  have "nt_step 0 ?p ?m" by (rule nt_step.notify_task) simp
  with p have m: "nt_reachable 0 ?m" by (rule nt_next)
  obtain f where f: "es_subs (nt_es ?m) 0 = Some f" "sb_due f = [EvAdded 7]" "sb_chan f = []" "sb_typ f = NewTaskSubscription"
    by (simp add: take_one_def)
  have "owed (nt_es ?m) 0 = []" "nt_place ?m = NtSelecting" by (simp_all add: owed_def take_one_def)
  with clients_are_notified_in_order [OF m f(1)] f(2-4) have "nt_notes ?m = [NotifyTask 7]"
    by (simp add: client_view_def tasks_broadcast_def)
  with m f(1,2) show ?thesis by blast
qed

end
