(* ===== verification/Watcher.thy ===== *)
theory Watcher
  imports Module_Table
begin

text \<open>
  The directory watcher as it runs, \<open>node/task/watcher.go\<close>, between the package \<open>notify\<close> and the goroutine of
  \<open>update\<close>: the goroutine of \<open>Start\<close> takes notifications from one channel, translates them and sends events to the
  other. \<open>notify\<close> never blocks: a notification that finds its channel full is lost. Both goroutines end with the
  context, but the watcher looks at it only between two sends.
  The lemmas show that events arrive in order and complete but for what \<open>notify\<close> dropped, what one of them does to
  the table of modules, and that the watcher's goroutine can outlive the manager.
\<close>

section \<open>State and steps\<close>

text \<open>The sizes that \<open>filesWatcher\<close> chooses.\<close>

definition watchChanSize :: nat where "watchChanSize = 128"
definition watchEventSize :: nat where "watchEventSize = 64"

datatype watch_phase = WatchSelect | WatchSending watch_event | WatchStopped

text \<open>The last three fields record what was accepted by the first channel, what was dropped, and what \<open>update\<close> took.\<close>

record watcher =
  wt_notify :: "(notify_kind \<times> string) list"
  wt_phase :: watch_phase
  wt_events :: "watch_event list"
  wt_cancelled :: bool
  wt_update :: bool
  wt_accepted :: "(notify_kind \<times> string) list"
  wt_dropped :: "(notify_kind \<times> string) list"
  wt_taken :: "watch_event list"

text \<open>\<open>Watcher.Start\<close>; its argument is the error of \<open>fsnotify.Watch\<close>. \<open>update\<close> begins afterwards.\<close>

definition watcher_start :: "error option \<Rightarrow> error + watcher" where
  "watcher_start watch =
     (case watch of
        Some e \<Rightarrow> Inl e
      | None \<Rightarrow> Inr \<lparr>wt_notify = [], wt_phase = WatchSelect, wt_events = [], wt_cancelled = False, wt_update = True,
          wt_accepted = [], wt_dropped = [], wt_taken = []\<rparr>)"

text \<open>What the goroutine does with a notification: it waits to send its event, or goes on.\<close>

definition watch_receive :: "notify_kind \<times> string \<Rightarrow> watch_phase" where
  "watch_receive n =
     (case n of (kind, path) \<Rightarrow>
        (case watch_translate kind path of None \<Rightarrow> WatchSelect | Some ev \<Rightarrow> WatchSending ev))"

inductive watcher_step :: "watcher \<Rightarrow> watcher \<Rightarrow> bool" where
  notified: "wt_phase w \<noteq> WatchStopped \<Longrightarrow> length (wt_notify w) < watchChanSize \<Longrightarrow>
     watcher_step w (w\<lparr>wt_notify := wt_notify w @ [n], wt_accepted := wt_accepted w @ [n]\<rparr>)"
| dropped: "wt_phase w \<noteq> WatchStopped \<Longrightarrow> length (wt_notify w) = watchChanSize \<Longrightarrow>
     watcher_step w (w\<lparr>wt_dropped := wt_dropped w @ [n]\<rparr>)"
| received: "wt_phase w = WatchSelect \<Longrightarrow> wt_notify w = n # ns \<Longrightarrow>
     watcher_step w (w\<lparr>wt_notify := ns, wt_phase := watch_receive n\<rparr>)"
| sent: "wt_phase w = WatchSending ev \<Longrightarrow> length (wt_events w) < watchEventSize \<Longrightarrow>
     watcher_step w (w\<lparr>wt_phase := WatchSelect, wt_events := wt_events w @ [ev]\<rparr>)"
| taken: "wt_update w \<Longrightarrow> wt_events w = ev # evs \<Longrightarrow>
     watcher_step w (w\<lparr>wt_events := evs, wt_taken := wt_taken w @ [ev]\<rparr>)"
| cancel: "watcher_step w (w\<lparr>wt_cancelled := True\<rparr>)"
| update_ends: "wt_cancelled w \<Longrightarrow> watcher_step w (w\<lparr>wt_update := False\<rparr>)"
| stopped: "wt_cancelled w \<Longrightarrow> wt_phase w = WatchSelect \<Longrightarrow> watcher_step w (w\<lparr>wt_phase := WatchStopped\<rparr>)"

inductive watcher_reach :: "watcher \<Rightarrow> bool" where
  watch_begin: "watcher_start None = Inr w \<Longrightarrow> watcher_reach w"
| watch_next: "watcher_reach w \<Longrightarrow> watcher_step w w' \<Longrightarrow> watcher_reach w'"

section \<open>Order\<close>

definition translated :: "(notify_kind \<times> string) list \<Rightarrow> watch_event list" where
  "translated ns = List.map_filter (\<lambda>(kind, path). watch_translate kind path) ns"

lemma translated_simps [simp]:
  "translated [] = []"
  "translated (n # ns) = (case watch_receive n of WatchSending ev \<Rightarrow> [ev] | _ \<Rightarrow> []) @ translated ns"
  "translated (ns @ ns') = translated ns @ translated ns'"
  by (auto simp: translated_def map_filter_def watch_receive_def split: option.split prod.split)

definition in_hand :: "watch_phase \<Rightarrow> watch_event list" where
  "in_hand ph = (case ph of WatchSending ev \<Rightarrow> [ev] | _ \<Rightarrow> [])"

lemma in_hand_simps [simp]:
  "in_hand WatchSelect = []" "in_hand WatchStopped = []" "in_hand (WatchSending ev) = [ev]"
  by (simp_all add: in_hand_def)

definition watcher_inv :: "watcher \<Rightarrow> bool" where
  "watcher_inv w \<longleftrightarrow>
     translated (wt_accepted w) = wt_taken w @ wt_events w @ in_hand (wt_phase w) @ translated (wt_notify w) \<and>
     length (wt_events w) \<le> watchEventSize \<and> length (wt_notify w) \<le> watchChanSize"

lemma watcher_step_inv: "watcher_step w w' \<Longrightarrow> watcher_inv w \<Longrightarrow> watcher_inv w'"
proof (induction rule: watcher_step.induct)
  case (received w n ns)
  then show ?case by (auto simp: watcher_inv_def in_hand_def split: watch_phase.splits)
qed (auto simp: watcher_inv_def)

lemma watcher_reach_inv: "watcher_reach w \<Longrightarrow> watcher_inv w"
proof (induction rule: watcher_reach.induct)
  case (watch_next w w')
  then show ?case using watcher_step_inv by blast
qed (auto simp: watcher_start_def watcher_inv_def)

section \<open>A goroutine that never ends\<close>

definition send_blocked :: "watch_event \<Rightarrow> watcher \<Rightarrow> bool" where
  "send_blocked ev w \<longleftrightarrow> wt_phase w = WatchSending ev \<and> length (wt_events w) = watchEventSize \<and> \<not> wt_update w"

lemma send_blocked_step: "watcher_step w w' \<Longrightarrow> send_blocked ev w \<Longrightarrow> send_blocked ev w'"
  by (induction rule: watcher_step.induct) (auto simp: send_blocked_def)

section \<open>Properties\<close>

text \<open>C31: The watcher neither reorders nor invents events. In every state it can reach, the events that \<open>update\<close> has
  taken, those in the channel, the one in the goroutine's hand and those still to be translated are together the
  translations of the notifications \<open>notify\<close> could deliver, in order; the channels stay within their sizes.\<close>

theorem watcher_keeps_order:
  assumes "watcher_reach w"
  shows "translated (wt_accepted w) =
      wt_taken w @ wt_events w @ in_hand (wt_phase w) @ translated (wt_notify w) \<and>
    length (wt_events w) \<le> 64 \<and> length (wt_notify w) \<le> 128"
  using watcher_reach_inv [OF assms] by (simp add: watcher_inv_def watchChanSize_def watchEventSize_def)

text \<open>The watcher's goroutine can outlive the manager: when \<open>update\<close> has returned while the channel of events is full
  and the goroutine has one more to send, then it never gets to the context or to \<open>fsnotify.Stop\<close>: in every later
  state it is still at this send.\<close>

theorem watcher_outlives_update:
  assumes "send_blocked ev w" "watcher_step\<^sup>*\<^sup>* w w'"
  shows "send_blocked ev w' \<and> wt_phase w' \<noteq> WatchStopped \<and> wt_taken w' = wt_taken w"
  using assms(2)
proof (induction rule: rtranclp_induct)
  case base
  show ?case using assms(1) by (simp add: send_blocked_def)
next
  case (step y z)
  then have b: "send_blocked ev z" using send_blocked_step by blast
  from step.hyps(2) have "wt_taken z = wt_taken y"
    by (cases rule: watcher_step.cases) (use step.IH in \<open>auto simp: send_blocked_def\<close>)
  with b step.IH show ?case by (simp add: send_blocked_def)
qed

section \<open>Witnesses\<close>

definition sample_note :: "notify_kind \<times> string" where
  "sample_note = (NotifyCreate, ''/m/a.so'')"

definition sample_event :: watch_event where
  "sample_event = \<lparr>ev_type = EventCreated, ev_file = ''a.so''\<rparr>"

lemma sample_receive: "watch_receive sample_note = WatchSending sample_event"
proof -
  have "path_base ''/m/a.so'' = ''a.so''" by code_simp
  then show ?thesis by (simp add: watch_receive_def sample_note_def sample_event_def watch_translate_def)
qed

text \<open>The watcher after \<open>n\<close> files have appeared that nobody has taken.\<close>

definition filled_watcher :: "nat \<Rightarrow> watcher" where
  "filled_watcher n = \<lparr>wt_notify = [], wt_phase = WatchSelect, wt_events = replicate n sample_event,
     wt_cancelled = False, wt_update = True, wt_accepted = replicate n sample_note, wt_dropped = [], wt_taken = []\<rparr>"

lemma filled_watcher_hand:
  assumes "watcher_reach (filled_watcher n)"
  shows "watcher_reach ((filled_watcher n)\<lparr>wt_phase := WatchSending sample_event, wt_accepted := replicate (Suc n) sample_note\<rparr>)"
proof -
  have "watcher_reach ((filled_watcher n)\<lparr>wt_notify := [sample_note], wt_accepted := replicate n sample_note @ [sample_note]\<rparr>)"
    using watch_next [OF assms notified [where n = sample_note]]
    by (simp add: filled_watcher_def watchChanSize_def)
  from watch_next [OF this received [where n = sample_note and ns = "[]"]] show ?thesis
    by (simp add: filled_watcher_def sample_receive replicate_append_same)
qed

lemma filled_watcher_reach: "n \<le> watchEventSize \<Longrightarrow> watcher_reach (filled_watcher n)"
proof (induction n)
  case 0
  show ?case by (rule watch_begin) (simp add: watcher_start_def filled_watcher_def)
next
  case (Suc n)
  then have "watcher_reach (filled_watcher n)" by simp
  from watch_next [OF filled_watcher_hand [OF this] sent [where ev = sample_event]] Suc.prems show ?case
    by (simp add: filled_watcher_def replicate_append_same)
qed

theorem watcher_keeps_order_witness:
  "\<exists>w. watcher_reach w \<and> wt_phase w = WatchSending sample_event \<and> length (wt_events w) = 3 \<and>
     length (translated (wt_accepted w)) = 4"
proof -
  let ?w = "(filled_watcher 3)\<lparr>wt_phase := WatchSending sample_event, wt_accepted := replicate (Suc 3) sample_note\<rparr>"
  have r: "watcher_reach ?w"
    by (rule filled_watcher_hand) (simp add: filled_watcher_reach watchEventSize_def)
  from watcher_keeps_order [OF r] have "length (translated (wt_accepted ?w)) = 4"
    by (simp add: filled_watcher_def)
  with r show ?thesis by (intro exI [of _ ?w]) (simp add: filled_watcher_def)
qed

theorem watcher_outlives_update_witness:
  "\<exists>w. watcher_reach w \<and> wt_cancelled w \<and> send_blocked sample_event w \<and>
     (\<forall>w'. watcher_step\<^sup>*\<^sup>* w w' \<longrightarrow> wt_phase w' \<noteq> WatchStopped)"
proof -
  let ?f = "(filled_watcher 64)\<lparr>wt_phase := WatchSending sample_event, wt_accepted := replicate (Suc 64) sample_note\<rparr>"
  let ?w = "?f\<lparr>wt_cancelled := True, wt_update := False\<rparr>"
  have "watcher_reach ?f"
    by (rule filled_watcher_hand) (simp add: filled_watcher_reach watchEventSize_def)
  from watch_next [OF watch_next [OF this cancel] update_ends] have r: "watcher_reach ?w" by simp
  have b: "send_blocked sample_event ?w"
    by (simp add: send_blocked_def filled_watcher_def watchEventSize_def)
  from r b watcher_outlives_update [OF b] show ?thesis by (intro exI [of _ ?w]) simp
qed

end
