(* ===== verification/Live_System.thy ===== *)
theory Live_System
  imports Manager_Correct Event_Msg "HOL-Library.Sublist"
begin

text \<open>
  The task manager and the event loop together, as \<open>Manager.Start\<close> composes them: \<open>NewEventMsg\<close> subscribes the
  loop's two channels to the manager's feeds (\<open>SubscribeResultEvent\<close>, \<open>SubscribeNewEvent\<close>), \<open>AddTask\<close> ends with
  \<open>addFeed.Send\<close> and \<open>executeJobs\<close> with \<open>resultsFeed.Send\<close>. Both sends happen while the mutex of the manager is held, and
  \<open>Send\<close> of the package \<open>event\<close> returns once every subscribed channel, here the one of the loop, has taken the value
  (hypothesis \<open>feed_ok\<close>).
  The state adds what the holder of the mutex is sending; while there is such a send no other method of the
  manager can begin.
  The lemmas carry the order of events from the manager to the
  subscribers, and show when a send in hand ends and when it never does.
\<close>

section \<open>State and steps\<close>

record ('w, 'g, 'db) live =
  lv_sys :: "('w, 'g, 'db) system"
  lv_es :: event_msg
  lv_hand :: "task_event option"

text \<open>The feeds are of the package \<open>event\<close>, which is not in the repository: what \<open>Send\<close> does to the channel of the loop is an
  argument \<open>F\<close> of the steps, \<^const>\<open>None\<close> while it waits. It is documented to return when every subscribed channel has
  received the value, which a buffered channel does at its end once it has room; \<open>feed_send\<close> is the send with that behaviour.\<close>

type_synonym feed = "task_event \<Rightarrow> event_msg \<Rightarrow> event_msg option"

definition feed_ok :: "feed \<Rightarrow> bool" where
  "feed_ok F \<longleftrightarrow>
     (\<forall>rs es. length (es_resultsCh es) < resultEvChanSize \<longrightarrow>
        F (EvResults rs) es = Some (es\<lparr>es_resultsCh := es_resultsCh es @ [rs]\<rparr>)) \<and>
     (\<forall>rs es. resultEvChanSize \<le> length (es_resultsCh es) \<longrightarrow> F (EvResults rs) es = None) \<and>
     (\<forall>k es. length (es_addsCh es) < addEvChanSize \<longrightarrow> F (EvAdded k) es = Some (es\<lparr>es_addsCh := es_addsCh es @ [k]\<rparr>)) \<and>
     (\<forall>k es. addEvChanSize \<le> length (es_addsCh es) \<longrightarrow> F (EvAdded k) es = None)"

definition feed_send :: feed where
  "feed_send ev es =
     (case ev of
        EvResults rs \<Rightarrow>
          if length (es_resultsCh es) < resultEvChanSize
          then Some (es\<lparr>es_resultsCh := es_resultsCh es @ [rs]\<rparr>) else None
      | EvAdded k \<Rightarrow>
          if length (es_addsCh es) < addEvChanSize
          then Some (es\<lparr>es_addsCh := es_addsCh es @ [k]\<rparr>) else None)"

lemma feed_send_ok: "feed_ok feed_send"
  by (simp add: feed_ok_def feed_send_def)

lemma feed_ok_send:
  assumes "feed_ok F"
  shows "F = feed_send"
proof (intro ext)
  fix ev es
  from assms show "F ev es = feed_send ev es"
    by (cases ev) (auto simp: feed_ok_def feed_send_def not_less)
qed

text \<open>What a method sends before it gives the mutex back.\<close>

fun announcement :: "label \<Rightarrow> ('g, 'db) manager \<Rightarrow> task_event option" where
  "announcement (Added j k) m = Some (EvAdded k)"
| "announcement (Executed ks) m = Some (EvResults (last (mg_results m)))"
| "announcement l m = None"

text \<open>The loop returns only when the context of the manager is cancelled.\<close>

inductive live_step ::
  "feed \<Rightarrow> ('w, 'g, 'db) platform \<Rightarrow> ('w, 'g, 'db) live \<Rightarrow> label option \<Rightarrow> ('w, 'g, 'db) live \<Rightarrow> bool" for F P where
  act: "lv_hand s = None \<Longrightarrow> manager_step P (lv_sys s) l sy \<Longrightarrow>
     live_step F P s (Some l) (s\<lparr>lv_sys := sy, lv_hand := announcement l (sy_mgr sy)\<rparr>)"
| sent: "lv_hand s = Some ev \<Longrightarrow> F ev (lv_es s) = Some es \<Longrightarrow>
     live_step F P s None (s\<lparr>lv_es := es, lv_hand := None\<rparr>)"
| events: "inner_step (lv_es s) es \<Longrightarrow>
     es_loop es = Returned \<longrightarrow> es_loop (lv_es s) = Returned \<or> mg_canceled (sy_mgr (lv_sys s)) \<Longrightarrow>
     live_step F P s None (s\<lparr>lv_es := es\<rparr>)"

inductive_cases act_stepE: "live_step F P s (Some l) s'"
inductive_cases silent_stepE: "live_step F P s None s'"

text \<open>Runs, with the labels of the manager's steps.\<close>

inductive live_run ::
  "feed \<Rightarrow> ('w, 'g, 'db) platform \<Rightarrow> ('w, 'g, 'db) live \<Rightarrow> label list \<Rightarrow> ('w, 'g, 'db) live \<Rightarrow> bool" for F P where
  live_idle: "live_run F P s [] s"
| live_act: "live_step F P s (Some l) s1 \<Longrightarrow> live_run F P s1 ls s2 \<Longrightarrow> live_run F P s (l # ls) s2"
| live_silent: "live_step F P s None s1 \<Longrightarrow> live_run F P s1 ls s2 \<Longrightarrow> live_run F P s ls s2"

text \<open>The state after \<open>Start\<close>.\<close>

definition boot_live :: "('w, 'g, 'db) platform \<Rightarrow> string \<Rightarrow> string \<Rightarrow> 'w \<Rightarrow> ('w, 'g, 'db) live option" where
  "boot_live P dataDir nodeID w =
     (case new_manager dataDir of
        Inl p \<Rightarrow> None
      | Inr m0 \<Rightarrow>
          (case manager_start P nodeID m0 w of
             Ret None (m, w1) \<Rightarrow>
               (case new_event_msg True True of
                  Inl e \<Rightarrow> None
                | Inr es \<Rightarrow> Some \<lparr>lv_sys = \<lparr>sy_mgr = m, sy_world = w1, sy_batches = []\<rparr>, lv_es = es, lv_hand = None\<rparr>)
           | _ \<Rightarrow> None))"

definition live_reachable :: "feed \<Rightarrow> ('w, 'g, 'db) platform \<Rightarrow> ('w, 'g, 'db) live \<Rightarrow> bool" where
  "live_reachable F P s \<longleftrightarrow> (\<exists>dataDir nodeID w s0 ls. boot_live P dataDir nodeID w = Some s0 \<and> live_run F P s0 ls s)"

section \<open>Runs\<close>

lemma live_run_append: "live_run feed_send P s ls s1 \<Longrightarrow> live_run feed_send P s1 ls' s2 \<Longrightarrow> live_run feed_send P s (ls @ ls') s2"
  by (induction rule: live_run.induct) (auto intro: live_run.intros)

lemma live_reachable_run: "live_reachable feed_send P s \<Longrightarrow> live_run feed_send P s ls s' \<Longrightarrow> live_reachable feed_send P s'"
  unfolding live_reachable_def using live_run_append by blast

lemma live_run_1: "live_step feed_send P s (Some l) s' \<Longrightarrow> live_run feed_send P s [l] s'"
  "live_step feed_send P s None s' \<Longrightarrow> live_run feed_send P s [] s'"
  by (auto intro: live_run.intros)

text \<open>Every step projects to the parts, a send to a feed of the event system.\<close>

lemma feed_send_step: "feed_send ev es = Some es' \<Longrightarrow> es_step es es'"
  by (auto simp: feed_send_def split: task_event.splits if_splits intro: es_step.feed_results es_step.feed_added)

lemma live_run_induct_inv [consumes 1, case_names start act sent events]:
  assumes "live_run feed_send P s ls s'"
    and "I s"
    and "\<And>s l sy. I s \<Longrightarrow> lv_hand s = None \<Longrightarrow> manager_step P (lv_sys s) l sy \<Longrightarrow>
      I (s\<lparr>lv_sys := sy, lv_hand := announcement l (sy_mgr sy)\<rparr>)"
    and "\<And>s ev es. I s \<Longrightarrow> lv_hand s = Some ev \<Longrightarrow> feed_send ev (lv_es s) = Some es \<Longrightarrow>
      I (s\<lparr>lv_es := es, lv_hand := None\<rparr>)"
    and "\<And>s es. I s \<Longrightarrow> inner_step (lv_es s) es \<Longrightarrow>
      es_loop es = Returned \<longrightarrow> es_loop (lv_es s) = Returned \<or> mg_canceled (sy_mgr (lv_sys s)) \<Longrightarrow> I (s\<lparr>lv_es := es\<rparr>)"
  shows "I s'"
  using assms(1,2)
proof (induction rule: live_run.induct)
  case (live_act s l s1 ls s2)
  then show ?case using assms(3) by (metis act_stepE)
next
  case (live_silent s s1 ls s2)
  from live_silent.hyps(1) live_silent.prems have "I s1" by (cases rule: live_step.cases) (auto intro: assms(4,5))
  then show ?case by (rule live_silent.IH)
qed

section \<open>The order of events\<close>

definition announced :: "sub_type \<Rightarrow> ('g, 'db) manager \<Rightarrow> task_event list" where
  "announced ty m =
     (case ty of ResultsTaskSubscription \<Rightarrow> map EvResults (mg_results m)
      | NewTaskSubscription \<Rightarrow> map EvAdded (mg_added m) | _ \<Rightarrow> [])"

definition in_channel :: "sub_type \<Rightarrow> event_msg \<Rightarrow> task_event list" where
  "in_channel ty es =
     (case ty of ResultsTaskSubscription \<Rightarrow> map EvResults (es_resultsCh es)
      | NewTaskSubscription \<Rightarrow> map EvAdded (es_addsCh es) | _ \<Rightarrow> [])"

definition of_type :: "sub_type \<Rightarrow> task_event option \<Rightarrow> task_event list" where
  "of_type ty h = (case h of None \<Rightarrow> [] | Some ev \<Rightarrow> if event_sub_type ev = ty then [ev] else [])"

definition underway :: "sub_type \<Rightarrow> ('w, 'g, 'db) live \<Rightarrow> task_event list" where
  "underway ty s = in_channel ty (lv_es s) @ of_type ty (lv_hand s)"

text \<open>A subscription with the announcements \<open>A\<close> of which \<open>Q\<close> have not reached the loop: it is due nothing before it
  is installed, then every announcement up to \<open>Q\<close>, and after its end it was due a stretch of them.\<close>

definition follows :: "task_event list \<Rightarrow> task_event list \<Rightarrow> subscription \<Rightarrow> bool" where
  "follows A Q f \<longleftrightarrow> (if sb_phase f = Installing then sb_due f = []
     else if installed f then suffix (sb_due f @ Q) A else sublist (sb_due f) A)"

definition es_flow :: "(sub_type \<Rightarrow> task_event list) \<Rightarrow> (sub_type \<Rightarrow> task_event list) \<Rightarrow> event_msg \<Rightarrow> bool" where
  "es_flow A H es \<longleftrightarrow> (\<forall>ty. suffix (in_channel ty es @ H ty) (A ty)) \<and>
     (\<forall>i f. es_subs es i = Some f \<longrightarrow> follows (A (sb_typ f)) (in_channel (sb_typ f) es @ H (sb_typ f)) f)"

lemma es_flowI:
  assumes "\<And>ty. suffix (in_channel ty es @ H ty) (A ty)"
    and "\<And>i f. es_subs es i = Some f \<Longrightarrow> follows (A (sb_typ f)) (in_channel (sb_typ f) es @ H (sb_typ f)) f"
  shows "es_flow A H es"
  using assms by (auto simp: es_flow_def)

lemma es_flowD:
  assumes "es_flow A H es"
  shows "suffix (in_channel ty es @ H ty) (A ty)"
    and "es_subs es i = Some f \<Longrightarrow> follows (A (sb_typ f)) (in_channel (sb_typ f) es @ H (sb_typ f)) f"
  using assms by (auto simp: es_flow_def)

lemma suffix_drop_left: "suffix (xs @ ys) zs \<Longrightarrow> suffix ys zs"
  by (metis suffix_appendD)

lemma suffix_sublist_left: "suffix (xs @ ys) zs \<Longrightarrow> sublist xs zs"
  by (auto simp: suffix_def sublist_def)

text \<open>Moving the end of what is underway along with what is announced.\<close>

lemma sublist_more: "sublist xs ys \<Longrightarrow> sublist xs (ys @ zs)"
  unfolding sublist_def by (metis append_assoc)

lemma follows_more: "follows A Q f \<Longrightarrow> follows (A @ E) (Q @ E) f"
  by (auto simp: follows_def sublist_more simp flip: append_assoc)

text \<open>A step that changes one subscription and leaves the channels alone.\<close>

lemma in_channel_same:
  "es_resultsCh es' = es_resultsCh es \<Longrightarrow> es_addsCh es' = es_addsCh es \<Longrightarrow> in_channel ty es' = in_channel ty es"
  by (simp add: in_channel_def cong: sub_type.case_cong)

lemma es_flow_client:
  assumes "es_flow A H es" "es_resultsCh es' = es_resultsCh es" "es_addsCh es' = es_addsCh es"
    and "es_subs es' = (es_subs es)(i \<mapsto> g)" "follows (A (sb_typ g)) (in_channel (sb_typ g) es @ H (sb_typ g)) g"
  shows "es_flow A H es'"
  using assms(4,5) es_flowD [OF assms(1)] in_channel_same [OF assms(2,3)]
  by (intro es_flowI) (auto split: if_splits)

text \<open>The loop takes the oldest event out of its channel and starts to broadcast it to every installed subscription
  of its kind.\<close>

lemma es_flow_broadcast:
  assumes flow: "es_flow A H es" and inv: "es_inv es" and w: "es_loop es = Waiting"
    and ch: "in_channel (event_sub_type ev) es = ev # in_channel (event_sub_type ev) es'"
      "\<And>ty. ty \<noteq> event_sub_type ev \<Longrightarrow> in_channel ty es' = in_channel ty es"
    and subs: "es_subs es' = es_subs es" "set order = set (es_index es (event_sub_type ev))"
  shows "es_flow A H (begin_broadcast ev order es')"
proof (rule es_flowI)
  have same: "in_channel ty (begin_broadcast ev order es') = in_channel ty es'" for ty
    by (simp add: in_channel_def begin_broadcast_def split: sub_type.split)
  fix ty
  have "suffix (in_channel ty es' @ H ty) (in_channel ty es @ H ty)"
    using ch by (cases "ty = event_sub_type ev") (simp_all add: suffix_Cons)
  then show "suffix (in_channel ty (begin_broadcast ev order es') @ H ty) (A ty)"
    using es_flowD(1) [OF flow, of ty] unfolding same by (rule suffix_order.trans)
next
  have same: "in_channel ty (begin_broadcast ev order es') = in_channel ty es'" for ty
    by (simp add: in_channel_def begin_broadcast_def split: sub_type.split)
  fix i f assume f: "es_subs (begin_broadcast ev order es') i = Some f"
  then obtain g where g: "es_subs es i = Some g"
    "f = (if i \<in> set order then sb_due_update (\<lambda>d. d @ [ev]) g else g)"
    by (auto simp: begin_broadcast_def subs(1) split: if_splits)
  have ok: "sub_ok es i g" by (rule es_invD(2) [OF inv g(1)])
  then have idx: "i \<in> set order \<longleftrightarrow> sb_typ g = event_sub_type ev \<and> installed g"
    by (auto simp: subs(2) sub_ok_def)
  show "follows (A (sb_typ f)) (in_channel (sb_typ f) (begin_broadcast ev order es') @ H (sb_typ f)) f"
    using es_flowD(2) [OF flow g(1)] idx ch g(2) unfolding same
    by (cases "sb_typ g = event_sub_type ev"; cases "installed g") (auto simp: follows_def installed_def)
qed

lemma follows_phase:
  "follows A Q f \<Longrightarrow> installed f \<Longrightarrow> installed g \<Longrightarrow> sb_due g = sb_due f \<Longrightarrow> follows A Q g"
  by (auto simp: follows_def installed_def)

lemma follows_read:
  "follows A Q f \<Longrightarrow> sb_phase g = sb_phase f \<Longrightarrow> sb_due g = sb_due f \<Longrightarrow> follows A Q g"
  by (simp add: follows_def installed_def)

lemma inner_flow:
  assumes "es_step es es'" "inner_step es es'" "es_inv es" "es_flow A H es"
  shows "es_flow A H es'"
  using assms
proof (induction rule: es_step.induct)
  case (loop_results es rs q order)
  then show ?case
    by (intro es_flow_broadcast [of A H es]) (auto simp: in_channel_def event_sub_type_def split: sub_type.split)
next
  case (loop_added es k q order)
  then show ?case
    by (intro es_flow_broadcast [of A H es]) (auto simp: in_channel_def event_sub_type_def split: sub_type.split)
next
  case (loop_send es ev i rest f)
  show ?case
    by (rule es_flow_client [OF loop_send.prems(3), of _ i "sb_chan_update (\<lambda>c. c @ [ev]) f"])
      (use loop_send.hyps(2) follows_read [OF es_flowD(2) [OF loop_send.prems(3) loop_send.hyps(2)]] in
        \<open>auto simp: deliver_def upd_sub_def\<close>)
next
  case (loop_hand es ev i rest f)
  have "sb_chan f = []"
    using es_invD(2) [OF loop_hand.prems(2) loop_hand.hyps(2)] loop_hand.hyps(3) by (simp add: sub_ok_def)
  note subs = hand_subs [OF loop_hand.hyps(2) this, of ev rest]
  show ?case
    by (rule es_flow_client [OF loop_hand.prems(3) _ _ subs])
      (use follows_read [OF es_flowD(2) [OF loop_hand.prems(3) loop_hand.hyps(2)]] in
        \<open>auto simp: deliver_def upd_sub_def\<close>)
next
  case (loop_install es i f)
  have "follows (A (sb_typ f)) (in_channel (sb_typ f) es @ H (sb_typ f)) (sb_phase_update (\<lambda>_. Reading) f)"
    using es_flowD [OF loop_install.prems(3)] loop_install.hyps(2,3) by (auto simp: follows_def installed_def)
  then show ?case
    by (intro es_flow_client [OF loop_install.prems(3), of _ i "sb_phase_update (\<lambda>_. Reading) f"])
      (use loop_install.hyps(2) in \<open>auto simp: install_sub_def upd_sub_def\<close>)
next
  case (loop_uninstall es i f)
  have "follows (A (sb_typ f)) (in_channel (sb_typ f) es @ H (sb_typ f)) (sb_phase_update (\<lambda>_. Uninstalled) f)"
    using es_flowD(2) [OF loop_uninstall.prems(3) loop_uninstall.hyps(2)] loop_uninstall.hyps(2,3)
      suffix_sublist_left by (auto simp: follows_def installed_def)
  then show ?case
    by (intro es_flow_client [OF loop_uninstall.prems(3), of _ i "sb_phase_update (\<lambda>_. Uninstalled) f"])
      (use loop_uninstall.hyps(2) in \<open>auto simp: uninstall_sub_def upd_sub_def\<close>)
next
  case (subscribe es i ty n)
  show ?case
    by (rule es_flow_client [OF subscribe.prems(3), of _ i
        "\<lparr>sb_typ = ty, sb_cap = n, sb_chan = [], sb_phase = Installing, sb_due = [], sb_got = []\<rparr>"])
      (simp_all add: follows_def)
next
  case (client_read es i f)
  show ?case
    by (rule es_flow_client [OF client_read.prems(3), of _ i])
      (use client_read.hyps(1) follows_read [OF es_flowD(2) [OF client_read.prems(3) client_read.hyps(1)]] in
        \<open>auto simp: take_one_def upd_sub_def\<close>)
next
  case (client_unsubscribe es i f)
  show ?case
    by (rule es_flow_client [OF client_unsubscribe.prems(3), of _ i "sb_phase_update (\<lambda>_. Unsubscribing) f"])
      (use client_unsubscribe.hyps follows_phase [OF es_flowD(2) [OF client_unsubscribe.prems(3) client_unsubscribe.hyps(1)]]
        in \<open>auto simp: upd_sub_def installed_def\<close>)
next
  case (client_drain es i f)
  show ?case
    by (rule es_flow_client [OF client_drain.prems(3), of _ i])
      (use client_drain.hyps(1) follows_read [OF es_flowD(2) [OF client_drain.prems(3) client_drain.hyps(1)]] in
        \<open>auto simp: take_one_def upd_sub_def\<close>)
qed (auto simp: inner_step_def es_flow_def in_channel_def split: sub_type.splits)

text \<open>What each method of the manager announces.\<close>

abbreviation feeds :: "('g, 'db) manager \<Rightarrow> i64 list \<times> task_result list list" where
  "feeds m \<equiv> (mg_added m, mg_results m)"

lemma add_task_feeds [frame_simps]:
  "add_task P j m w = Ret r (m', w') \<Longrightarrow>
     feeds m' = (mg_added m @ (case r of Inl e \<Rightarrow> [] | Inr k \<Rightarrow> [k]), mg_results m)"
  by (auto simp: add_task_def schedule_job_def Let_def split: option.splits prod.splits sum.splits outcome.splits)

lemma delete_task_feeds: "delete_task P j m w = Ret e (m', w') \<Longrightarrow> feeds m' = feeds m"
  by (auto simp: delete_task_def Let_def split: option.splits prod.splits outcome.splits if_splits)

lemma handle_feeds:
  "tick_handle m = Ret ks m' \<Longrightarrow> feeds m' = feeds m"
  "watch_handle ev m = Ret u m' \<Longrightarrow> feeds m' = feeds m"
  "feeds (manager_stop m) = feeds m"
  by (auto simp: tick_handle_def watch_handle_def manager_stop_def split: outcome.splits sum.splits)

lemma execute_handle_feeds:
  "execute_handle P ks m w = Ret u (m', w') \<Longrightarrow> feeds m' = (mg_added m, mg_results m @ [last (mg_results m')])"
  by (auto simp: execute_handle_def split: outcome.splits)

lemmas feeds_kept = add_task_feeds delete_task_feeds handle_feeds(1,2) execute_handle_feeds

lemma manager_step_feeds:
  assumes "manager_step P s l s'"
  shows "announced ty (sy_mgr s') = announced ty (sy_mgr s) @ of_type ty (announcement l (sy_mgr s'))"
proof -
  define r where "r = last (mg_results (sy_mgr s'))"
  have "feeds (sy_mgr s') = (mg_added (sy_mgr s) @ (case l of Added j k \<Rightarrow> [k] | _ \<Rightarrow> []),
      mg_results (sy_mgr s) @ (case l of Executed ks \<Rightarrow> [r] | _ \<Rightarrow> []))"
    using assms unfolding r_def by cases (use handle_feeds(3) in \<open>auto dest: feeds_kept\<close>)
  then show ?thesis
    by (cases l) (auto simp: announced_def of_type_def event_sub_type_def split: sub_type.split)
qed

lemma manager_start_feeds: "manager_start P nodeID m w = Ret r (m', w') \<Longrightarrow> feeds m' = feeds m"
  by (auto simp: manager_start_def start_services_def load_modules_def files_watcher_def open_tables_def Let_def
      split: prod.splits sum.splits option.splits outcome.splits if_splits)

lemma new_manager_feeds: "new_manager dataDir = Inr m \<Longrightarrow> feeds m = ([], [])"
  by (auto simp: new_manager_def new_manager_with_time_wheel_def split: sum.splits if_splits)

definition live_inv :: "('w, 'g, 'db) live \<Rightarrow> bool" where
  "live_inv s \<longleftrightarrow> es_reachable (lv_es s) \<and>
     es_flow (\<lambda>ty. announced ty (sy_mgr (lv_sys s))) (\<lambda>ty. of_type ty (lv_hand s)) (lv_es s)"

lemma boot_live_inv: "boot_live P dataDir nodeID w = Some s \<Longrightarrow> live_inv s"
  by (auto simp: boot_live_def live_inv_def es_flow_def announced_def in_channel_def of_type_def new_event_msg_def
      es_start dest!: manager_start_feeds new_manager_feeds
      split: sum.splits outcome.splits option.splits prod.splits sub_type.split)

lemma feed_send_channel:
  "feed_send ev es = Some es' \<Longrightarrow> in_channel ty es' = in_channel ty es @ of_type ty (Some ev) \<and> es_subs es' = es_subs es"
  by (auto simp: feed_send_def in_channel_def of_type_def event_sub_type_def
      split: task_event.splits if_splits sub_type.split)

lemma live_run_inv:
  assumes "live_run feed_send P s ls s'" "live_inv s"
  shows "live_inv s'"
  using assms(1)
proof (induction rule: live_run_induct_inv)
  case (act s l sy)
  let ?E = "\<lambda>ty. of_type ty (announcement l (sy_mgr sy))"
  have more: "announced ty (sy_mgr sy) = announced ty (sy_mgr (lv_sys s)) @ ?E ty" for ty
    by (rule manager_step_feeds [OF act(3)])
  have flow: "es_flow (\<lambda>ty. announced ty (sy_mgr (lv_sys s))) (\<lambda>ty. []) (lv_es s)"
    using act(1,2) by (simp add: live_inv_def of_type_def)
  have "es_flow (\<lambda>ty. announced ty (sy_mgr sy)) ?E (lv_es s)"
    using es_flowD [OF flow] follows_more by (intro es_flowI) (fastforce simp: more suffix_def)+
  with act(1) show ?case by (simp add: live_inv_def)
next
  case (sent s ev es)
  have none: "of_type ty None = []" for ty by (simp add: of_type_def)
  from sent(1) have "es_reachable es" by (auto simp: live_inv_def intro: es_next [OF _ feed_send_step [OF sent(3)]])
  moreover have "es_flow A (\<lambda>ty. []) es" if "es_flow A (\<lambda>ty. of_type ty (Some ev)) (lv_es s)" for A
    using es_flowD [OF that] by (intro es_flowI) (simp_all add: feed_send_channel [OF sent(3)])
  ultimately show ?case using sent(1,2) by (simp add: live_inv_def none)
next
  case (events s es)
  then have "es_reachable (lv_es s)" by (simp add: live_inv_def)
  with events inner_es_step [OF events(2)] show ?case
    by (auto simp: live_inv_def intro: es_next inner_flow es_reachable_inv)
qed (rule assms(2))

lemma live_reachable_inv: "live_reachable feed_send P s \<Longrightarrow> live_inv s"
  unfolding live_reachable_def by (elim exE conjE) (rule live_run_inv [OF _ boot_live_inv])

section \<open>Properties\<close>

text \<open>C7: End to end, subscribers follow the manager: in every reachable state of the whole program, what the client of an
  installed subscription has read, then what waits in its channel, what a broadcast in progress still owes it,
  what waits in the channel between the manager and the loop and what the manager is just sending are
  together the last part of the list of all results, or all new tasks, that the manager has announced: nothing is
  lost, repeated or reordered on the way. A subscription that has ended got a stretch of that list. The feed between manager
  and loop is one that keeps \<open>feed_ok\<close>.\<close>

theorem clients_follow_the_manager:
  assumes "feed_ok F" "live_reachable F P s" "es_subs (lv_es s) i = Some f"
  shows "(installed f \<longrightarrow>
      suffix (sb_got f @ sb_chan f @ owed (lv_es s) i @ underway (sb_typ f) s)
        (announced (sb_typ f) (sy_mgr (lv_sys s)))) \<and>
    sublist (sb_got f) (announced (sb_typ f) (sy_mgr (lv_sys s)))"
proof -
  have inv: "es_reachable (lv_es s)" and flow:
    "follows (announced (sb_typ f) (sy_mgr (lv_sys s))) (underway (sb_typ f) s) f"
    using live_reachable_inv [OF assms(2) [unfolded feed_ok_send [OF assms(1)]]] es_flowD(2) [OF _ assms(3)]
    by (auto simp: live_inv_def underway_def)
  have due: "sb_due f = sb_got f @ sb_chan f @ owed (lv_es s) i"
    using es_invD(2) [OF es_reachable_inv [OF inv] assms(3)] by (simp add: sub_ok_def)
  have "sublist (sb_due f) (announced (sb_typ f) (sy_mgr (lv_sys s)))"
    using flow by (auto simp: follows_def suffix_sublist_left split: if_splits)
  then have "sublist (sb_got f) (announced (sb_typ f) (sy_mgr (lv_sys s)))"
    unfolding due sublist_def by (metis append_assoc)
  with flow due show ?thesis by (auto simp: follows_def installed_def)
qed

section \<open>Sends that end and sends that do not\<close>

text \<open>The loop makes no step any more: it has returned, or it is about to send to a full channel of new
  tasks whose client is in \<open>Unsubscribe\<close>.\<close>

definition loop_dead :: "event_msg \<Rightarrow> bool" where
  "loop_dead es \<longleftrightarrow>
     (case es_loop es of
        Waiting \<Rightarrow> False
      | Returned \<Rightarrow> True
      | Sending ev [] \<Rightarrow> False
      | Sending ev (i # rest) \<Rightarrow>
          (case es_subs es i of
             None \<Rightarrow> False
           | Some f \<Rightarrow> sb_phase f = Unsubscribing \<and> sb_typ f = NewTaskSubscription \<and> sb_cap f \<le> length (sb_chan f)))"

lemma inner_dead:
  assumes "inner_step es es'" "loop_dead es"
  shows "loop_dead es' \<and> es_resultsCh es' = es_resultsCh es \<and> es_addsCh es' = es_addsCh es"
proof -
  from assms(1) have "es_step es es'" by (rule inner_es_step)
  then show ?thesis
    using assms by (cases rule: es_step.cases)
      (auto simp: loop_dead_def inner_step_def take_one_def deliver_def upd_sub_def begin_broadcast_def
        split: loop_state.splits list.splits option.splits if_splits)
qed

lemma feed_send_same:
  "es_resultsCh es' = es_resultsCh es \<Longrightarrow> es_addsCh es' = es_addsCh es \<Longrightarrow>
     feed_send ev es' = None \<longleftrightarrow> feed_send ev es = None"
  by (simp add: feed_send_def split: task_event.split)

lemma live_es_runs:
  assumes "inner_step\<^sup>*\<^sup>* es es'" "es_loop es' \<noteq> Returned" "lv_es s = es"
  shows "live_run feed_send P s [] (s\<lparr>lv_es := es'\<rparr>)"
  using assms
proof (induction arbitrary: s rule: converse_rtranclp_induct)
  case base
  then have "s\<lparr>lv_es := es'\<rparr> = s" by simp
  then show ?case using live_run.live_idle [of feed_send P s] by simp
next
  case (step e e1)
  have stay: "es_loop x = Returned \<Longrightarrow> es_loop y = Returned" if "inner_step x y" for x y
    using inner_es_step [OF that] by (cases rule: es_step.cases)
      (auto simp: take_one_def upd_sub_def begin_broadcast_def install_sub_def uninstall_sub_def split: option.splits)
  have "es_loop e1 \<noteq> Returned"
    using step.hyps(2) step.prems(1) by (induction rule: converse_rtranclp_induct) (auto dest: stay)
  then have "live_step feed_send P s None (s\<lparr>lv_es := e1\<rparr>)"
    using step.hyps(1) step.prems(2) by (intro live_step.events) auto
  moreover have "live_run feed_send P (s\<lparr>lv_es := e1\<rparr>) [] (s\<lparr>lv_es := es'\<rparr>)"
    using step.IH [of "s\<lparr>lv_es := e1\<rparr>"] step.prems(1) by simp
  ultimately show ?case by (rule live_run.live_silent)
qed

text \<open>C15: A subscriber can freeze the scheduler. Once the loop makes no step any more and the manager is in a send
  that finds its channel full, the mutex is never given back: no run of the program from there contains a
  request, a tick, an execution or a stop, the state of the manager does not change, and the
  send stays where it is. (\<open>Send\<close> of the feed waits for a full channel: \<open>feed_ok\<close>.)\<close>

theorem blocked_loop_freezes_the_scheduler:
  assumes "feed_ok F" "loop_dead (lv_es s)" "lv_hand s = Some ev" "F ev (lv_es s) = None" "live_run F P s ls s'"
  shows "ls = [] \<and> lv_sys s' = lv_sys s \<and> lv_hand s' = Some ev"
  using assms(5,2-4) unfolding feed_ok_send [OF assms(1)]
proof (induction rule: live_run.induct)
  case (live_act s l s1 ls s2)
  then show ?case by (auto elim: act_stepE)
next
  case (live_silent s s1 ls s2)
  from live_silent.hyps(1) live_silent.prems obtain es where
    es: "inner_step (lv_es s) es" "s1 = s\<lparr>lv_es := es\<rparr>" by (auto elim: silent_stepE)
  from inner_dead [OF es(1) live_silent.prems(1)]
  have dead: "loop_dead es" and "feed_send ev es = None"
    using feed_send_same [of es "lv_es s" ev] live_silent.prems(3) by blast+
  then show ?case using live_silent.IH live_silent.prems(2) by (simp add: es(2))
qed simp

text \<open>The channels of the manager hold at most their capacity, and a loop whose clients drain makes room in them.\<close>

lemma es_channels_bounded:
  "es_reachable es \<Longrightarrow> length (es_resultsCh es) \<le> resultEvChanSize \<and> length (es_addsCh es) \<le> addEvChanSize"
proof (induction rule: es_reachable.induct)
  case (es_next es es')
  from es_next.hyps(2) es_next.IH show ?case
    by (cases rule: es_step.cases)
      (auto simp: begin_broadcast_def deliver_def install_sub_def uninstall_sub_def upd_sub_def split: option.splits)
qed (auto simp: new_event_msg_def)

lemma take_event:
  assumes "es_loop es = Waiting" "feed_send ev es = None"
    and "length (es_resultsCh es) \<le> resultEvChanSize" "length (es_addsCh es) \<le> addEvChanSize"
  obtains es' where "inner_step es es'" "es_loop es' \<noteq> Returned" "feed_send ev es' \<noteq> None"
proof (cases ev)
  case (EvResults rs)
  with assms(2,3) have len: "length (es_resultsCh es) = resultEvChanSize" by (simp add: feed_send_def split: if_splits)
  then obtain r q where q: "es_resultsCh es = r # q" by (cases "es_resultsCh es") (auto simp: resultEvChanSize_def)
  from es_step.loop_results [OF assms(1) q, of "remdups (es_index es ResultsTaskSubscription)"] EvResults len q
  show thesis by (intro that) (auto simp: inner_step_def begin_broadcast_def feed_send_def)
next
  case (EvAdded k)
  with assms(2,4) have len: "length (es_addsCh es) = addEvChanSize" by (simp add: feed_send_def split: if_splits)
  then obtain r q where q: "es_addsCh es = r # q" by (cases "es_addsCh es") (auto simp: addEvChanSize_def)
  from es_step.loop_added [OF assms(1) q, of "remdups (es_index es NewTaskSubscription)"] EvAdded len q
  show thesis by (intro that) (auto simp: inner_step_def begin_broadcast_def feed_send_def)
qed

lemma room_for_send:
  assumes reach: "es_reachable es" and loop: "es_loop es \<noteq> Returned"
    and drain: "\<forall>i f. es_subs es i = Some f \<longrightarrow> drains f"
  obtains es' where "inner_step\<^sup>*\<^sup>* es es'" "es_loop es' \<noteq> Returned" "feed_send ev es' \<noteq> None"
proof -
  obtain t where t: "inner_step\<^sup>*\<^sup>* es t" "es_loop t = Waiting"
  proof (cases "es_loop es")
    case (Sending ev' rest)
    show thesis by (rule broadcast_ends [OF es_reachable_inv [OF reach] Sending drain]) (rule that)
  qed (use that [of es] loop in auto)
  have len: "length (es_resultsCh t) \<le> resultEvChanSize" "length (es_addsCh t) \<le> addEvChanSize"
    using es_channels_bounded [OF es_reachable_inner [OF t(1) reach]] by simp_all
  show thesis
  proof (cases "feed_send ev t")
    case None
    show thesis by (rule take_event [OF t(2) None len]) (use t(1) that in \<open>auto intro: rtranclp.rtrancl_into_rtrancl\<close>)
  qed (use t that [of t] in simp)
qed

text \<open>C16: As long as no subscriber of new tasks is in \<open>Unsubscribe\<close> and the loop has not returned, a send of the manager can
  finish from every reachable state: the steps of the loop and of the clients lead to a state where the announcement has entered the
  channel and the mutex is free, without any step of the manager.\<close>

theorem announcements_can_finish:
  assumes "feed_ok F" "live_reachable F P s" "lv_hand s = Some ev" "es_loop (lv_es s) \<noteq> Returned"
    and "\<forall>i f. es_subs (lv_es s) i = Some f \<longrightarrow> drains f"
  shows "\<exists>s' q. live_run F P s [] s' \<and> lv_hand s' = None \<and> lv_sys s' = lv_sys s \<and>
    in_channel (event_sub_type ev) (lv_es s') = q @ [ev]"
proof -
  note send_is = feed_ok_send [OF assms(1)]
  note reach0 = assms(2) [unfolded send_is]
  have reach: "es_reachable (lv_es s)" using live_reachable_inv [OF reach0] by (simp add: live_inv_def)
  obtain es where es: "inner_step\<^sup>*\<^sup>* (lv_es s) es" "es_loop es \<noteq> Returned" "feed_send ev es \<noteq> None"
    by (rule room_for_send [OF reach assms(4,5)]) blast
  then obtain es' where send: "feed_send ev es = Some es'" by blast
  let ?s = "s\<lparr>lv_es := es\<rparr>"
  have "live_run feed_send P s [] ?s" by (rule live_es_runs [OF es(1,2) refl])
  moreover have "live_step feed_send P ?s None (?s\<lparr>lv_es := es', lv_hand := None\<rparr>)"
    using assms(3) send by (intro live_step.sent) simp_all
  ultimately have "live_run feed_send P s [] (?s\<lparr>lv_es := es', lv_hand := None\<rparr>)"
    using live_run_append live_run_1(2) by fastforce
  moreover have "in_channel (event_sub_type ev) es' = in_channel (event_sub_type ev) es @ [ev]"
    using feed_send_channel [OF send] by (simp add: of_type_def)
  ultimately show ?thesis unfolding send_is
    by (intro exI [of _ "?s\<lparr>lv_es := es', lv_hand := None\<rparr>"] exI [of _ "in_channel (event_sub_type ev) es"]) simp
qed

section \<open>Witnesses\<close>

text \<open>The program on the platform in memory, after its start and with tasks added one by one.\<close>

definition sample_ready :: "nat \<Rightarrow> event_msg \<Rightarrow> (sample_world, nat, bytes \<Rightarrow> bytes option) live \<Rightarrow> bool" where
  "sample_ready n es s \<longleftrightarrow> live_reachable feed_send sample_platform s \<and> lv_hand s = None \<and> lv_es s = es \<and>
     system_inv sample_platform (\<lambda>d. d) sample_issued (lv_sys s) \<and> mg_genID (sy_mgr (lv_sys s)) = Some n"

lemma sample_boot_live: obtains s where "sample_ready 1 no_subs s"
proof -
  obtain m0 m w where s: "new_manager ''/data'' = Inr m0"
    "manager_start sample_platform ''7'' m0 (0, Map.empty) = Ret None (m, w)" by (rule sample_started)
  let ?s = "\<lparr>lv_sys = \<lparr>sy_mgr = m, sy_world = w, sy_batches = []\<rparr>, lv_es = no_subs, lv_hand = None\<rparr>"
  have boot: "boot_live sample_platform ''/data'' ''7'' (0, Map.empty) = Some ?s"
    using s by (simp add: boot_live_def new_event_msg_no_subs)
  have "mg_genID m = Some 1"
    using s(2) by (auto simp: manager_start_def start_services_def load_modules_def files_watcher_def open_tables_def
        Let_def split: prod.splits sum.splits option.splits outcome.splits if_splits)
  moreover have "manager_inv sample_platform (\<lambda>d. d) sample_issued m"
    using start_inv [OF s, of "\<lambda>d. d" sample_issued] by auto
  moreover have "live_reachable feed_send sample_platform ?s"
    using boot live_run.live_idle unfolding live_reachable_def by blast
  ultimately show thesis by (intro that [of ?s]) (simp add: sample_ready_def)
qed

lemma sample_events:
  assumes "sample_ready n es s" "inner_step\<^sup>*\<^sup>* es es'" "es_loop es' \<noteq> Returned"
  shows "sample_ready n es' (s\<lparr>lv_es := es'\<rparr>)" "live_run feed_send sample_platform s [] (s\<lparr>lv_es := es'\<rparr>)"
proof -
  have es: "lv_es s = es" using assms(1) by (simp add: sample_ready_def)
  show run: "live_run feed_send sample_platform s [] (s\<lparr>lv_es := es'\<rparr>)" by (rule live_es_runs [OF assms(2,3) es])
  with assms(1) show "sample_ready n es' (s\<lparr>lv_es := es'\<rparr>)"
    using live_reachable_run by (auto simp: sample_ready_def)
qed

lemma sample_hand:
  assumes "sample_ready n es s" "n < 2 ^ 64"
  obtains s1 j where "live_step feed_send sample_platform s (Some (Added j (word_of_nat n))) s1"
    "lv_hand s1 = Some (EvAdded (word_of_nat n))" "lv_es s1 = es" "live_reachable feed_send sample_platform s1"
    "system_inv sample_platform (\<lambda>d. d) sample_issued (lv_sys s1)" "mg_genID (sy_mgr (lv_sys s1)) = Some (Suc n)"
proof -
  obtain m w B where sy: "lv_sys s = \<lparr>sy_mgr = m, sy_world = w, sy_batches = B\<rparr>" by (cases "lv_sys s")
  have m: "manager_inv sample_platform (\<lambda>d. d) sample_issued m" "mg_genID m = Some n"
    using assms(1) sy by (simp_all add: sample_ready_def)
  let ?j = "sample_job JobTypeCmd ''ls'' 2"
  have type: "j_type ?j = JobTypeCmd" by (simp add: sample_job_def)
  obtain m' where m': "add_task sample_platform ?j m w = Ret (Inr (word_of_nat n)) (m', w)"
    "mg_genID m' = Some (Suc n)" "manager_inv sample_platform (\<lambda>d. d) sample_issued m'"
    by (rule sample_add_any [OF m assms(2) sample_job_acceptable type])
  let ?sy = "\<lparr>sy_mgr = m', sy_world = w, sy_batches = B\<rparr>" and ?l = "Added ?j (word_of_nat n)"
  let ?s = "s\<lparr>lv_sys := ?sy, lv_hand := announcement ?l (sy_mgr ?sy)\<rparr>"
  have "manager_step sample_platform (lv_sys s) ?l ?sy" unfolding sy by (rule manager_step.added [OF m'(1)])
  then have step: "live_step feed_send sample_platform s (Some ?l) ?s"
    using assms(1) by (intro live_step.act) (simp_all add: sample_ready_def)
  then have "live_reachable feed_send sample_platform ?s"
    using assms(1) live_reachable_run [OF _ live_run_1(1) [OF step]] by (simp add: sample_ready_def)
  with step m' assms(1) show thesis by (intro that [of ?j ?s]) (simp_all add: sample_ready_def)
qed

lemma sample_announce:
  assumes "sample_ready n es s" "n < 2 ^ 64" "length (es_addsCh es) < addEvChanSize"
  obtains s1 j where "live_run feed_send sample_platform s [Added j (word_of_nat n)] s1"
    "sample_ready (Suc n) (es\<lparr>es_addsCh := es_addsCh es @ [word_of_nat n]\<rparr>) s1"
proof -
  obtain s1 j where s1: "live_step feed_send sample_platform s (Some (Added j (word_of_nat n))) s1"
    "lv_hand s1 = Some (EvAdded (word_of_nat n))" "lv_es s1 = es" "live_reachable feed_send sample_platform s1"
    "system_inv sample_platform (\<lambda>d. d) sample_issued (lv_sys s1)" "mg_genID (sy_mgr (lv_sys s1)) = Some (Suc n)"
    by (rule sample_hand [OF assms(1,2)])
  let ?es = "es\<lparr>es_addsCh := es_addsCh es @ [word_of_nat n]\<rparr>"
  let ?s = "s1\<lparr>lv_es := ?es, lv_hand := None\<rparr>"
  have "live_step feed_send sample_platform s1 None ?s"
    by (rule live_step.sent [OF s1(2)]) (simp add: s1(3) assms(3) feed_send_def)
  then have run: "live_run feed_send sample_platform s1 [] ?s" by (rule live_run_1(2))
  show thesis
    by (rule that [OF live_run.live_act [OF s1(1) run]])
      (use live_reachable_run [OF s1(4) run] s1 in \<open>simp add: sample_ready_def\<close>)
qed

lemma sample_fill:
  assumes "sample_ready n es s" "n + c < 2 ^ 64" "length (es_addsCh es) + c \<le> addEvChanSize"
  obtains s1 q where "sample_ready (n + c) (es\<lparr>es_addsCh := es_addsCh es @ q\<rparr>) s1" "length q = c"
proof -
  have "\<exists>s1 q. sample_ready (n + c) (es\<lparr>es_addsCh := es_addsCh es @ q\<rparr>) s1 \<and> length q = c"
    using assms
  proof (induction c arbitrary: n es s)
    case 0
    then have "sample_ready (n + 0) (es\<lparr>es_addsCh := es_addsCh es @ []\<rparr>) s" by simp
    then show ?case by fastforce
  next
    case (Suc c)
    let ?es = "es\<lparr>es_addsCh := es_addsCh es @ [word_of_nat n]\<rparr>"
    obtain s1 j where "live_run feed_send sample_platform s [Added j (word_of_nat n)] s1" "sample_ready (Suc n) ?es s1"
      by (rule sample_announce [OF Suc.prems(1)]) (use Suc.prems(2,3) in simp_all)
    from Suc.IH [OF this(2)] Suc.prems(2,3) obtain s2 q where
      "sample_ready (Suc n + c) (?es\<lparr>es_addsCh := es_addsCh ?es @ q\<rparr>) s2" "length q = c" by auto
    then show ?case by (intro exI [of _ s2] exI [of _ "word_of_nat n # q"]) simp
  qed
  with that show thesis by blast
qed

text \<open>A subscriber of new tasks with one place: it is installed, one task is announced and reaches it, a second one is
  announced and the loop is about to send it.\<close>

lemma one_state_adds: "(one_state q f l)\<lparr>es_addsCh := r\<rparr> = one_state r f l"
  by (simp add: one_state_def)

lemma sample_subscribed:
  obtains s where "sample_ready 1 (one_state [] (one_sub NewTaskSubscription Reading [] []) Waiting) s"
proof -
  obtain s where "sample_ready 1 no_subs s" by (rule sample_boot_live)
  from sample_events(1) [OF this one_install [of NewTaskSubscription]] show thesis by (intro that) simp_all
qed

lemma sample_received:
  obtains s where
    "sample_ready 2 (one_state [] (one_sub NewTaskSubscription Reading [EvAdded 1] [EvAdded 1]) Waiting) s"
proof -
  obtain s where s: "sample_ready 1 (one_state [] (one_sub NewTaskSubscription Reading [] []) Waiting) s"
    by (rule sample_subscribed)
  obtain s1 j where "live_run feed_send sample_platform s [Added j (word_of_nat 1)] s1"
    "sample_ready (Suc 1) (one_state [1] (one_sub NewTaskSubscription Reading [] []) Waiting) s1"
    by (rule sample_announce [OF s]) (simp_all add: addEvChanSize_def one_state_adds)
  note r = this(2)
  let ?t = "one_state [] (one_sub NewTaskSubscription Reading [EvAdded 1] [EvAdded 1]) Waiting"
  have "inner_step\<^sup>*\<^sup>* (one_state [1] (one_sub NewTaskSubscription Reading [] []) Waiting) ?t"
    using one_inner [OF one_take [of 1 "[]" "[]" "[]"]] one_inner [OF one_send [of "[]" NewTaskSubscription "[EvAdded 1]" "EvAdded 1"]]
      one_inner [OF one_sent [of "[]" "one_sub NewTaskSubscription Reading [EvAdded 1] [EvAdded 1]" "EvAdded 1"]]
    by (auto intro!: converse_rtranclp_into_rtranclp)
  from sample_events(1) [OF r this] show thesis by (intro that) (simp_all add: numeral_2_eq_2)
qed

lemma sample_blocked:
  obtains s where "live_reachable feed_send sample_platform s" "lv_hand s = Some (EvAdded 131)" "loop_dead (lv_es s)"
    "feed_send (EvAdded 131) (lv_es s) = None"
proof -
  let ?f = "\<lambda>ph. one_sub NewTaskSubscription ph [EvAdded 1] [EvAdded 1, EvAdded 2]"
  let ?l = "Sending (EvAdded 2) [0]"
  obtain s where s: "sample_ready 2 (one_state [] (one_sub NewTaskSubscription Reading [EvAdded 1] [EvAdded 1]) Waiting) s"
    by (rule sample_received)
  obtain s1 j where "live_run feed_send sample_platform s [Added j (word_of_nat 2)] s1"
    "sample_ready (Suc 2) (one_state [2] (one_sub NewTaskSubscription Reading [EvAdded 1] [EvAdded 1]) Waiting) s1"
    by (rule sample_announce [OF s]) (simp_all add: addEvChanSize_def one_state_adds)
  note r = this(2)
  have "inner_step\<^sup>*\<^sup>* (one_state [2] (one_sub NewTaskSubscription Reading [EvAdded 1] [EvAdded 1]) Waiting)
      (one_state [] (?f Unsubscribing) ?l)"
    using one_inner [OF one_take [of 2 "[]" "[EvAdded 1]" "[EvAdded 1]"]]
      one_inner [OF one_unsubscribe [of "[]" NewTaskSubscription "[EvAdded 1]" "[EvAdded 1, EvAdded 2]" ?l]]
    by (auto intro!: converse_rtranclp_into_rtranclp)
  from sample_events(1) [OF r this] have "sample_ready (Suc 2) (one_state [] (?f Unsubscribing) ?l) (s1\<lparr>lv_es := one_state [] (?f Unsubscribing) ?l\<rparr>)" by simp
  from sample_fill [OF this, of 128]
  obtain s2 q where "sample_ready (Suc 2 + 128) (one_state q (?f Unsubscribing) ?l) s2" and q: "length q = 128"
    by (simp add: addEvChanSize_def one_state_adds) blast
  then have "sample_ready 131 (one_state q (?f Unsubscribing) ?l) s2" by simp
  then obtain s3 j3 where s3: "lv_hand s3 = Some (EvAdded (word_of_nat 131))"
    "lv_es s3 = one_state q (?f Unsubscribing) ?l" "live_reachable feed_send sample_platform s3" by (rule sample_hand) simp_all
  show thesis
    by (rule that [of s3]) (use s3 q in \<open>simp_all add: loop_dead_def feed_send_def addEvChanSize_def\<close>)
qed

theorem clients_follow_the_manager_witness:
  "\<exists>s f. live_reachable feed_send sample_platform s \<and> es_subs (lv_es s) 0 = Some f \<and> installed f \<and>
     suffix (sb_got f @ [EvAdded 1] @ owed (lv_es s) 0 @ underway NewTaskSubscription s)
       (announced NewTaskSubscription (sy_mgr (lv_sys s)))"
proof -
  let ?f = "one_sub NewTaskSubscription Reading [EvAdded 1] [EvAdded 1]"
  obtain s where s: "sample_ready 2 (one_state [] ?f Waiting) s" by (rule sample_received)
  then have r: "live_reachable feed_send sample_platform s" and f: "es_subs (lv_es s) 0 = Some ?f"
    by (simp_all add: sample_ready_def)
  from clients_follow_the_manager [OF feed_send_ok r f] r f show ?thesis by (intro exI [of _ s] exI [of _ ?f]) simp
qed

theorem blocked_loop_freezes_the_scheduler_witness:
  "\<exists>s. live_reachable feed_send sample_platform s \<and>
     (\<forall>ls s'. live_run feed_send sample_platform s ls s' \<longrightarrow> ls = [] \<and> lv_sys s' = lv_sys s \<and> lv_hand s' = Some (EvAdded 131))"
proof -
  obtain s where s: "live_reachable feed_send sample_platform s" "lv_hand s = Some (EvAdded 131)" "loop_dead (lv_es s)"
    "feed_send (EvAdded 131) (lv_es s) = None" by (rule sample_blocked)
  from blocked_loop_freezes_the_scheduler [OF feed_send_ok s(3,2,4)] s(1) show ?thesis by blast
qed

theorem announcements_can_finish_witness:
  "\<exists>s s' q. live_reachable feed_send sample_platform s \<and> lv_hand s = Some (EvAdded 1) \<and> live_run feed_send sample_platform s [] s' \<and>
     lv_hand s' = None \<and> in_channel NewTaskSubscription (lv_es s') = q @ [EvAdded 1]"
proof -
  let ?es = "one_state [] (one_sub NewTaskSubscription Reading [] []) Waiting"
  obtain s where s: "sample_ready 1 ?es s" by (rule sample_subscribed)
  obtain s1 j where s1: "lv_hand s1 = Some (EvAdded (word_of_nat 1))" "lv_es s1 = ?es"
    "live_reachable feed_send sample_platform s1" by (rule sample_hand [OF s]) simp_all
  from s1(1) have hand: "lv_hand s1 = Some (EvAdded 1)" by simp
  have "es_loop (lv_es s1) \<noteq> Returned" "\<forall>i f. es_subs (lv_es s1) i = Some f \<longrightarrow> drains f"
    by (auto simp: s1(2) drains_def split: if_splits)
  from announcements_can_finish [OF feed_send_ok s1(3) hand this] hand s1(3) show ?thesis
    by (auto simp: event_sub_type_def)
qed

end
