(* ===== verification/Config.thy ===== *)
theory Config
  imports Go_Std
begin

text \<open>
  The configuration, \<open>node/conf/conf.go\<close>. The environment variables, the home directory of the
  user and the operating system are an \<open>os_env\<close>; \<open>common.AbsolutePath\<close> and \<open>types.NewVersion\<close> of
  the airfk library are parameters. The lemmas show which arguments of \<open>NewConfigEx\<close> reach the
  configuration, and how a node identifier is found.
\<close>

record os_env =
  env_get :: "string \<Rightarrow> string"
  env_home :: "string option"
  env_goos :: string

record 'v config =
  cf_name :: string
  cf_id :: string
  cf_version :: 'v
  cf_dataDir :: string
  cf_level :: int
  cf_httpHost :: string
  cf_httpPort :: int
  cf_httpOrigins :: "string list"
  cf_httpModules :: "string list"
  cf_wsHost :: string
  cf_wsPort :: int
  cf_wsOrigins :: "string list"
  cf_wsModules :: "string list"

definition DefaultHTTPPort :: int where "DefaultHTTPPort = 5050"
definition DefaultWSPort :: int where "DefaultWSPort = 5051"
definition ConfVersion :: string where "ConfVersion = ''0.0.1''"
definition NodeIdVar :: string where "NodeIdVar = ''NODEID''"

definition default_config :: "(string \<Rightarrow> 'v) \<Rightarrow> 'v config" where
  "default_config newVersion =
     \<lparr>cf_name = ''task'', cf_id = [], cf_version = newVersion ConfVersion, cf_dataDir = ''/tmp/task'',
      cf_level = 5, cf_httpHost = ''127.0.0.1'', cf_httpPort = DefaultHTTPPort,
      cf_httpOrigins = [''127.0.0.1''], cf_httpModules = [''admin'', ''task''],
      cf_wsHost = ''127.0.0.1'', cf_wsPort = DefaultWSPort, cf_wsOrigins = [''*''],
      cf_wsModules = [''admin'', ''task'']\<rparr>"

definition home_dir :: "os_env \<Rightarrow> string" where
  "home_dir E =
     (let home = env_get E ''HOME''
      in if home \<noteq> [] then home else case env_home E of Some h \<Rightarrow> h | None \<Rightarrow> [])"

definition default_data_dir :: "os_env \<Rightarrow> string" where
  "default_data_dir E =
     (let home = home_dir E
      in if home \<noteq> [] then
           (if env_goos E = ''darwin'' then path_join [home, ''Library'', ''task'', ''modules'']
            else if env_goos E = ''windows'' then path_join [home, ''AppData'', ''Roaming'', ''task'', ''modules'']
            else path_join [home, ''.task'', ''modules''])
         else [])"

text \<open>The identifier taken from the environment, or from the last part of the host's address.\<close>

definition derived_id :: "os_env \<Rightarrow> string \<Rightarrow> string" where
  "derived_id E httpHost =
     (let nid = env_get E NodeIdVar
      in if nid = [] \<and> httpHost \<noteq> ''0.0.0.0'' \<and> httpHost \<noteq> ''localhost''
         then last (split_on (CHR ''.'') httpHost) else nid)"

text \<open>\<open>NewConfigEx\<close>: the inner \<open>nid :=\<close> declares a new variable, whose value \<open>inner\<close> is dropped at the
  end of its block, and the default port is assigned to \<open>port\<close> after \<open>httpPort\<close> was read from it.\<close>

definition new_config_ex ::
  "os_env \<Rightarrow> (string \<Rightarrow> 'v) \<Rightarrow> (string \<Rightarrow> string \<Rightarrow> string) \<Rightarrow> string \<Rightarrow> string \<Rightarrow> string \<Rightarrow> string \<Rightarrow> string \<Rightarrow>
    string \<Rightarrow> int \<Rightarrow> int \<Rightarrow> int \<Rightarrow> 'v config" where
  "new_config_ex E newVersion absolutePath name version nodeId dataDir host wsHost level port wsPort =
     (let httpHost = (if host = [] then ''127.0.0.1'' else host);
          httpPort = port;
          port' = (if port = 0 then DefaultHTTPPort else port);
          nid = nodeId;
          inner = (if nid = [] then derived_id E httpHost else nid)
      in \<lparr>cf_name = name, cf_id = nid, cf_version = newVersion version,
          cf_dataDir = absolutePath (default_data_dir E) dataDir, cf_level = level,
          cf_httpHost = httpHost, cf_httpPort = httpPort, cf_httpOrigins = [], cf_httpModules = [],
          cf_wsHost = wsHost, cf_wsPort = wsPort, cf_wsOrigins = [], cf_wsModules = []\<rparr>)"

definition new_config ::
  "os_env \<Rightarrow> (string \<Rightarrow> 'v) \<Rightarrow> (string \<Rightarrow> string \<Rightarrow> string) \<Rightarrow> string \<Rightarrow> string \<Rightarrow> string \<Rightarrow> string \<Rightarrow> int \<Rightarrow>
    'v config" where
  "new_config E newVersion absolutePath name version dataDir host level =
     new_config_ex E newVersion absolutePath name version [] dataDir host ''127.0.0.1'' level
       DefaultHTTPPort DefaultWSPort"

text \<open>\<open>GetNodeId\<close> stores the identifier it finds; the two other getters read a field.\<close>

definition get_node_id :: "os_env \<Rightarrow> 'v config \<Rightarrow> string \<times> 'v config" where
  "get_node_id E c =
     (if cf_id c \<noteq> [] then (cf_id c, c)
      else let nid = derived_id E (cf_httpHost c) in (nid, c\<lparr>cf_id := nid\<rparr>))"

definition get_ws_host :: "'v config \<Rightarrow> string" where
  "get_ws_host c = cf_wsHost c"

definition get_ws_port :: "'v config \<Rightarrow> int" where
  "get_ws_port c = cf_wsPort c"

section \<open>Properties\<close>

text \<open>\<open>NewConfigEx\<close> keeps an empty node identifier and a zero port: the identifier it derives and the
  default port are computed and dropped. Only a later \<open>GetNodeId\<close> finds the identifier: it returns
  the variable \<open>NODEID\<close>, or the last part of the host's address, and returns the same again afterwards.\<close>

theorem config_defaults_are_dropped:
  "let c = new_config_ex E newVersion absolutePath name version [] dataDir host wsHost level 0 wsPort
   in cf_id c = [] \<and> cf_httpPort c = 0 \<and> cf_httpHost c = (if host = [] then ''127.0.0.1'' else host) \<and>
      fst (get_node_id E c) = derived_id E (cf_httpHost c) \<and>
      fst (get_node_id E (snd (get_node_id E c))) = fst (get_node_id E c) \<and>
      (env_get E NodeIdVar \<noteq> [] \<longrightarrow> fst (get_node_id E c) = env_get E NodeIdVar)"
  by (auto simp: new_config_ex_def get_node_id_def derived_id_def Let_def)

theorem config_defaults_are_dropped_witness:
  "\<exists>E. let c = new_config_ex E id (\<lambda>d p. p) ''task'' ''1'' [] ''/d'' ''10.0.0.7'' ''127.0.0.1'' 5 0 5051
     in cf_id c = [] \<and> cf_httpPort c = 0 \<and> fst (get_node_id E c) = ''12''"
proof -
  let ?E = "\<lparr>env_get = (\<lambda>v. if v = NodeIdVar then ''12'' else []), env_home = None, env_goos = ''linux''\<rparr>"
  show ?thesis
    using config_defaults_are_dropped [of ?E id "\<lambda>d p. p" "''task''" "''1''" "''/d''" "''10.0.0.7''"
        "''127.0.0.1''" 5 5051]
    by (intro exI [of _ ?E]) (simp add: Let_def derived_id_def NodeIdVar_def)
qed

end
