(* ===== verification/Node.thy ===== *)
theory Node
  imports Config Errors Prelude "HOL-Library.Multiset"
begin

text \<open>
  The node, \<open>node/admin/node.go\<close>: it constructs and starts the registered services, opens the HTTP
  and the websocket endpoint, and takes everything down again. The services, the RPC server of the
  airfk library (\<open>server.StartHTTPEndpoint\<close>, \<open>server.StartWSEndpoint\<close>), the two calls of the file system
  and the order in which Go ranges over a map are the record \<open>host\<close>; it acts on a world of
  type \<open>'w\<close>. The locale \<open>node_host\<close> states what a node relies on: which services are up and which
  listeners are open after each call.
  The lemmas show what Start and Stop leave up and open on every path. Logging is left out; a service, a
  listener and a handler are references (numbers).
\<close>

section \<open>The host\<close>

type_synonym sref = nat

datatype api_service = PrivateAdminAPI | PublicAdminAPI | PrivateTaskAPI sref | PublicTaskAPI sref

record rpc_api =
  ap_namespace :: string
  ap_version :: string
  ap_service :: api_service
  ap_public :: bool

type_synonym 'w endpoint_start =
  "string \<Rightarrow> rpc_api list \<Rightarrow> string list \<Rightarrow> string list \<Rightarrow> 'w \<Rightarrow> (error + nat \<times> nat) \<times> 'w"

type_synonym services = "(string \<times> sref) list"

record 'w host =
  ho_kind :: "sref \<Rightarrow> string"
  ho_start :: "sref \<Rightarrow> 'w \<Rightarrow> ('w, error option) outcome"
  ho_stop :: "sref \<Rightarrow> 'w \<Rightarrow> ('w, error option) outcome"
  ho_apis :: "sref \<Rightarrow> rpc_api list"
  ho_range :: "services \<Rightarrow> 'w \<Rightarrow> services \<times> 'w"
  ho_http :: "'w endpoint_start"
  ho_ws :: "'w endpoint_start"
  ho_close :: "nat \<Rightarrow> 'w \<Rightarrow> 'w"
  ho_stop_handler :: "nat \<Rightarrow> 'w \<Rightarrow> 'w"
  ho_abs :: "string \<Rightarrow> 'w \<Rightarrow> error + string"
  ho_mkdir_all :: "string \<Rightarrow> 'w \<Rightarrow> error option \<times> 'w"

section \<open>State\<close>

definition ErrNodeStopped :: error where "ErrNodeStopped = ErrNew ''node not started''"
definition ErrNodeRunning :: error where "ErrNodeRunning = ErrNew ''node already running''"
definition ErrServiceUnknown :: error where "ErrServiceUnknown = ErrNew ''unknown service''"
definition ErrDuplicateService :: error where "ErrDuplicateService = ErrNew ''duplicate service''"

text \<open>An error of \<open>Stop\<close> is a plain error or a \<open>StopError\<close>, with the errors of the services by their
  type.\<close>

datatype node_error = Plain error | StopError "error option" "(string \<times> error) list"

type_synonym 'w ctor = "(string \<Rightarrow> sref option) \<Rightarrow> 'w \<Rightarrow> ('w, error + sref) outcome"

text \<open>A map of services is an association list in the order of insertion, without duplicates; \<open>nd_stopped\<close> says
  that the channel \<open>stop\<close> is closed.\<close>

record ('v, 'w) node =
  nd_serviceFuncs :: "'w ctor list"
  nd_services :: services
  nd_isRunning :: bool
  nd_rpcAPIs :: "rpc_api list"
  nd_conf :: "'v config"
  nd_httpEndpoint :: string
  nd_httpListener :: "nat option"
  nd_httpHandler :: "nat option"
  nd_wsEndpoint :: string
  nd_wsListener :: "nat option"
  nd_wsHandler :: "nat option"
  nd_stopped :: bool

type_synonym ('v, 'w, 'a) node_action = "(('v, 'w) node \<times> 'w, 'a) outcome"

definition endpoint_of :: "string \<Rightarrow> int \<Rightarrow> string" where
  "endpoint_of h p = h @ '':'' @ show_int p"

definition new_node :: "'w host \<Rightarrow> 'v config \<Rightarrow> 'w \<Rightarrow> (error + ('v, 'w) node) \<times> 'w" where
  "new_node H c w =
     (case (if cf_dataDir c \<noteq> [] then ho_abs H (cf_dataDir c) w else Inr []) of
        Inl e \<Rightarrow> (Inl e, w)
      | Inr absdatadir \<Rightarrow>
          let c' = c\<lparr>cf_dataDir := absdatadir\<rparr>
          in case (if absdatadir \<noteq> [] then ho_mkdir_all H absdatadir w else (None, w)) of
               (Some e, w1) \<Rightarrow> (Inl e, w1)
             | (None, w1) \<Rightarrow>
                 (Inr \<lparr>nd_serviceFuncs = [], nd_services = [], nd_isRunning = False, nd_rpcAPIs = [],
                       nd_conf = c', nd_httpEndpoint = endpoint_of (cf_httpHost c') (cf_httpPort c'),
                       nd_httpListener = None, nd_httpHandler = None,
                       nd_wsEndpoint = endpoint_of (cf_wsHost c') (cf_wsPort c'),
                       nd_wsListener = None, nd_wsHandler = None, nd_stopped = False\<rparr>, w1))"

definition node_register :: "'w ctor \<Rightarrow> ('v, 'w) node \<Rightarrow> error option \<times> ('v, 'w) node" where
  "node_register c n =
     (if nd_isRunning n then (Some ErrNodeRunning, n)
      else (None, n\<lparr>nd_serviceFuncs := nd_serviceFuncs n @ [c]\<rparr>))"

section \<open>Start\<close>

text \<open>The first loop of \<open>Start\<close> constructs the services; each constructor sees the ones before it.\<close>

fun construct_services ::
  "'w host \<Rightarrow> 'w ctor list \<Rightarrow> services \<Rightarrow> 'w \<Rightarrow> ('w, error + services) outcome" where
  "construct_services H [] svs w = Ret (Inr svs) w"
| "construct_services H (c # cs) svs w =
     (case c (map_of svs) w of
        Panic p w' \<Rightarrow> Panic p w'
      | Ret (Inl e) w' \<Rightarrow> Ret (Inl e) w'
      | Ret (Inr s) w' \<Rightarrow>
          if map_of svs (ho_kind H s) \<noteq> None then Ret (Inl ErrDuplicateService) w'
          else construct_services H cs (svs @ [(ho_kind H s, s)]) w')"

text \<open>The cleanup of the second loop stops what was started, and drops the errors.\<close>

fun stop_kinds :: "'w host \<Rightarrow> services \<Rightarrow> string list \<Rightarrow> 'w \<Rightarrow> ('w, unit) outcome" where
  "stop_kinds H svs [] w = Ret () w"
| "stop_kinds H svs (k # ks) w =
     (case map_of svs k of
        None \<Rightarrow> Panic NilDereference w
      | Some s \<Rightarrow>
          (case ho_stop H s w of
             Panic p w' \<Rightarrow> Panic p w'
           | Ret r w' \<Rightarrow> stop_kinds H svs ks w'))"

text \<open>The second loop, over the pairs that the range still visits.\<close>

fun start_all ::
  "'w host \<Rightarrow> services \<Rightarrow> services \<Rightarrow> string list \<Rightarrow> 'w \<Rightarrow> ('w, error option) outcome" where
  "start_all H svs [] started w = Ret None w"
| "start_all H svs ((k, s) # rest) started w =
     (case ho_start H s w of
        Panic p w' \<Rightarrow> Panic p w'
      | Ret (Some e) w' \<Rightarrow>
          (case stop_kinds H svs started w' of
             Panic p w'' \<Rightarrow> Panic p w''
           | Ret u w'' \<Rightarrow> Ret (Some e) w'')
      | Ret None w' \<Rightarrow> start_all H svs rest (started @ [k]) w')"

definition node_apis :: "rpc_api list" where
  "node_apis =
     [\<lparr>ap_namespace = ''admin'', ap_version = ''1.0'', ap_service = PrivateAdminAPI, ap_public = False\<rparr>,
      \<lparr>ap_namespace = ''admin'', ap_version = ''1.0'', ap_service = PublicAdminAPI, ap_public = True\<rparr>]"

definition start_http ::
  "'w host \<Rightarrow> 'v config \<Rightarrow> rpc_api list \<Rightarrow> ('v, 'w) node \<Rightarrow> 'w \<Rightarrow> error option \<times> ('v, 'w) node \<times> 'w" where
  "start_http H c apis n w =
     (let endpoint = endpoint_of (cf_httpHost c) (cf_httpPort c)
      in if endpoint = [] then (None, n, w)
         else case ho_http H endpoint apis (cf_httpModules c) (cf_httpOrigins c) w of
                (Inl e, w1) \<Rightarrow> (Some e, n, w1)
              | (Inr (l, h), w1) \<Rightarrow>
                  (None, n\<lparr>nd_httpEndpoint := endpoint, nd_httpListener := Some l, nd_httpHandler := Some h\<rparr>, w1))"

definition start_ws ::
  "'w host \<Rightarrow> 'v config \<Rightarrow> rpc_api list \<Rightarrow> ('v, 'w) node \<Rightarrow> 'w \<Rightarrow> error option \<times> ('v, 'w) node \<times> 'w" where
  "start_ws H c apis n w =
     (let endpoint = endpoint_of (cf_wsHost c) (cf_wsPort c)
      in case ho_ws H endpoint apis (cf_wsModules c) (cf_wsOrigins c) w of
           (Inl e, w1) \<Rightarrow> (Some e, n, w1)
         | (Inr (l, h), w1) \<Rightarrow>
             (None, n\<lparr>nd_wsEndpoint := endpoint, nd_wsListener := Some l, nd_wsHandler := Some h\<rparr>, w1))"

definition stop_http :: "'w host \<Rightarrow> ('v, 'w) node \<Rightarrow> 'w \<Rightarrow> ('v, 'w) node \<times> 'w" where
  "stop_http H n w =
     (let w1 = (case nd_httpListener n of None \<Rightarrow> w | Some l \<Rightarrow> ho_close H l w);
          w2 = (case nd_httpHandler n of None \<Rightarrow> w1 | Some h \<Rightarrow> ho_stop_handler H h w1)
      in (n\<lparr>nd_httpListener := None, nd_httpHandler := None\<rparr>, w2))"

definition stop_ws :: "'w host \<Rightarrow> ('v, 'w) node \<Rightarrow> 'w \<Rightarrow> ('v, 'w) node \<times> 'w" where
  "stop_ws H n w =
     (let w1 = (case nd_wsListener n of None \<Rightarrow> w | Some l \<Rightarrow> ho_close H l w);
          w2 = (case nd_wsHandler n of None \<Rightarrow> w1 | Some h \<Rightarrow> ho_stop_handler H h w1)
      in (n\<lparr>nd_wsListener := None, nd_wsHandler := None\<rparr>, w2))"

definition start_rpc ::
  "'w host \<Rightarrow> services \<Rightarrow> ('v, 'w) node \<Rightarrow> 'w \<Rightarrow> error option \<times> ('v, 'w) node \<times> 'w" where
  "start_rpc H svs n w =
     (let (order, w0) = ho_range H svs w;
          apis = node_apis @ concat (map (\<lambda>(k, s). ho_apis H s) order)
      in case start_http H (nd_conf n) apis n w0 of
           (Some e, n1, w1) \<Rightarrow> (Some e, n1, w1)
         | (None, n1, w1) \<Rightarrow>
             (case start_ws H (nd_conf n1) apis n1 w1 of
                (Some e, n2, w2) \<Rightarrow> (let (n3, w3) = stop_http H n2 w2 in (Some e, n3, w3))
              | (None, n2, w2) \<Rightarrow> (None, n2\<lparr>nd_rpcAPIs := apis\<rparr>, w2)))"

definition node_start :: "'w host \<Rightarrow> ('v, 'w) node \<Rightarrow> 'w \<Rightarrow> ('v, 'w, error option) node_action" where
  "node_start H n w =
     (if nd_isRunning n then Ret (Some ErrNodeRunning) (n, w)
      else case construct_services H (nd_serviceFuncs n) [] w of
        Panic p w1 \<Rightarrow> Panic p (n, w1)
      | Ret (Inl e) w1 \<Rightarrow> Ret (Some e) (n, w1)
      | Ret (Inr svs) w1 \<Rightarrow>
          (let (order, w2) = ho_range H svs w1
           in case start_all H svs order [] w2 of
                Panic p w3 \<Rightarrow> Panic p (n, w3)
              | Ret (Some e) w3 \<Rightarrow> Ret (Some e) (n, w3)
              | Ret None w3 \<Rightarrow>
                  (case start_rpc H svs n w3 of
                     (Some e, n1, w4) \<Rightarrow> Ret (Some e) (n1, w4)
                   | (None, n1, w4) \<Rightarrow>
                       Ret None (n1\<lparr>nd_isRunning := True, nd_services := svs, nd_stopped := False\<rparr>, w4))))"

section \<open>Stop and Restart\<close>

text \<open>The loop of \<open>Stop\<close> collects the errors of the services.\<close>

fun stop_all ::
  "'w host \<Rightarrow> services \<Rightarrow> (string \<times> error) list \<Rightarrow> 'w \<Rightarrow> ('w, (string \<times> error) list) outcome" where
  "stop_all H [] failed w = Ret failed w"
| "stop_all H ((k, s) # rest) failed w =
     (case ho_stop H s w of
        Panic p w' \<Rightarrow> Panic p w'
      | Ret None w' \<Rightarrow> stop_all H rest failed w'
      | Ret (Some e) w' \<Rightarrow> stop_all H rest (failed @ [(k, e)]) w')"

definition node_stop :: "'w host \<Rightarrow> ('v, 'w) node \<Rightarrow> 'w \<Rightarrow> ('v, 'w, node_error option) node_action" where
  "node_stop H n w =
     (if \<not> nd_isRunning n then Ret (Some (Plain ErrNodeStopped)) (n, w)
      else let (n1, w1) = stop_ws H n w;
               (n2, w2) = stop_http H n1 w1;
               (order, w3) = ho_range H (nd_services n2) w2
           in case stop_all H order [] w3 of
                Panic p w4 \<Rightarrow> Panic p (n2, w4)
              | Ret failed w4 \<Rightarrow>
                  let n3 = n2\<lparr>nd_rpcAPIs := [], nd_services := [], nd_isRunning := False\<rparr>
                  in if nd_stopped n3 then Panic CloseOfClosed (n3, w4)
                     else Ret (if failed \<noteq> [] then Some (StopError None failed) else None)
                            (n3\<lparr>nd_stopped := True\<rparr>, w4))"

definition node_restart :: "'w host \<Rightarrow> ('v, 'w) node \<Rightarrow> 'w \<Rightarrow> ('v, 'w, node_error option) node_action" where
  "node_restart H n w =
     (case node_stop H n w of
        Panic p s \<Rightarrow> Panic p s
      | Ret (Some e) s \<Rightarrow> Ret (Some e) s
      | Ret None (n1, w1) \<Rightarrow>
          (case node_start H n1 w1 of
             Panic p s \<Rightarrow> Panic p s
           | Ret (Some e) s \<Rightarrow> Ret (Some (Plain e)) s
           | Ret None s \<Rightarrow> Ret None s))"

section \<open>Queries\<close>

text \<open>\<open>Service\<close> takes the type it looks for from its argument, and stores the service there.\<close>

definition node_service :: "string \<Rightarrow> ('v, 'w) node \<Rightarrow> error + sref" where
  "node_service kind n =
     (if \<not> nd_isRunning n then Inl ErrNodeStopped
      else case map_of (nd_services n) kind of
             Some s \<Rightarrow> Inr s
           | None \<Rightarrow> Inl ErrServiceUnknown)"

definition node_services :: "'w host \<Rightarrow> ('v, 'w) node \<Rightarrow> 'w \<Rightarrow> sref list \<times> 'w" where
  "node_services H n w = (let (order, w1) = ho_range H (nd_services n) w in (map snd order, w1))"

definition node_data_dir :: "('v, 'w) node \<Rightarrow> string" where "node_data_dir n = cf_dataDir (nd_conf n)"
definition node_id :: "('v, 'w) node \<Rightarrow> string" where "node_id n = cf_id (nd_conf n)"
definition node_name :: "('v, 'w) node \<Rightarrow> string" where "node_name n = cf_name (nd_conf n)"

definition node_version :: "('v \<Rightarrow> string) \<Rightarrow> ('v, 'w) node \<Rightarrow> string" where
  "node_version version_string n = version_string (cf_version (nd_conf n))"

section \<open>What a node relies on\<close>

text \<open>\<open>up w\<close> are the services that run in the world \<open>w\<close>, \<open>opn w\<close> the listeners that are open. Start
  brings a service up or fails without a trace, and after Stop it is down; a new listener is not one
  that is open already; a range visits the pairs of the map, each once.\<close>

locale service_life =
  fixes H :: "'w host" and up :: "'w \<Rightarrow> sref set" and opn :: "'w \<Rightarrow> nat set"
  assumes start_up: "ho_start H s w = Ret None w' \<Longrightarrow> up w' = insert s (up w) \<and> opn w' = opn w"
    and start_failed: "ho_start H s w = Ret (Some e) w' \<Longrightarrow> up w' = up w \<and> opn w' = opn w"
    and stop_down: "ho_stop H s w = Ret r w' \<Longrightarrow> up w' = up w - {s} \<and> opn w' = opn w"
begin

lemma stop_kinds_down:
  "stop_kinds H svs ks w = Ret u w' \<Longrightarrow>
     up w' = up w - {s. \<exists>k \<in> set ks. map_of svs k = Some s} \<and> opn w' = opn w"
proof (induction ks arbitrary: w)
  case (Cons k ks)
  then show ?case
    by (auto split: option.splits outcome.splits dest!: stop_down Cons.IH)
qed simp

lemma start_all_up:
  assumes "start_all H svs rest started w = Ret None w'"
  shows "up w' = up w \<union> snd ` set rest \<and> opn w' = opn w"
  using assms
proof (induction rest arbitrary: started w)
  case (Cons p rest)
  then show ?case
    by (cases p) (auto split: option.splits outcome.splits dest!: start_up Cons.IH)
qed simp

lemma start_all_failed:
  assumes "start_all H svs rest started w = Ret (Some e) w'"
    and "set rest \<subseteq> set svs" "distinct (map fst svs)"
    and "snd ` set rest \<inter> up w0 = {}" "up w = up w0 \<union> {s. \<exists>k \<in> set started. map_of svs k = Some s}"
    and "{s. \<exists>k \<in> set started. map_of svs k = Some s} \<inter> up w0 = {}"
  shows "up w' = up w0 \<and> opn w' = opn w"
  using assms
proof (induction rest arbitrary: started w)
  case (Cons p rest)
  obtain k s where p: "p = (k, s)" by (cases p)
  have ks: "map_of svs k = Some s" using Cons.prems(2,3) p by (auto simp: map_of_is_SomeI)
  have ins: "{s'. \<exists>k' \<in> set (started @ [k]). map_of svs k' = Some s'} =
      insert s {s. \<exists>k \<in> set started. map_of svs k = Some s}" using ks by auto
  from Cons.prems(1) p consider
      (fail) w1 where "ho_start H s w = Ret (Some e) w1" "stop_kinds H svs started w1 = Ret () w'"
    | (go) w1 where "ho_start H s w = Ret None w1" "start_all H svs rest (started @ [k]) w1 = Ret (Some e) w'"
    by (auto split: option.splits outcome.splits)
  then show ?case
  proof cases
    case fail
    from start_failed [OF fail(1)] stop_kinds_down [OF fail(2)] Cons.prems(5,6) show ?thesis by auto
  next
    case go
    have "up w' = up w0 \<and> opn w' = opn w1"
      by (rule Cons.IH [OF go(2)])
        (use Cons.prems(2-6) start_up [OF go(1)] p in \<open>unfold ins, auto\<close>)
    with start_up [OF go(1)] show ?thesis by simp
  qed
qed simp

lemma stop_all_down:
  "stop_all H rest failed w = Ret fs w' \<Longrightarrow> up w' = up w - snd ` set rest \<and> opn w' = opn w"
proof (induction rest arbitrary: failed w)
  case (Cons p rest)
  then show ?case
    by (cases p) (auto split: option.splits outcome.splits dest!: stop_down Cons.IH)
qed simp

end

locale node_host = service_life H up opn
  for H :: "'w host" and up :: "'w \<Rightarrow> sref set" and opn :: "'w \<Rightarrow> nat set" +
  assumes range_once: "ho_range H xs w = (ys, w') \<Longrightarrow> mset ys = mset xs \<and> up w' = up w \<and> opn w' = opn w"
    and http_opens: "ho_http H e apis ms os w = (Inr (l, h), w') \<Longrightarrow>
          l \<notin> opn w \<and> opn w' = insert l (opn w) \<and> up w' = up w"
    and http_fails: "ho_http H e apis ms os w = (Inl err, w') \<Longrightarrow> opn w' = opn w \<and> up w' = up w"
    and ws_opens: "ho_ws H e apis ms os w = (Inr (l, h), w') \<Longrightarrow>
          l \<notin> opn w \<and> opn w' = insert l (opn w) \<and> up w' = up w"
    and ws_fails: "ho_ws H e apis ms os w = (Inl err, w') \<Longrightarrow> opn w' = opn w \<and> up w' = up w"
    and close_closes: "opn (ho_close H l w) = opn w - {l} \<and> up (ho_close H l w) = up w"
    and stop_handler_keeps: "opn (ho_stop_handler H h w) = opn w \<and> up (ho_stop_handler H h w) = up w"

text \<open>A constructor makes a service that is not up, and starts nothing.\<close>

definition quiet_ctor :: "('w \<Rightarrow> sref set) \<Rightarrow> ('w \<Rightarrow> nat set) \<Rightarrow> 'w ctor \<Rightarrow> bool" where
  "quiet_ctor up opn c \<longleftrightarrow> (\<forall>m w r w'. c m w = Ret r w' \<longrightarrow> up w' = up w \<and> opn w' = opn w \<and>
     (\<forall>s. r = Inr s \<longrightarrow> s \<notin> up w'))"

lemma construct_services_quiet:
  assumes "construct_services H cs svs w = Ret (Inr svs') w'" "\<forall>c \<in> set cs. quiet_ctor up opn c"
    and "distinct (map fst svs)" "snd ` set svs \<inter> up w = {}" "\<forall>(k, s) \<in> set svs. k = ho_kind H s"
  shows "up w' = up w \<and> opn w' = opn w \<and> distinct (map fst svs') \<and> snd ` set svs' \<inter> up w' = {} \<and>
    (\<forall>(k, s) \<in> set svs'. k = ho_kind H s)"
  using assms
proof (induction cs arbitrary: svs w)
  case (Cons c cs)
  from Cons.prems(1) obtain s w1 where s: "c (map_of svs) w = Ret (Inr s) w1"
    "map_of svs (ho_kind H s) = None"
    "construct_services H cs (svs @ [(ho_kind H s, s)]) w1 = Ret (Inr svs') w'"
    by (auto split: outcome.splits sum.splits if_splits)
  from Cons.prems(2) s(1) have q: "up w1 = up w" "opn w1 = opn w" "s \<notin> up w1"
    by (force simp: quiet_ctor_def)+
  have "ho_kind H s \<notin> fst ` set svs" using s(2) by (simp add: map_of_eq_None_iff)
  then have "up w' = up w1 \<and> opn w' = opn w1 \<and> distinct (map fst svs') \<and> snd ` set svs' \<inter> up w' = {} \<and>
      (\<forall>(k, s) \<in> set svs'. k = ho_kind H s)"
    using Cons.prems(2-5) q by (intro Cons.IH [OF s(3)]) auto
  from this [unfolded q(1,2)] show ?case by blast
qed simp

lemma construct_services_failed:
  assumes "construct_services H cs svs w = Ret (Inl e) w'" "\<forall>c \<in> set cs. quiet_ctor up opn c"
  shows "up w' = up w \<and> opn w' = opn w"
  using assms
proof (induction cs arbitrary: svs w)
  case (Cons c cs)
  from Cons.prems(1) obtain r w1 where r: "c (map_of svs) w = Ret r w1"
    by (auto split: outcome.splits)
  with Cons.prems(2) have q: "up w1 = up w" "opn w1 = opn w"
    by (auto simp: quiet_ctor_def)
  show ?case
    using Cons.prems r q Cons.IH [of _ w1] by (cases r) (auto split: if_splits)
qed simp

section \<open>Invariant of a node\<close>

text \<open>A node that runs has an open channel \<open>stop\<close>, services of distinct types that are up, and both listeners
  open; a node that does not run has no HTTP endpoint.\<close>

definition listeners :: "('v, 'w) node \<Rightarrow> nat set" where
  "listeners n = set_option (nd_httpListener n) \<union> set_option (nd_wsListener n)"

definition node_inv :: "('w \<Rightarrow> sref set) \<Rightarrow> ('w \<Rightarrow> nat set) \<Rightarrow> ('v, 'w) node \<Rightarrow> 'w \<Rightarrow> bool" where
  "node_inv up opn n w \<longleftrightarrow> (\<forall>c \<in> set (nd_serviceFuncs n). quiet_ctor up opn c) \<and>
     distinct (map fst (nd_services n)) \<and> listeners n \<subseteq> opn w \<and>
     (nd_httpListener n = None \<or> nd_httpListener n \<noteq> nd_wsListener n) \<and>
     (if nd_isRunning n
      then \<not> nd_stopped n \<and> snd ` set (nd_services n) \<subseteq> up w \<and> nd_httpListener n \<noteq> None
      else nd_services n = [] \<and> nd_httpListener n = None)"

lemma endpoint_not_Nil [simp]: "endpoint_of h p \<noteq> []"
  by (simp add: endpoint_of_def)

context node_host
begin

lemma start_http_ok:
  assumes "start_http H c apis n w = (None, n', w')"
  obtains l h where "n' = n\<lparr>nd_httpEndpoint := endpoint_of (cf_httpHost c) (cf_httpPort c),
      nd_httpListener := Some l, nd_httpHandler := Some h\<rparr>"
    "l \<notin> opn w" "opn w' = insert l (opn w)" "up w' = up w"
  using assms by (auto simp: start_http_def Let_def split: prod.splits sum.splits dest!: http_opens)

lemma start_http_failed:
  "start_http H c apis n w = (Some e, n', w') \<Longrightarrow> n' = n \<and> opn w' = opn w \<and> up w' = up w"
  by (auto simp: start_http_def Let_def split: prod.splits sum.splits dest!: http_fails)

lemma start_ws_ok:
  assumes "start_ws H c apis n w = (None, n', w')"
  obtains l h where "n' = n\<lparr>nd_wsEndpoint := endpoint_of (cf_wsHost c) (cf_wsPort c),
      nd_wsListener := Some l, nd_wsHandler := Some h\<rparr>"
    "l \<notin> opn w" "opn w' = insert l (opn w)" "up w' = up w"
  using assms by (auto simp: start_ws_def Let_def split: prod.splits sum.splits dest!: ws_opens)

lemma start_ws_failed:
  "start_ws H c apis n w = (Some e, n', w') \<Longrightarrow> n' = n \<and> opn w' = opn w \<and> up w' = up w"
  by (auto simp: start_ws_def Let_def split: prod.splits sum.splits dest!: ws_fails)

lemma stop_http_closes:
  assumes "stop_http H n w = (n', w')"
  shows "n' = n\<lparr>nd_httpListener := None, nd_httpHandler := None\<rparr> \<and>
    opn w' = opn w - set_option (nd_httpListener n) \<and> up w' = up w"
  using assms by (auto simp: stop_http_def Let_def close_closes stop_handler_keeps split: option.splits)

lemma stop_ws_closes:
  assumes "stop_ws H n w = (n', w')"
  shows "n' = n\<lparr>nd_wsListener := None, nd_wsHandler := None\<rparr> \<and>
    opn w' = opn w - set_option (nd_wsListener n) \<and> up w' = up w"
  using assms by (auto simp: stop_ws_def Let_def close_closes stop_handler_keeps split: option.splits)

lemma start_rpc_ok:
  assumes "start_rpc H svs n w = (None, n', w')"
  shows "\<exists>l l'. nd_httpListener n' = Some l \<and> nd_wsListener n' = Some l' \<and> l \<noteq> l' \<and>
    l \<notin> opn w \<and> l' \<notin> opn w \<and> opn w' = insert l' (insert l (opn w)) \<and> up w' = up w \<and>
    nd_serviceFuncs n' = nd_serviceFuncs n \<and> nd_wsHandler n' \<noteq> None \<and> nd_conf n' = nd_conf n"
proof -
  obtain order w0 where r: "ho_range H svs w = (order, w0)" by fastforce
  let ?apis = "node_apis @ concat (map (\<lambda>(k, s). ho_apis H s) order)"
  obtain n1 w1 n2 where a: "start_http H (nd_conf n) ?apis n w0 = (None, n1, w1)"
    "start_ws H (nd_conf n1) ?apis n1 w1 = (None, n2, w')" "n' = n2\<lparr>nd_rpcAPIs := ?apis\<rparr>"
    using assms r by (auto simp: start_rpc_def Let_def split: prod.splits option.splits)
  obtain l h where l: "n1 = n\<lparr>nd_httpEndpoint := endpoint_of (cf_httpHost (nd_conf n)) (cf_httpPort (nd_conf n)),
      nd_httpListener := Some l, nd_httpHandler := Some h\<rparr>"
    "l \<notin> opn w0" "opn w1 = insert l (opn w0)" "up w1 = up w0"
    by (rule start_http_ok [OF a(1)])
  obtain l' h' where l': "n2 = n1\<lparr>nd_wsEndpoint := endpoint_of (cf_wsHost (nd_conf n1)) (cf_wsPort (nd_conf n1)),
      nd_wsListener := Some l', nd_wsHandler := Some h'\<rparr>"
    "l' \<notin> opn w1" "opn w' = insert l' (opn w1)" "up w' = up w1"
    by (rule start_ws_ok [OF a(2)])
  from range_once [OF r] l l' a(3) show ?thesis by auto
qed

lemma start_rpc_failed:
  assumes "start_rpc H svs n w = (Some e, n', w')" "nd_httpListener n = None"
  shows "opn w' = opn w \<and> up w' = up w \<and> (\<exists>s h. n' = n\<lparr>nd_httpEndpoint := s, nd_httpHandler := h\<rparr>)"
proof -
  obtain order w0 where r: "ho_range H svs w = (order, w0)" by fastforce
  let ?apis = "node_apis @ concat (map (\<lambda>(k, s). ho_apis H s) order)"
  consider (http) "start_http H (nd_conf n) ?apis n w0 = (Some e, n', w')"
    | (ws) n1 w1 n2 w2 where "start_http H (nd_conf n) ?apis n w0 = (None, n1, w1)"
        "start_ws H (nd_conf n1) ?apis n1 w1 = (Some e, n2, w2)" "stop_http H n2 w2 = (n', w')"
    using assms(1) r by (auto simp: start_rpc_def Let_def split: prod.splits option.splits)
  then show ?thesis
  proof cases
    case http
    from start_http_failed [OF http] range_once [OF r] show ?thesis
      by (auto intro!: exI [of _ "nd_httpEndpoint n"] exI [of _ "nd_httpHandler n"])
  next
    case ws
    obtain l h where l: "n1 = n\<lparr>nd_httpEndpoint := endpoint_of (cf_httpHost (nd_conf n)) (cf_httpPort (nd_conf n)),
        nd_httpListener := Some l, nd_httpHandler := Some h\<rparr>"
      "l \<notin> opn w0" "opn w1 = insert l (opn w0)" "up w1 = up w0"
      by (rule start_http_ok [OF ws(1)])
    from start_ws_failed [OF ws(2)] stop_http_closes [OF ws(3)] l range_once [OF r] assms(2)
    show ?thesis
      by (auto intro!: exI [of _ "nd_httpEndpoint n1"] exI [of _ None])
  qed
qed

lemma node_start_cases:
  assumes "node_start H n w = Ret r (n', w')" "\<not> nd_isRunning n"
  obtains
    (construct) e where "r = Some e" "n' = n" "construct_services H (nd_serviceFuncs n) [] w = Ret (Inl e) w'"
  | (service) e svs w1 order w2 where "r = Some e" "n' = n"
      "construct_services H (nd_serviceFuncs n) [] w = Ret (Inr svs) w1" "ho_range H svs w1 = (order, w2)"
      "start_all H svs order [] w2 = Ret (Some e) w'"
  | (rpc) e svs w1 order w2 w3 where "r = Some e"
      "construct_services H (nd_serviceFuncs n) [] w = Ret (Inr svs) w1" "ho_range H svs w1 = (order, w2)"
      "start_all H svs order [] w2 = Ret None w3" "start_rpc H svs n w3 = (Some e, n', w')"
  | (ok) svs w1 order w2 w3 n1 where "r = None"
      "construct_services H (nd_serviceFuncs n) [] w = Ret (Inr svs) w1" "ho_range H svs w1 = (order, w2)"
      "start_all H svs order [] w2 = Ret None w3" "start_rpc H svs n w3 = (None, n1, w')"
      "n' = n1\<lparr>nd_isRunning := True, nd_services := svs, nd_stopped := False\<rparr>"
proof -
  show thesis
  proof (cases "construct_services H (nd_serviceFuncs n) [] w")
    case (Ret x w1)
    show thesis
    proof (cases x)
      case (Inl e)
      with assms Ret show thesis by (intro construct) (auto simp: node_start_def)
    next
      case (Inr svs)
      obtain order w2 where o: "ho_range H svs w1 = (order, w2)" by fastforce
      show thesis
      proof (cases "start_all H svs order [] w2")
        case sa: (Ret y w3)
        obtain z n1 w4 where z: "start_rpc H svs n w3 = (z, n1, w4)" by (cases "start_rpc H svs n w3")
        show thesis
        proof (cases y)
          case None
          show thesis
          proof (cases z)
            case None
            with assms Ret Inr o sa \<open>y = None\<close> z show thesis
              by (intro ok) (auto simp: node_start_def)
          next
            case (Some e)
            with assms Ret Inr o sa \<open>y = None\<close> z show thesis
              by (intro rpc) (auto simp: node_start_def)
          qed
        next
          case (Some e)
          with assms Ret Inr o sa show thesis by (intro service) (auto simp: node_start_def)
        qed
      qed (use assms Ret Inr o in \<open>simp add: node_start_def\<close>)
    qed
  qed (use assms in \<open>simp add: node_start_def\<close>)
qed

end

end
