(* ===== verification/Node_Admin.thy ===== *)
theory Node_Admin
  imports Node
begin

text \<open>
  What Start and Stop of a node leave behind, the admin API (\<open>node/admin/api.go\<close>), and the runs of a
  node: any sequence of registrations, starts, stops, restarts and admin requests. 
\<close>

section \<open>Start and Stop\<close>

context node_host
begin

lemma constructed:
  assumes "node_inv up opn n w" "construct_services H (nd_serviceFuncs n) [] w = Ret (Inr svs) w1"
  shows "up w1 = up w" "opn w1 = opn w" "distinct (map fst svs)" "snd ` set svs \<inter> up w = {}"
  using construct_services_quiet [OF assms(2), of up opn] assms(1) by (auto simp: node_inv_def)

lemma start_succeeds:
  assumes "node_inv up opn n w" "node_start H n w = Ret None (n', w')"
  shows "node_inv up opn n' w' \<and> nd_isRunning n' \<and> up w' = up w \<union> snd ` set (nd_services n') \<and>
    snd ` set (nd_services n') \<inter> up w = {} \<and> opn w' = opn w \<union> listeners n' \<and>
    listeners n' \<inter> opn w = {} \<and> nd_httpListener n' \<noteq> None \<and> nd_wsListener n' \<noteq> None"
proof -
  have nr: "\<not> nd_isRunning n" using assms(2) by (auto simp: node_start_def)
  from assms(2) nr show ?thesis
  proof (cases rule: node_start_cases)
    case (ok svs w1 order w2 w3 n1)
    note c = constructed [OF assms(1) ok(2)] and r = range_once [OF ok(3)]
      and s = start_all_up [OF ok(4)] and i = assms(1) [unfolded node_inv_def]
    from r have set: "set order = set svs" by (metis mset_eq_setD)
    from start_rpc_ok [OF ok(5)] obtain l l' where l: "nd_httpListener n1 = Some l" "nd_wsListener n1 = Some l'"
      "l \<noteq> l'" "l \<notin> opn w3" "l' \<notin> opn w3" "opn w' = insert l' (insert l (opn w3))" "up w' = up w3"
      "nd_serviceFuncs n1 = nd_serviceFuncs n" by auto
    have o3: "opn w3 = opn w" and u3: "up w3 = up w \<union> snd ` set svs" using s r c set by simp_all
    have ls: "listeners n' = {l, l'}" using l ok(6) by (auto simp: listeners_def)
    have "node_inv up opn n' w'"
      using i l ok(6) c(3) o3 u3 ls by (auto simp: node_inv_def)
    then show ?thesis using ls l o3 u3 c(4) ok(6) by auto
  qed simp_all
qed

text \<open>A failed Start opens nothing; it leaves services up only when an endpoint failed.\<close>

lemma start_fails:
  assumes "node_inv up opn n w" "\<not> nd_isRunning n" "node_start H n w = Ret (Some e) (n', w')"
  shows "node_inv up opn n' w' \<and> \<not> nd_isRunning n' \<and> opn w' = opn w \<and> listeners n' = listeners n \<and>
    (n' = n \<and> up w' = up w \<or>
     (\<exists>svs w1. construct_services H (nd_serviceFuncs n) [] w = Ret (Inr svs) w1 \<and>
        up w' = up w \<union> snd ` set svs \<and> snd ` set svs \<inter> up w = {}))"
  using assms(3,2)
proof (cases rule: node_start_cases)
  case (construct e')
  have "up w' = up w \<and> opn w' = opn w"
    using construct_services_failed [OF construct(3), of up opn] assms(1) by (simp add: node_inv_def)
  with construct assms(1,2) show ?thesis by (auto simp: node_inv_def)
next
  case (service e' svs w1 order w2)
  note c = constructed [OF assms(1) service(3)] and r = range_once [OF service(4)]
  from r have set: "set order = set svs" by (metis mset_eq_setD)
  have "up w' = up w \<and> opn w' = opn w2"
    by (rule start_all_failed [OF service(5)]) (use c r set in auto)
  with r c service(2) assms(1,2) show ?thesis by (auto simp: node_inv_def)
next
  case (rpc e' svs w1 order w2 w3)
  note c = constructed [OF assms(1) rpc(2)] and r = range_once [OF rpc(3)] and s = start_all_up [OF rpc(4)]
  from r have set: "set order = set svs" by (metis mset_eq_setD)
  have nl: "nd_httpListener n = None" using assms(1,2) by (simp add: node_inv_def)
  from start_rpc_failed [OF rpc(5) nl] obtain t h where
    n': "n' = n\<lparr>nd_httpEndpoint := t, nd_httpHandler := h\<rparr>" "opn w' = opn w3" "up w' = up w3" by auto
  have "up w' = up w \<union> snd ` set svs" "opn w' = opn w" using n' s r c set by simp_all
  with n'(1) rpc(2) c(4) assms(1,2) show ?thesis by (auto simp: node_inv_def listeners_def)
qed simp

lemma stop_succeeds:
  assumes "node_inv up opn n w" "nd_isRunning n" "node_stop H n w = Ret r (n', w')"
  shows "node_inv up opn n' w' \<and> \<not> nd_isRunning n' \<and> up w' = up w - snd ` set (nd_services n) \<and>
    opn w' = opn w - listeners n \<and> listeners n' = {}"
proof -
  obtain n1 w1 where a: "stop_ws H n w = (n1, w1)" by fastforce
  obtain n2 w2 where b: "stop_http H n1 w1 = (n2, w2)" by fastforce
  obtain order w3 where c: "ho_range H (nd_services n2) w2 = (order, w3)" by fastforce
  from assms(3) a b c assms(2) obtain fs where d: "stop_all H order [] w3 = Ret fs w'"
    and n': "n' = n2\<lparr>nd_rpcAPIs := [], nd_services := [], nd_isRunning := False, nd_stopped := True\<rparr>"
    by (auto simp: node_stop_def Let_def split: outcome.splits if_splits)
  from range_once [OF c] have set: "set order = set (nd_services n2)" by (metis mset_eq_setD)
  note f = stop_ws_closes [OF a] stop_http_closes [OF b] range_once [OF c] stop_all_down [OF d]
  have "up w' = up w - snd ` set (nd_services n)" "opn w' = opn w - listeners n" "listeners n' = {}"
    using f set n' by (auto simp: listeners_def)
  moreover have "node_inv up opn n' w'" "\<not> nd_isRunning n'"
    using assms(1) f n' by (auto simp: node_inv_def listeners_def)
  ultimately show ?thesis by simp
qed

end

section \<open>The admin API\<close>

text \<open>\<open>StartWS\<close> writes its arguments into \<open>conf.DefaultConfig\<close> itself, the pointer \<open>config\<close> being an alias of it:
  \<open>G\<close> is that global record. A nil argument is \<^const>\<open>None\<close>.\<close>

definition trimmed_parts :: "string \<Rightarrow> string list" where
  "trimmed_parts s = map trim_space (split_on (CHR '','') s)"

definition admin_start_ws ::
  "'w host \<Rightarrow> string option \<Rightarrow> int option \<Rightarrow> string option \<Rightarrow> string option \<Rightarrow> 'v config \<Rightarrow> ('v, 'w) node \<Rightarrow> 'w \<Rightarrow>
    (bool \<times> error option) \<times> 'v config \<times> ('v, 'w) node \<times> 'w" where
  "admin_start_ws H host port allowedOrigins apis G n w =
     (if nd_wsHandler n \<noteq> None
      then ((False, Some (ErrNew (''WebSocket RPC already running on '' @ nd_wsEndpoint n))), G, n, w)
      else let G1 = (case host of None \<Rightarrow> G | Some h \<Rightarrow> G\<lparr>cf_wsHost := h\<rparr>);
               G2 = (case port of None \<Rightarrow> G1 | Some p \<Rightarrow> G1\<lparr>cf_wsPort := p\<rparr>);
               G3 = (case allowedOrigins of None \<Rightarrow> G2 | Some s \<Rightarrow> G2\<lparr>cf_wsOrigins := trimmed_parts s\<rparr>);
               G4 = (case apis of None \<Rightarrow> G3 | Some s \<Rightarrow> G3\<lparr>cf_wsModules := trimmed_parts s\<rparr>)
           in case start_ws H G4 (nd_rpcAPIs n) n w of
                (Some e, n1, w1) \<Rightarrow> ((False, Some e), G4, n1, w1)
              | (None, n1, w1) \<Rightarrow> ((True, None), G4, n1, w1))"

definition admin_stop_ws :: "'w host \<Rightarrow> ('v, 'w) node \<Rightarrow> 'w \<Rightarrow> (bool \<times> error option) \<times> ('v, 'w) node \<times> 'w" where
  "admin_stop_ws H n w =
     (if nd_wsHandler n = None then ((False, Some (ErrNew ''WebSocket RPC not running'')), n, w)
      else let (n1, w1) = stop_ws H n w in ((True, None), n1, w1))"

definition admin_version :: "('v \<Rightarrow> string) \<Rightarrow> ('v, 'w) node \<Rightarrow> string" where
  "admin_version version_string n = node_name n @ '' '' @ node_version version_string n"

record 'v node_info =
  ni_config :: "'v config"
  ni_apis :: "rpc_api list"
  ni_services :: "sref list"
  ni_isRunning :: bool

definition admin_node_info :: "'w host \<Rightarrow> ('v, 'w) node \<Rightarrow> 'w \<Rightarrow> 'v node_info \<times> 'w" where
  "admin_node_info H n w =
     (let (ss, w1) = node_services H n w
      in (\<lparr>ni_config = nd_conf n, ni_apis = nd_rpcAPIs n, ni_services = ss, ni_isRunning = nd_isRunning n\<rparr>, w1))"

section \<open>Runs of a node\<close>

datatype 'w node_op =
    OpRegister "'w ctor"
  | OpStart
  | OpStop
  | OpRestart
  | OpStartWS "string option" "int option" "string option" "string option"
  | OpStopWS

type_synonym ('v, 'w) node_state = "'v config \<times> ('v, 'w) node \<times> 'w"

fun with_config :: "'v config \<Rightarrow> ('v, 'w, 'a) node_action \<Rightarrow> (('v, 'w) node_state, unit) outcome" where
  "with_config G (Ret r (n, w)) = Ret () (G, n, w)"
| "with_config G (Panic p (n, w)) = Panic p (G, n, w)"

fun node_step :: "'w host \<Rightarrow> 'w node_op \<Rightarrow> ('v, 'w) node_state \<Rightarrow> (('v, 'w) node_state, unit) outcome" where
  "node_step H (OpRegister c) (G, n, w) = Ret () (G, snd (node_register c n), w)"
| "node_step H OpStart (G, n, w) = with_config G (node_start H n w)"
| "node_step H OpStop (G, n, w) = with_config G (node_stop H n w)"
| "node_step H OpRestart (G, n, w) = with_config G (node_restart H n w)"
| "node_step H (OpStartWS h p os ap) (G, n, w) = Ret () (snd (admin_start_ws H h p os ap G n w))"
| "node_step H OpStopWS (G, n, w) = Ret () (G, snd (admin_stop_ws H n w))"

fun node_run :: "'w host \<Rightarrow> 'w node_op list \<Rightarrow> ('v, 'w) node_state \<Rightarrow> (('v, 'w) node_state, unit) outcome" where
  "node_run H [] s = Ret () s"
| "node_run H (x # xs) s =
     (case node_step H x s of
        Ret u s' \<Rightarrow> node_run H xs s'
      | Panic p s' \<Rightarrow> Panic p s')"

text \<open>A panic that comes out of a service, or out of one of the constructors \<open>C\<close>.\<close>

definition raised :: "'w host \<Rightarrow> 'w ctor set \<Rightarrow> panic \<Rightarrow> bool" where
  "raised H C p \<longleftrightarrow> (\<exists>s v v'. ho_start H s v = Panic p v' \<or> ho_stop H s v = Panic p v') \<or>
     (\<exists>c \<in> C. \<exists>m v v'. c m v = Panic p v')"

definition op_ok :: "'w ctor set \<Rightarrow> 'w node_op \<Rightarrow> bool" where
  "op_ok C x \<longleftrightarrow> (\<forall>c. x = OpRegister c \<longrightarrow> c \<in> C)"

text \<open>The invariant of runs that register only constructors of \<open>C\<close>.\<close>

definition run_ok ::
  "('w \<Rightarrow> sref set) \<Rightarrow> ('w \<Rightarrow> nat set) \<Rightarrow> 'w ctor set \<Rightarrow> ('v, 'w) node_state \<Rightarrow> bool" where
  "run_ok up opn C s \<longleftrightarrow> (case s of (G, n, w) \<Rightarrow> node_inv up opn n w \<and> set (nd_serviceFuncs n) \<subseteq> C)"

lemma raisedI:
  "ho_start H s v = Panic p v' \<Longrightarrow> raised H C p"
  "ho_stop H s v = Panic p v' \<Longrightarrow> raised H C p"
  "c m v = Panic p v' \<Longrightarrow> c \<in> C \<Longrightarrow> raised H C p"
  unfolding raised_def by blast+

lemma construct_services_raised:
  "construct_services H cs svs w = Panic p w' \<Longrightarrow> set cs \<subseteq> C \<Longrightarrow> raised H C p"
proof (induction cs arbitrary: svs w)
  case (Cons c cs)
  then show ?case
    by (auto split: outcome.splits sum.splits if_splits intro: raisedI(3) [of c])
qed simp

lemma stop_kinds_raised:
  "stop_kinds H svs ks w = Panic p w' \<Longrightarrow> set ks \<subseteq> fst ` set svs \<Longrightarrow> raised H C p"
proof (induction ks arbitrary: w)
  case (Cons k ks)
  then obtain s where s: "map_of svs k = Some s" by (auto simp: map_of_eq_None_iff dest: weak_map_of_SomeI)
  with Cons show ?case by (auto split: outcome.splits intro: raisedI(2))
qed simp

lemma start_all_raised:
  "start_all H svs rest started w = Panic p w' \<Longrightarrow> set rest \<subseteq> set svs \<Longrightarrow> set started \<subseteq> fst ` set svs \<Longrightarrow>
     raised H C p"
proof (induction rest arbitrary: started w)
  case (Cons x rest)
  obtain k s where x: "x = (k, s)" by (cases x)
  have k: "k \<in> fst ` set svs" using Cons.prems(2) x by force
  from Cons.prems(1) x consider
      "ho_start H s w = Panic p w'" | w1 where "stop_kinds H svs started w1 = Panic p w'"
    | w1 where "start_all H svs rest (started @ [k]) w1 = Panic p w'"
    by (auto split: outcome.splits option.splits)
  then show ?case
  proof cases
    case 1
    then show ?thesis by (rule raisedI)
  next
    case 2
    then show ?thesis using Cons.prems(3) by (rule stop_kinds_raised)
  next
    case 3
    then show ?thesis by (rule Cons.IH) (use Cons.prems(2,3) k in auto)
  qed
qed simp

lemma stop_all_raised: "stop_all H rest failed w = Panic p w' \<Longrightarrow> raised H C p"
proof (induction rest arbitrary: failed w)
  case (Cons x rest)
  then show ?case by (cases x) (auto split: outcome.splits option.splits intro: raisedI(2))
qed simp

context node_host
begin

lemma node_start_raised:
  assumes "node_start H n w = Panic p s" "set (nd_serviceFuncs n) \<subseteq> C"
  shows "raised H C p"
proof (cases "construct_services H (nd_serviceFuncs n) [] w")
  case (Ret x w1)
  with assms(1) obtain svs where x: "x = Inr svs" by (cases x) (auto simp: node_start_def split: if_splits)
  obtain order w2 where o: "ho_range H svs w1 = (order, w2)" by fastforce
  from range_once [OF o] have sub: "set order \<subseteq> set svs" by (metis mset_eq_setD order_refl)
  from assms(1) Ret x o obtain w3 where "start_all H svs order [] w2 = Panic p w3"
    by (auto simp: node_start_def split: if_splits outcome.splits option.splits prod.splits)
  from start_all_raised [OF this sub] show ?thesis by simp
next
  case (Panic q w1)
  with assms(1) have "construct_services H (nd_serviceFuncs n) [] w = Panic p w1"
    by (auto simp: node_start_def split: if_splits)
  then show ?thesis using assms(2) by (rule construct_services_raised)
qed

lemma node_stop_raised:
  assumes "node_stop H n w = Panic p s" "node_inv up opn n w"
  shows "raised H C p"
proof -
  obtain n1 w1 where a: "stop_ws H n w = (n1, w1)" by fastforce
  obtain n2 w2 where b: "stop_http H n1 w1 = (n2, w2)" by fastforce
  obtain order w3 where c: "ho_range H (nd_services n2) w2 = (order, w3)" by fastforce
  have run: "nd_isRunning n"
  proof (rule ccontr)
    assume "\<not> nd_isRunning n"
    with assms(1) show False by (simp add: node_stop_def)
  qed
  have "\<not> nd_stopped n2"
    using stop_ws_closes [OF a] stop_http_closes [OF b] assms(2) run by (simp add: node_inv_def)
  with assms(1) run a b c obtain w4 where "stop_all H order [] w3 = Panic p w4"
    by (auto simp: node_stop_def Let_def split: outcome.splits)
  then show ?thesis by (rule stop_all_raised)
qed

lemma node_start_funcs:
  assumes "node_inv up opn n w" "node_start H n w = Ret r (n', w')"
  shows "nd_serviceFuncs n' = nd_serviceFuncs n"
proof (cases "nd_isRunning n")
  case True
  with assms(2) show ?thesis by (simp add: node_start_def)
next
  case False
  with assms(1) have nl: "nd_httpListener n = None" by (simp add: node_inv_def)
  from assms(2) False show ?thesis
  proof (cases rule: node_start_cases)
    case (rpc e svs w1 order w2 w3)
    from start_rpc_failed [OF rpc(5) nl] show ?thesis by auto
  next
    case (ok svs w1 order w2 w3 n1)
    from start_rpc_ok [OF ok(5)] ok(6) show ?thesis by auto
  qed simp_all
qed

lemma node_start_inv:
  assumes "node_inv up opn n w" "node_start H n w = Ret r (n', w')"
  shows "node_inv up opn n' w'"
proof (cases "nd_isRunning n")
  case True
  with assms show ?thesis by (simp add: node_start_def)
next
  case False
  with assms show ?thesis by (cases r) (auto dest: start_succeeds start_fails)
qed

lemma node_stop_inv:
  assumes "node_inv up opn n w" "node_stop H n w = Ret r (n', w')"
  shows "node_inv up opn n' w'"
proof (cases "nd_isRunning n")
  case True
  from stop_succeeds [OF assms(1) True assms(2)] show ?thesis by simp
next
  case False
  with assms show ?thesis by (simp add: node_stop_def)
qed

lemma node_stop_funcs:
  assumes "node_stop H n w = Ret r (n', w')"
  shows "nd_serviceFuncs n' = nd_serviceFuncs n"
  using assms by (auto simp: node_stop_def stop_ws_def stop_http_def Let_def split: if_splits outcome.splits prod.splits)

lemma start_ws_inv:
  assumes "node_inv up opn n w" "start_ws H c apis n w = (r, n', w')"
  shows "node_inv up opn n' w' \<and> nd_serviceFuncs n' = nd_serviceFuncs n"
proof (cases r)
  case None
  with assms(2) start_ws_ok obtain l h where l: "n' = n\<lparr>nd_wsEndpoint := endpoint_of (cf_wsHost c) (cf_wsPort c),
      nd_wsListener := Some l, nd_wsHandler := Some h\<rparr>"
    "l \<notin> opn w" "opn w' = insert l (opn w)" "up w' = up w" by metis
  with assms(1) show ?thesis by (auto simp: node_inv_def listeners_def)
next
  case (Some e)
  with start_ws_failed assms have "n' = n" "opn w' = opn w" "up w' = up w" by blast+
  with assms(1) show ?thesis by (simp add: node_inv_def)
qed

lemma stop_ws_inv:
  assumes "node_inv up opn n w" "stop_ws H n w = (n', w')"
  shows "node_inv up opn n' w' \<and> nd_serviceFuncs n' = nd_serviceFuncs n"
  using stop_ws_closes [OF assms(2)] assms(1) by (auto simp: node_inv_def listeners_def)

lemma with_config_start:
  assumes "run_ok up opn C (G, n, w)"
  shows "case node_start H n w of Ret r (n', w') \<Rightarrow> run_ok up opn C (G, n', w') | Panic p s \<Rightarrow> raised H C p"
proof (cases "node_start H n w")
  case (Ret r s)
  obtain n' w' where s: "s = (n', w')" by (cases s)
  have i: "node_inv up opn n w" "set (nd_serviceFuncs n) \<subseteq> C" using assms by (simp_all add: run_ok_def)
  from node_start_inv [OF i(1) Ret [unfolded s]] node_start_funcs [OF i(1) Ret [unfolded s]] i(2)
  show ?thesis by (simp add: Ret s run_ok_def)
next
  case (Panic p s)
  from node_start_raised [OF Panic] assms show ?thesis by (simp add: Panic run_ok_def)
qed

lemma with_config_stop:
  assumes "run_ok up opn C (G, n, w)"
  shows "case node_stop H n w of Ret r (n', w') \<Rightarrow> run_ok up opn C (G, n', w') | Panic p s \<Rightarrow> raised H C p"
proof (cases "node_stop H n w")
  case (Ret r s)
  obtain n' w' where s: "s = (n', w')" by (cases s)
  have i: "node_inv up opn n w" "set (nd_serviceFuncs n) \<subseteq> C" using assms by (simp_all add: run_ok_def)
  from node_stop_inv [OF i(1) Ret [unfolded s]] node_stop_funcs [OF Ret [unfolded s]] i(2)
  show ?thesis by (simp add: Ret s run_ok_def)
next
  case (Panic p s)
  from node_stop_raised [OF Panic] assms show ?thesis by (simp add: Panic run_ok_def)
qed

lemma with_config_restart:
  assumes "run_ok up opn C (G, n, w)"
  shows "case node_restart H n w of Ret r (n', w') \<Rightarrow> run_ok up opn C (G, n', w') | Panic p s \<Rightarrow> raised H C p"
proof (cases "node_stop H n w")
  case (Ret r s)
  obtain n1 w1 where s: "s = (n1, w1)" by (cases s)
  with with_config_stop [OF assms] Ret have one: "run_ok up opn C (G, n1, w1)" by simp
  show ?thesis
  proof (cases r)
    case None
    with Ret s with_config_start [OF one] show ?thesis
      by (auto simp: node_restart_def split: outcome.splits option.splits)
  qed (use Ret s one in \<open>simp add: node_restart_def\<close>)
next
  case (Panic p s)
  with with_config_stop [OF assms] show ?thesis by (simp add: node_restart_def)
qed

lemma with_config_ok:
  assumes "case a of Ret r (n', w') \<Rightarrow> run_ok up opn C (G, n', w') | Panic p s \<Rightarrow> raised H C p"
  shows "case with_config G a of Ret u s \<Rightarrow> run_ok up opn C s | Panic p s \<Rightarrow> raised H C p"
  using assms by (cases "(G, a)" rule: with_config.cases) auto

lemma admin_start_ws_ok:
  assumes "run_ok up opn C (G, n, w)"
  shows "run_ok up opn C (snd (admin_start_ws H h p os ap G n w))"
proof -
  obtain r G' n' w' where r: "admin_start_ws H h p os ap G n w = (r, G', n', w')"
    by (cases "admin_start_ws H h p os ap G n w") auto
  have "n' = n \<and> w' = w \<or> (\<exists>c e. start_ws H c (nd_rpcAPIs n) n w = (e, n', w'))"
    using r by (auto simp: admin_start_ws_def Let_def split: if_splits prod.splits option.splits)
  then have "run_ok up opn C (G', n', w')"
  proof
    assume "\<exists>c e. start_ws H c (nd_rpcAPIs n) n w = (e, n', w')"
    then obtain c e where "start_ws H c (nd_rpcAPIs n) n w = (e, n', w')" by blast
    from start_ws_inv [OF _ this] assms show ?thesis by (simp add: run_ok_def)
  qed (use assms in \<open>simp add: run_ok_def\<close>)
  with r show ?thesis by simp
qed

lemma admin_stop_ws_ok:
  assumes "run_ok up opn C (G, n, w)"
  shows "run_ok up opn C (G, snd (admin_stop_ws H n w))"
proof -
  obtain r n' w' where r: "admin_stop_ws H n w = (r, n', w')"
    by (cases "admin_stop_ws H n w") auto
  have "n' = n \<and> w' = w \<or> stop_ws H n w = (n', w')"
    using r by (auto simp: admin_stop_ws_def split: if_splits prod.splits)
  then have "run_ok up opn C (G, n', w')"
    using assms stop_ws_inv [of n w n' w'] by (auto simp: run_ok_def)
  with r show ?thesis by simp
qed

lemma node_step_ok:
  assumes "\<forall>c \<in> C. quiet_ctor up opn c" "op_ok C x" "run_ok up opn C s"
  shows "case node_step H x s of Ret u s' \<Rightarrow> run_ok up opn C s' | Panic p s' \<Rightarrow> raised H C p"
proof -
  obtain G n w where s: "s = (G, n, w)" by (cases s)
  note ok = assms(3) [unfolded s]
  show ?thesis
  proof (cases x)
    case (OpRegister c)
    with assms(1,2) ok s show ?thesis
      by (auto simp: node_register_def run_ok_def op_ok_def node_inv_def listeners_def)
  qed (use s with_config_ok [OF with_config_start [OF ok]] with_config_ok [OF with_config_stop [OF ok]]
      with_config_ok [OF with_config_restart [OF ok]] admin_start_ws_ok [OF ok] admin_stop_ws_ok [OF ok] in
      \<open>simp_all del: with_config.simps\<close>)
qed

lemma node_run_ok:
  "\<forall>c \<in> C. quiet_ctor up opn c \<Longrightarrow> \<forall>x \<in> set xs. op_ok C x \<Longrightarrow> run_ok up opn C s \<Longrightarrow>
     case node_run H xs s of Ret u s' \<Rightarrow> run_ok up opn C s' | Panic p s' \<Rightarrow> raised H C p"
proof (induction xs arbitrary: s)
  case (Cons x xs)
  from node_step_ok [OF Cons.prems(1) _ Cons.prems(3), of x] Cons.prems(2)
  have "case node_step H x s of Ret u s' \<Rightarrow> run_ok up opn C s' | Panic p s' \<Rightarrow> raised H C p" by simp
  with Cons.IH Cons.prems show ?case by (cases "node_step H x s") auto
qed simp

end

lemma new_node_inv:
  "new_node H c w = (Inr n, w') \<Longrightarrow> node_inv up opn n w' \<and> nd_serviceFuncs n = []"
  by (auto simp: new_node_def Let_def node_inv_def listeners_def split: sum.splits option.splits prod.splits)

end
