(* ===== verification/Node_Task.thy ===== *)
theory Node_Task
  imports Node_Admin Task_Api
begin

text \<open>
  The program that \<open>main.go\<close> puts together: a node with one service, the task manager. The services
  of the host are managers, numbered in the order of their construction; the RPC server of airfk is the record
  \<open>server_lib\<close>, with its contract as the locale \<open>server_contract\<close>. Any such server, with the model of the
  manager, is a host of a node, so that the facts of \<open>node_host\<close> hold of the whole program.
\<close>

section \<open>Managers as services\<close>

record 'l server_lib =
  sv_http :: "'l endpoint_start"
  sv_ws :: "'l endpoint_start"
  sv_close :: "nat \<Rightarrow> 'l \<Rightarrow> 'l"
  sv_stop_handler :: "nat \<Rightarrow> 'l \<Rightarrow> 'l"
  sv_range :: "services \<Rightarrow> 'l \<Rightarrow> services \<times> 'l"
  sv_abs :: "string \<Rightarrow> error + string"

type_synonym ('w, 'g, 'db, 'l) task_world = "('g, 'db) manager list \<times> 'w \<times> 'l"

definition ManagerKind :: string where "ManagerKind = ''*task.Manager''"

definition manager_apis :: "sref \<Rightarrow> rpc_api list" where
  "manager_apis s =
     [\<lparr>ap_namespace = ''task'', ap_version = ''1.0'', ap_service = PrivateTaskAPI s, ap_public = False\<rparr>,
      \<lparr>ap_namespace = ''task'', ap_version = ''1.0'', ap_service = PublicTaskAPI s, ap_public = True\<rparr>]"

text \<open>The methods of a service work on the manager it refers to.\<close>

fun service_start :: "('w, 'g, 'db) platform \<Rightarrow> string \<Rightarrow> sref \<Rightarrow> ('w, 'g, 'db, 'l) task_world \<Rightarrow>
    (('w, 'g, 'db, 'l) task_world, error option) outcome" where
  "service_start P nodeID s (ms, w, l) =
     (if s < length ms then
        (case manager_start P nodeID (ms ! s) w of
           Panic p (m, w') \<Rightarrow> Panic p (ms[s := m], w', l)
         | Ret r (m, w') \<Rightarrow> Ret r (ms[s := m], w', l))
      else Panic NilDereference (ms, w, l))"

fun service_stop :: "sref \<Rightarrow> ('w, 'g, 'db, 'l) task_world \<Rightarrow>
    (('w, 'g, 'db, 'l) task_world, error option) outcome" where
  "service_stop s (ms, w, l) =
     (if s < length ms then Ret None (ms[s := manager_stop (ms ! s)], w, l)
      else Panic NilDereference (ms, w, l))"

fun on_server :: "('l \<Rightarrow> 'a \<times> 'l) \<Rightarrow> ('w, 'g, 'db, 'l) task_world \<Rightarrow> 'a \<times> ('w, 'g, 'db, 'l) task_world" where
  "on_server f (ms, w, l) = (let (x, l') = f l in (x, ms, w, l'))"

lemma on_server_iff:
  "on_server f x = (y, x') \<longleftrightarrow>
     f (snd (snd x)) = (y, snd (snd x')) \<and> fst x' = fst x \<and> fst (snd x') = fst (snd x)"
  by (cases x; cases x') (auto split: prod.splits)

definition task_host :: "('w, 'g, 'db) platform \<Rightarrow> 'l server_lib \<Rightarrow> string \<Rightarrow> ('w, 'g, 'db, 'l) task_world host" where
  "task_host P S nodeID = \<lparr>
     ho_kind = (\<lambda>s. ManagerKind),
     ho_start = service_start P nodeID,
     ho_stop = service_stop,
     ho_apis = manager_apis,
     ho_range = (\<lambda>xs. on_server (sv_range S xs)),
     ho_http = (\<lambda>e apis ms os. on_server (sv_http S e apis ms os)),
     ho_ws = (\<lambda>e apis ms os. on_server (sv_ws S e apis ms os)),
     ho_close = (\<lambda>i (ms, w, l). (ms, w, sv_close S i l)),
     ho_stop_handler = (\<lambda>i (ms, w, l). (ms, w, sv_stop_handler S i l)),
     ho_abs = (\<lambda>d w. sv_abs S d),
     ho_mkdir_all = (\<lambda>d (ms, w, l). case pf_mkdir_all P d w of (e, w') \<Rightarrow> (e, ms, w', l))\<rparr>"

lemma task_host_fields [simp]:
  "ho_kind (task_host P S nodeID) s = ManagerKind"
  "ho_start (task_host P S nodeID) = service_start P nodeID"
  "ho_stop (task_host P S nodeID) = service_stop"
  "ho_apis (task_host P S nodeID) = manager_apis"
  "ho_range (task_host P S nodeID) xs = on_server (sv_range S xs)"
  "ho_http (task_host P S nodeID) e apis ms os = on_server (sv_http S e apis ms os)"
  "ho_ws (task_host P S nodeID) e apis ms os = on_server (sv_ws S e apis ms os)"
  "ho_close (task_host P S nodeID) i (m, w, l) = (m, w, sv_close S i l)"
  "ho_stop_handler (task_host P S nodeID) i (m, w, l) = (m, w, sv_stop_handler S i l)"
  "ho_abs (task_host P S nodeID) d x = sv_abs S d"
  "ho_mkdir_all (task_host P S nodeID) d (m, w, l) = (case pf_mkdir_all P d w of (e, w') \<Rightarrow> (e, m, w', l))"
  by (simp_all add: task_host_def)

text \<open>The constructor that \<open>main\<close> registers: a new manager on the node's data directory.\<close>

fun task_ctor :: "string \<Rightarrow> (string \<Rightarrow> sref option) \<Rightarrow> ('w, 'g, 'db, 'l) task_world \<Rightarrow>
    (('w, 'g, 'db, 'l) task_world, error + sref) outcome" where
  "task_ctor dataDir ctx (ms, w, l) =
     (case new_manager dataDir of
        Inl p \<Rightarrow> Panic p (ms, w, l)
      | Inr m \<Rightarrow> Ret (Inr (length ms)) (ms @ [m], w, l))"

section \<open>main\<close>

text \<open>From the configuration to the running node; an error of \<open>NewNode\<close> or \<open>Register\<close> ends the process
  (\<open>log.Fatalf\<close>). When \<open>Start\<close> fails the node is stopped and the process goes on.\<close>

definition main_boot :: "('w, 'g, 'db) platform \<Rightarrow> 'l server_lib \<Rightarrow> 'v config \<Rightarrow> 'w \<Rightarrow> 'l \<Rightarrow>
    error + ('v, ('w, 'g, 'db, 'l) task_world, error option) node_action" where
  "main_boot P S c w l =
     (let H = task_host P S (cf_id c)
      in case new_node H c ([], w, l) of
           (Inl e, s) \<Rightarrow> Inl e
         | (Inr stack, s) \<Rightarrow>
             (case node_register (task_ctor (node_data_dir stack)) stack of
                (Some e, stack1) \<Rightarrow> Inl e
              | (None, stack1) \<Rightarrow>
                  Inr (case node_start H stack1 s of
                         Panic p t \<Rightarrow> Panic p t
                       | Ret None t \<Rightarrow> Ret None t
                       | Ret (Some e) (stack2, s2) \<Rightarrow>
                           (case node_stop H stack2 s2 of
                              Panic p t \<Rightarrow> Panic p t
                            | Ret r t \<Rightarrow> Ret (Some e) t))))"

text \<open>After a signal \<open>main\<close> stops the node, once more when that fails.\<close>

definition main_shutdown :: "'w host \<Rightarrow> ('v, 'w) node \<Rightarrow> 'w \<Rightarrow> ('v, 'w, unit) node_action" where
  "main_shutdown H n w =
     (case node_stop H n w of
        Panic p t \<Rightarrow> Panic p t
      | Ret None t \<Rightarrow> Ret () t
      | Ret (Some e) (n1, w1) \<Rightarrow>
          (case node_stop H n1 w1 of
             Panic p t \<Rightarrow> Panic p t
           | Ret r t \<Rightarrow> Ret () t))"

section \<open>The program is a host\<close>

definition running_managers :: "('w, 'g, 'db, 'l) task_world \<Rightarrow> sref set" where
  "running_managers s = {i. i < length (fst s) \<and> mg_isRunning (fst s ! i)}"

definition open_listeners :: "('l \<Rightarrow> nat set) \<Rightarrow> ('w, 'g, 'db, 'l) task_world \<Rightarrow> nat set" where
  "open_listeners opn s = opn (snd (snd s))"

text \<open>The server: a listener that is opened is a new one, a failure opens none.\<close>

locale server_contract =
  fixes S :: "'l server_lib" and opn :: "'l \<Rightarrow> nat set"
  assumes sv_range_once: "sv_range S xs l = (ys, l') \<Longrightarrow> mset ys = mset xs \<and> opn l' = opn l"
    and sv_http_opens: "sv_http S e apis ms os l = (Inr (i, h), l') \<Longrightarrow> i \<notin> opn l \<and> opn l' = insert i (opn l)"
    and sv_http_fails: "sv_http S e apis ms os l = (Inl err, l') \<Longrightarrow> opn l' = opn l"
    and sv_ws_opens: "sv_ws S e apis ms os l = (Inr (i, h), l') \<Longrightarrow> i \<notin> opn l \<and> opn l' = insert i (opn l)"
    and sv_ws_fails: "sv_ws S e apis ms os l = (Inl err, l') \<Longrightarrow> opn l' = opn l"
    and sv_close_closes: "opn (sv_close S i l) = opn l - {i}"
    and sv_stop_handler_keeps: "opn (sv_stop_handler S i l) = opn l"

lemma load_modules_running: "load_modules P m w = Ret r (m', w') \<Longrightarrow> mg_isRunning m' = mg_isRunning m"
  by (auto simp: load_modules_def split: sum.splits)

lemma start_services_running:
  assumes "start_services P m w = Ret r (m', w')"
  shows "mg_isRunning m' = (r = None \<or> mg_isRunning m)"
proof (cases "load_modules P m w")
  case (Ret e s)
  obtain m1 w1 where s: "s = (m1, w1)" by (cases s)
  with load_modules_running Ret have "mg_isRunning m1 = mg_isRunning m" by metis
  with assms Ret s show ?thesis
    by (auto simp: start_services_def files_watcher_def split: option.splits prod.splits if_splits)
qed (use assms in \<open>simp add: start_services_def\<close>)

lemma manager_start_running:
  assumes "manager_start P nodeID m w = Ret r (m', w')"
  shows "mg_isRunning m' = (r = None \<or> mg_isRunning m)"
proof -
  obtain e1 w1 where a: "pf_mkdir_all P (path_join [mg_root m, DefaultPluginDir]) w = (e1, w1)" by force
  obtain e2 w2 where b: "pf_mkdir_all P (path_join [mg_root m, DefaultCmdDir]) w1 = (e2, w2)" by force
  consider "e1 \<noteq> None" | "e1 = None" "e2 \<noteq> None" | "e1 = None" "e2 = None" by blast
  then show ?thesis
  proof cases
    case 3
    with a b assms show ?thesis
      by (auto simp: manager_start_def Let_def split: sum.splits prod.splits option.splits
          dest!: start_services_running open_tables_running)
  qed (use a b assms in \<open>auto simp: manager_start_def Let_def\<close>)
qed

lemma manager_start_worker:
  assumes "manager_start P nodeID m w = Ret None (m', w')"
  shows "\<exists>g. pf_new_worker P (word_of_int (fst (parse_int nodeID))) = Inr g"
  using assms by (auto simp: manager_start_def Let_def split: sum.splits prod.splits option.splits)

lemma running_managers_start:
  assumes "service_start P nodeID s x = Ret r x'"
  shows "running_managers x' = (if r = None then insert s (running_managers x) else running_managers x) \<and>
    snd (snd x') = snd (snd x)"
proof -
  obtain ms w l where x: "x = (ms, w, l)" by (cases x)
  from assms x obtain m w' where s: "s < length ms" "manager_start P nodeID (ms ! s) w = Ret r (m, w')"
    "x' = (ms[s := m], w', l)" by (auto split: outcome.splits if_splits)
  from manager_start_running [OF s(2)] s x show ?thesis
    by (auto simp: running_managers_def nth_list_update)
qed

lemma running_managers_stop:
  "service_stop s x = Ret r x' \<Longrightarrow> r = None \<and> running_managers x' = running_managers x - {s} \<and> snd (snd x') = snd (snd x)"
  by (cases x) (auto simp: running_managers_def manager_stop_def nth_list_update split: if_splits)

lemma task_ctor_quiet: "quiet_ctor running_managers (open_listeners opn) (task_ctor d)"
  by (auto simp: quiet_ctor_def running_managers_def open_listeners_def nth_append new_manager_ok(4)
      split: sum.splits if_splits)

lemma new_manager_exists: "\<exists>m. new_manager d = Inr m"
proof -
  obtain tw where "new_time_wheel defaultInterval 3600 = Inr tw" by (rule fresh_wheel_exists)
  then show ?thesis
    by (simp add: new_manager_def new_manager_with_time_wheel_def MaxChanSize_def
        DefaultInterval_def defaultInterval_def DefaultSlotNum_def second_def)
qed

sublocale server_contract \<subseteq> task: node_host "task_host P S nodeID" running_managers "open_listeners opn"
  for P :: "('w, 'g, 'db) platform" and nodeID
proof
  fix s :: sref and w w' :: "('w, 'g, 'db, 'l) task_world" and e r xs ys es apis ms os i h err
  show "ho_start (task_host P S nodeID) s w = Ret None w' \<Longrightarrow>
      running_managers w' = insert s (running_managers w) \<and> open_listeners opn w' = open_listeners opn w"
    using running_managers_start [of P nodeID s w] by (simp add: open_listeners_def)
  show "ho_start (task_host P S nodeID) s w = Ret (Some e) w' \<Longrightarrow>
      running_managers w' = running_managers w \<and> open_listeners opn w' = open_listeners opn w"
    using running_managers_start [of P nodeID s w] by (simp add: open_listeners_def)
  show "ho_stop (task_host P S nodeID) s w = Ret r w' \<Longrightarrow>
      running_managers w' = running_managers w - {s} \<and> open_listeners opn w' = open_listeners opn w"
    using running_managers_stop [of s w] by (simp add: open_listeners_def)
  show "ho_range (task_host P S nodeID) xs w = (ys, w') \<Longrightarrow>
      mset ys = mset xs \<and> running_managers w' = running_managers w \<and> open_listeners opn w' = open_listeners opn w"
    unfolding task_host_fields on_server_iff open_listeners_def running_managers_def using sv_range_once by auto
  show "ho_http (task_host P S nodeID) es apis ms os w = (Inr (i, h), w') \<Longrightarrow>
      i \<notin> open_listeners opn w \<and> open_listeners opn w' = insert i (open_listeners opn w) \<and>
      running_managers w' = running_managers w"
    unfolding task_host_fields on_server_iff open_listeners_def running_managers_def using sv_http_opens by auto
  show "ho_http (task_host P S nodeID) es apis ms os w = (Inl err, w') \<Longrightarrow>
      open_listeners opn w' = open_listeners opn w \<and> running_managers w' = running_managers w"
    unfolding task_host_fields on_server_iff open_listeners_def running_managers_def using sv_http_fails by auto
  show "ho_ws (task_host P S nodeID) es apis ms os w = (Inr (i, h), w') \<Longrightarrow>
      i \<notin> open_listeners opn w \<and> open_listeners opn w' = insert i (open_listeners opn w) \<and>
      running_managers w' = running_managers w"
    unfolding task_host_fields on_server_iff open_listeners_def running_managers_def using sv_ws_opens by auto
  show "ho_ws (task_host P S nodeID) es apis ms os w = (Inl err, w') \<Longrightarrow>
      open_listeners opn w' = open_listeners opn w \<and> running_managers w' = running_managers w"
    unfolding task_host_fields on_server_iff open_listeners_def running_managers_def using sv_ws_fails by auto
  show "open_listeners opn (ho_close (task_host P S nodeID) i w) = open_listeners opn w - {i} \<and>
      running_managers (ho_close (task_host P S nodeID) i w) = running_managers w"
    by (cases w) (simp add: open_listeners_def running_managers_def sv_close_closes)
  show "open_listeners opn (ho_stop_handler (task_host P S nodeID) i w) = open_listeners opn w \<and>
      running_managers (ho_stop_handler (task_host P S nodeID) i w) = running_managers w"
    by (cases w) (simp add: open_listeners_def running_managers_def sv_stop_handler_keeps)
qed

section \<open>A sample server\<close>

text \<open>The world is the list of the open listeners.\<close>

definition sample_listen :: "nat list endpoint_start" where
  "sample_listen e apis ms os l = (let i = Suc (sum_list l) in (Inr (i, i), i # l))"

definition sample_server :: "nat list server_lib" where
  "sample_server = \<lparr>sv_http = sample_listen, sv_ws = sample_listen,
     sv_close = (\<lambda>i l. filter (\<lambda>j. j \<noteq> i) l), sv_stop_handler = (\<lambda>h l. l),
     sv_range = (\<lambda>xs l. (xs, l)), sv_abs = (\<lambda>d. Inr d)\<rparr>"

lemma sample_server_fields [simp]:
  "sv_http sample_server = sample_listen" "sv_ws sample_server = sample_listen"
  "sv_close sample_server i l = filter (\<lambda>j. j \<noteq> i) l" "sv_stop_handler sample_server h l = l"
  "sv_range sample_server xs l = (xs, l)" "sv_abs sample_server d = Inr d"
  by (simp_all add: sample_server_def)

lemma sample_listen_new: "Suc (sum_list l) \<notin> set l"
proof
  assume "Suc (sum_list l) \<in> set l"
  from member_le_sum_list [OF this] show False by simp
qed

lemma sample_server_ok: "server_contract sample_server set"
proof
  fix e apis ms os l i h l' err xs ys
  show "sv_range sample_server xs l = (ys, l') \<Longrightarrow> mset ys = mset xs \<and> set l' = set l" by simp
  show "sv_http sample_server e apis ms os l = (Inr (i, h), l') \<Longrightarrow> i \<notin> set l \<and> set l' = insert i (set l)"
    "sv_ws sample_server e apis ms os l = (Inr (i, h), l') \<Longrightarrow> i \<notin> set l \<and> set l' = insert i (set l)"
    using sample_listen_new [of l] by (auto simp: sample_listen_def Let_def)
  show "sv_http sample_server e apis ms os l = (Inl err, l') \<Longrightarrow> set l' = set l"
    "sv_ws sample_server e apis ms os l = (Inl err, l') \<Longrightarrow> set l' = set l"
    by (simp_all add: sample_listen_def Let_def)
  show "set (sv_close sample_server i l) = set l - {i}" by auto
  show "set (sv_stop_handler sample_server i l) = set l" by simp
qed

interpretation sample_host: server_contract sample_server set
  by (rule sample_server_ok)

text \<open>The program on it, started from the default configuration.\<close>

definition sample_conf :: "string config" where
  "sample_conf = (default_config (\<lambda>v. v))\<lparr>cf_dataDir := ''/data''\<rparr>"

section \<open>Boot and shutdown\<close>

lemma new_node_fields:
  "new_node H c w = (Inr n, w') \<Longrightarrow> nd_serviceFuncs n = [] \<and> \<not> nd_isRunning n \<and> listeners n = {} \<and>
     cf_id (nd_conf n) = cf_id c"
  by (auto simp: new_node_def Let_def listeners_def split: sum.splits option.splits prod.splits)

lemma new_node_world:
  "new_node (task_host P S nodeID) c (ms, w, l) = (r, s) \<Longrightarrow> fst s = ms \<and> snd (snd s) = l"
  by (auto simp: new_node_def Let_def split: sum.splits option.splits prod.splits if_splits)

lemma construct_one_task:
  assumes "new_manager d = Inr m"
  shows "construct_services (task_host P S nodeID) [task_ctor d] [] (ms, w, l) =
    Ret (Inr [(ManagerKind, length ms)]) (ms @ [m], w, l)"
  using assms by simp

lemma mset_single: "mset xs = {#a#} \<Longrightarrow> xs = [a]"
  by (cases xs; cases "tl xs") auto

lemma on_server_managers:
  "on_server f (ms, w, l) = (y, s) \<longleftrightarrow> (\<exists>l'. f l = (y, l') \<and> s = (ms, w, l'))"
  by (auto split: prod.splits)

lemma start_http_task:
  "start_http (task_host P S nodeID) c apis n (ms, w, l) = (r, n', s) \<Longrightarrow> \<exists>l'. s = (ms, w, l')"
  by (auto simp: start_http_def Let_def split: prod.splits sum.splits if_splits)

lemma start_ws_task:
  "start_ws (task_host P S nodeID) c apis n (ms, w, l) = (r, n', s) \<Longrightarrow> \<exists>l'. s = (ms, w, l')"
  by (auto simp: start_ws_def Let_def split: prod.splits sum.splits if_splits)

lemma stop_http_task: "stop_http (task_host P S nodeID) n (ms, w, l) = (n', s) \<Longrightarrow> \<exists>l'. s = (ms, w, l')"
  by (auto simp: stop_http_def Let_def split: option.splits)

lemma stop_ws_task: "stop_ws (task_host P S nodeID) n (ms, w, l) = (n', s) \<Longrightarrow> \<exists>l'. s = (ms, w, l')"
  by (auto simp: stop_ws_def Let_def split: option.splits)

context server_contract
begin

lemma task_host_ok: "node_host (task_host P S nodeID) running_managers (open_listeners opn)"
  by (rule task.node_host_axioms)

lemma range_single:
  assumes "ho_range (task_host P S nodeID) [x] (ms, w, l) = (order, s)"
  obtains l' where "order = [x]" "s = (ms, w, l')" "opn l' = opn l"
proof -
  from assms obtain l' where "sv_range S [x] l = (order, l')" "s = (ms, w, l')"
    by (auto simp: on_server_managers simp del: on_server.simps)
  with sv_range_once that show thesis by (force dest: mset_single)
qed

lemma start_rpc_task:
  assumes "start_rpc (task_host P S nodeID) [(k, i)] n (ms, w, l) = (None, n', s)"
  shows "(\<exists>l'. s = (ms, w, l')) \<and> nd_rpcAPIs n' = node_apis @ manager_apis i"
proof -
  obtain order s0 where r: "ho_range (task_host P S nodeID) [(k, i)] (ms, w, l) = (order, s0)"
    by (cases "ho_range (task_host P S nodeID) [(k, i)] (ms, w, l)")
  obtain l0 where o: "order = [(k, i)]" "s0 = (ms, w, l0)" "opn l0 = opn l" by (rule range_single [OF r])
  let ?apis = "node_apis @ manager_apis i"
  obtain e1 n1 s1 where h: "start_http (task_host P S nodeID) (nd_conf n) ?apis n (ms, w, l0) = (e1, n1, s1)"
    by (cases "start_http (task_host P S nodeID) (nd_conf n) ?apis n (ms, w, l0)") auto
  from start_http_task [OF h] obtain l1 where s1: "s1 = (ms, w, l1)" by auto
  obtain e2 n2 s2 where g: "start_ws (task_host P S nodeID) (nd_conf n1) ?apis n1 (ms, w, l1) = (e2, n2, s2)"
    by (cases "start_ws (task_host P S nodeID) (nd_conf n1) ?apis n1 (ms, w, l1)") auto
  from start_ws_task [OF g] obtain l2 where s2: "s2 = (ms, w, l2)" by auto
  show ?thesis
    using assms r o h g s1 s2
    by (cases e1; cases e2) (auto simp: start_rpc_def Let_def split: prod.splits)
qed

lemma main_boot_start:
  assumes "main_boot P S c w l = Inr (Ret None (n, ms, w', l'))"
  obtains n0 w0 where "node_inv running_managers (open_listeners opn) n0 ([], w0, l)"
    "listeners n0 = {}" "nd_serviceFuncs n0 = [task_ctor (node_data_dir n0)]"
    "node_start (task_host P S (cf_id c)) n0 ([], w0, l) = Ret None (n, ms, w', l')"
proof -
  obtain r s where new: "new_node (task_host P S (cf_id c)) c ([], w, l) = (r, s)"
    by (cases "new_node (task_host P S (cf_id c)) c ([], w, l)")
  from assms new obtain stack where r: "r = Inr stack"
    by (cases r) (auto simp: main_boot_def)
  obtain w0 where s: "s = ([], w0, l)" using new_node_world [OF new] by (cases s) auto
  note f = new_node_fields [OF new [unfolded r]]
  define n0 where "n0 = stack\<lparr>nd_serviceFuncs := [task_ctor (node_data_dir stack)]\<rparr>"
  have reg: "node_register (task_ctor (node_data_dir stack)) stack = (None, n0)"
    using f by (simp add: node_register_def n0_def)
  have start: "node_start (task_host P S (cf_id c)) n0 ([], w0, l) = Ret None (n, ms, w', l')"
    using assms new r s reg by (auto simp: main_boot_def Let_def split: outcome.splits option.splits)
  have "node_inv running_managers (open_listeners opn) n0 ([], w0, l)"
    using new_node_inv [OF new [unfolded r s], of running_managers "open_listeners opn"] task_ctor_quiet
    by (auto simp: node_inv_def n0_def listeners_def)
  moreover have "listeners n0 = {}" "nd_serviceFuncs n0 = [task_ctor (node_data_dir n0)]"
    using f by (simp_all add: n0_def listeners_def node_data_dir_def)
  ultimately show thesis using start that by blast
qed

lemma node_start_task:
  fixes P :: "('w, 'g, 'db) platform"
  assumes "node_start (task_host P S nodeID) n0 ([], w0, l) = Ret None (n, ms, w', l')"
    and "nd_serviceFuncs n0 = [task_ctor d]"
  obtains m0 m w1 where "new_manager d = Inr m0" "manager_start P nodeID m0 w0 = Ret None (m, w')"
    "ms = [m]" "nd_services n = [(ManagerKind, 0)]" "nd_rpcAPIs n = node_apis @ manager_apis 0"
    "nd_conf n = nd_conf n0"
proof -
  obtain m0 :: "('g, 'db) manager" where m0: "new_manager d = Inr m0" using new_manager_exists by blast
  have nr: "\<not> nd_isRunning n0" using assms(1) by (auto simp: node_start_def)
  from assms(1) nr show thesis
  proof (cases rule: task.node_start_cases)
    case (ok svs s1 order s2 s3 n1)
    from ok(2) construct_one_task [OF m0, of P S nodeID "[]" w0 l] assms(2)
    have c: "svs = [(ManagerKind, 0)]" "s1 = ([m0], w0, l)" by simp_all
    obtain l2 where o: "order = [(ManagerKind, 0)]" "s2 = ([m0], w0, l2)"
      using range_single [OF ok(3) [unfolded c]] by auto
    from ok(4) o obtain m w1 where m: "manager_start P nodeID m0 w0 = Ret None (m, w1)" "s3 = ([m], w1, l2)"
      by (auto split: outcome.splits option.splits)
    have "ms = [m]" "w' = w1" "nd_services n = [(ManagerKind, 0)]" "nd_rpcAPIs n = node_apis @ manager_apis 0"
      "nd_conf n = nd_conf n0"
      using c start_rpc_task [OF ok(5) [unfolded c m(2)]] task.start_rpc_ok [OF ok(5)] ok(6) by auto
    with m0 m(1) that show thesis by blast
  qed simp_all
qed

lemma shutdown_task:
  assumes "nd_isRunning n" "\<not> nd_stopped n" "nd_services n = [(k, 0)]"
  obtains n2 l2 where "main_shutdown (task_host P S nodeID) n ([m], w, l) = Ret () (n2, [manager_stop m], w, l2)"
    "node_stop (task_host P S nodeID) n ([m], w, l) = Ret None (n2, [manager_stop m], w, l2)"
proof -
  let ?H = "task_host P S nodeID"
  obtain n1 l1 where a: "stop_ws ?H n ([m], w, l) = (n1, [m], w, l1)" using stop_ws_task by (metis surj_pair)
  obtain n2 l2 where b: "stop_http ?H n1 ([m], w, l1) = (n2, [m], w, l2)" using stop_http_task by (metis surj_pair)
  have f: "nd_services n2 = [(k, 0)]" "\<not> nd_stopped n2"
    using task.stop_ws_closes [OF a] task.stop_http_closes [OF b] assms by simp_all
  obtain order s where c: "ho_range ?H (nd_services n2) ([m], w, l2) = (order, s)"
    by (cases "ho_range ?H (nd_services n2) ([m], w, l2)")
  obtain l3 where o: "order = [(k, 0)]" "s = ([m], w, l3)" using range_single [OF c [unfolded f]] by auto
  have "\<exists>n3. node_stop ?H n ([m], w, l) = Ret None (n3, [manager_stop m], w, l3)"
    using assms a b c o f by (simp add: node_stop_def Let_def)
  then show thesis using that by (auto simp: main_shutdown_def)
qed

end

section \<open>Properties\<close>

lemma start_all_fails_at:
  "start_all H svs rest started w = Ret (Some e) w' \<Longrightarrow> \<exists>s \<in> snd ` set rest. \<exists>v v'. ho_start H s v = Ret (Some e) v'"
proof (induction rest arbitrary: started w)
  case (Cons x rest)
  then show ?case by (cases x) (auto split: outcome.splits option.splits)
qed simp

text \<open>C5: When \<open>main\<close> boots without an error, one manager runs on the data directory of the node, in a state that
  satisfies the invariant of the running system; the node finds it by its type, offers the admin and the task API, and
  has opened exactly two listeners. The shutdown of \<open>main\<close> then stops this manager, and closes exactly these two listeners (the databases stay open).\<close>

theorem main_runs_the_manager:
  assumes "server_contract S opn" "main_boot P S c w l = Inr (Ret None (n, ms, w', l'))"
  shows "\<exists>m m0 w0. ms = [m] \<and> new_manager (node_data_dir n) = Inr m0 \<and>
    manager_start P (cf_id c) m0 w0 = Ret None (m, w') \<and> mg_isRunning m \<and> manager_inv P v issued m \<and>
    nd_isRunning n \<and> node_service ManagerKind n = Inr 0 \<and> nd_rpcAPIs n = node_apis @ manager_apis 0 \<and>
    opn l' = opn l \<union> listeners n \<and> listeners n \<inter> opn l = {} \<and> card (listeners n) = 2 \<and>
    (\<exists>n2 l2. main_shutdown (task_host P S (cf_id c)) n (ms, w', l') = Ret () (n2, [manager_stop m], w', l2) \<and>
       \<not> nd_isRunning n2 \<and> opn l2 = opn l)"
proof -
  obtain n0 w0 where b: "node_inv running_managers (open_listeners opn) n0 ([], w0, l)"
    "listeners n0 = {}" "nd_serviceFuncs n0 = [task_ctor (node_data_dir n0)]"
    "node_start (task_host P S (cf_id c)) n0 ([], w0, l) = Ret None (n, ms, w', l')"
    by (rule server_contract.main_boot_start [OF assms])
  obtain m0 m where m: "new_manager (node_data_dir n0) = Inr m0" "manager_start P (cf_id c) m0 w0 = Ret None (m, w')"
    "ms = [m]" "nd_services n = [(ManagerKind, 0)]" "nd_rpcAPIs n = node_apis @ manager_apis 0"
    "nd_conf n = nd_conf n0"
    by (rule server_contract.node_start_task [OF assms(1) b(4,3)])
  note s = node_host.start_succeeds [OF server_contract.task_host_ok [OF assms(1)] b(1,4)]
  then have run: "nd_isRunning n" "\<not> nd_stopped n" by (simp_all add: node_inv_def)
  obtain n2 l2 where d: "main_shutdown (task_host P S (cf_id c)) n ([m], w', l') = Ret () (n2, [manager_stop m], w', l2)"
    "node_stop (task_host P S (cf_id c)) n ([m], w', l') = Ret None (n2, [manager_stop m], w', l2)"
    by (rule server_contract.shutdown_task [OF assms(1) run m(4)])
  note t = node_host.stop_succeeds [OF server_contract.task_host_ok [OF assms(1)] conjunct1 [OF s] run(1) d(2) [folded m(3)]]
  have conf: "node_data_dir n = node_data_dir n0" using m(6) by (simp add: node_data_dir_def)
  have card: "card (listeners n) = 2"
    using s run by (auto simp: node_inv_def listeners_def card_insert_if)
  have "opn l2 = opn l" using s t m(3) by (auto simp: open_listeners_def)
  then show ?thesis using m s d run t start_inv [OF m(1,2)] manager_start_running [OF m(2)] conf card
    by (auto simp: node_service_def open_listeners_def)
qed

text \<open>C25: Stopping a node undoes its start. After a successful Start the services of the node are up and exactly
  its two listeners were opened; after the Stop that follows, with or without errors of the services, what is
  up and what is open is as it was before, and no service is found any more.\<close>

theorem node_start_stop_cycle:
  assumes "node_host H up opn" "node_inv up opn n w" "node_start H n w = Ret None (n1, w1)"
    and "node_stop H n1 w1 = Ret r (n2, w2)"
  shows "nd_isRunning n1 \<and> up w1 = up w \<union> snd ` set (nd_services n1) \<and> opn w1 = opn w \<union> listeners n1 \<and>
    card (listeners n1) = 2 \<and> \<not> nd_isRunning n2 \<and> up w2 = up w \<and> opn w2 = opn w \<and> listeners n2 = {} \<and>
    node_service kind n2 = Inl ErrNodeStopped"
proof -
  note s = node_host.start_succeeds [OF assms(1-3)]
  have "card (listeners n1) = 2" using s by (auto simp: node_inv_def listeners_def card_insert_if)
  with s node_host.stop_succeeds [OF assms(1) _ _ assms(4)] show ?thesis
    by (auto simp: node_service_def)
qed

text \<open>A service that fails to start takes the others down again: Start returns its error, the node is
  unchanged, and nothing that was not up or open before is up or open.\<close>

theorem failed_service_start_cleans_up:
  assumes "node_host H up opn" "node_inv up opn n w" "\<not> nd_isRunning n"
    and "construct_services H (nd_serviceFuncs n) [] w = Ret (Inr svs) w1" "ho_range H svs w1 = (order, w2)"
    and "start_all H svs order [] w2 = Ret (Some e) w3"
  shows "node_start H n w = Ret (Some e) (n, w3) \<and> up w3 = up w \<and> opn w3 = opn w \<and>
    (\<exists>s \<in> snd ` set svs. \<exists>v v'. ho_start H s v = Ret (Some e) v')"
proof -
  have set: "set order = set svs" using node_host.range_once [OF assms(1,5)] by (metis mset_eq_setD)
  have c: "up w1 = up w" "opn w1 = opn w" "distinct (map fst svs)" "snd ` set svs \<inter> up w = {}"
    using node_host.constructed [OF assms(1,2,4)] .
  have "up w3 = up w \<and> opn w3 = opn w2"
    by (rule service_life.start_all_failed [OF node_host.axioms(1) [OF assms(1)] assms(6)])
      (use set c node_host.range_once [OF assms(1,5)] in auto)
  with start_all_fails_at [OF assms(6)] set c node_host.range_once [OF assms(1,5)] assms(3-6) show ?thesis
    by (simp add: node_start_def)
qed

text \<open>A failing endpoint leaks the services: when all services have started and Start then fails, because an
  address cannot be opened, the services stay up although the node does not run, and Stop refuses to take
  them down.\<close>

theorem failed_endpoint_leaves_services_up:
  assumes "node_host H up opn" "node_inv up opn n w" "\<not> nd_isRunning n"
    and "construct_services H (nd_serviceFuncs n) [] w = Ret (Inr svs) w1" "ho_range H svs w1 = (order, w2)"
    and "start_all H svs order [] w2 = Ret None w3" "node_start H n w = Ret (Some e) (n', w')"
  shows "\<not> nd_isRunning n' \<and> up w' = up w \<union> snd ` set svs \<and> snd ` set svs \<inter> up w = {} \<and> opn w' = opn w \<and>
    node_stop H n' w' = Ret (Some (Plain ErrNodeStopped)) (n', w')"
proof -
  have set: "set order = set svs" using node_host.range_once [OF assms(1,5)] by (metis mset_eq_setD)
  have c: "up w1 = up w" "opn w1 = opn w" "snd ` set svs \<inter> up w = {}"
    using node_host.constructed [OF assms(1,2,4)] by simp_all
  have "up w3 = up w \<union> snd ` set svs"
    using service_life.start_all_up [OF node_host.axioms(1) [OF assms(1)] assms(6)] set c
      node_host.range_once [OF assms(1,5)] by simp
  moreover have rpc: "start_rpc H svs n w3 = (Some e, n', w')"
    using assms(3-7) by (auto simp: node_start_def split: option.splits prod.splits)
  ultimately have "up w' = up w \<union> snd ` set svs"
    using node_host.start_rpc_failed [OF assms(1) rpc] assms(2,3) by (simp add: node_inv_def)
  with node_host.start_fails [OF assms(1-3,7)] c show ?thesis by (simp add: node_stop_def)
qed

text \<open>C33: The node itself never panics. In any sequence of registrations, starts, stops, restarts and
  admin requests on a new node, every panic was raised by a service or by a constructor: in particular
  the channel \<open>stop\<close> is never closed twice. A run without one keeps the invariant: a node that runs has its services up.\<close>

theorem node_panics_come_from_services:
  assumes "node_host H up opn" "new_node H c w = (Inr n, w')"
    and "\<forall>k. OpRegister k \<in> set ops \<longrightarrow> quiet_ctor up opn k"
  shows "case node_run H ops (G, n, w') of
      Ret u (G', n', w'') \<Rightarrow> node_inv up opn n' w'' \<and> (nd_isRunning n' \<longrightarrow> snd ` set (nd_services n') \<subseteq> up w'')
    | Panic p s \<Rightarrow> raised H {k. OpRegister k \<in> set ops} p"
proof -
  let ?C = "{k. OpRegister k \<in> set ops}"
  have "run_ok up opn ?C (G, n, w')"
    using new_node_inv [OF assms(2)] by (simp add: run_ok_def)
  moreover have "\<forall>x \<in> set ops. op_ok ?C x" by (auto simp: op_ok_def)
  ultimately have "case node_run H ops (G, n, w') of Ret u s \<Rightarrow> run_ok up opn ?C s | Panic p s \<Rightarrow> raised H ?C p"
    using assms(3) by (intro node_host.node_run_ok [OF assms(1)]) simp_all
  moreover have "node_inv up opn n' v \<Longrightarrow> nd_isRunning n' \<Longrightarrow> snd ` set (nd_services n') \<subseteq> up v"
    for n' :: "('b, 'a) node" and v by (simp add: node_inv_def)
  ultimately show ?thesis
    by (cases "node_run H ops (G, n, w')") (auto simp: run_ok_def)
qed

text \<open>A request to start the websocket endpoint changes the global default configuration: even after the endpoint
  was stopped, or was never opened, the next request, which names no address, opens the address of
  the one before.\<close>

theorem admin_start_ws_leaks_config:
  assumes "nd_wsHandler n = None" "admin_start_ws H (Some h) (Some p) os ap G n w = (r, G', n', w')"
    and "admin_start_ws H None None None None G' m v = ((True, None), G'', m', v')"
  shows "cf_wsHost G' = h \<and> cf_wsPort G' = p \<and> nd_conf n' = nd_conf n \<and> nd_wsEndpoint m' = endpoint_of h p"
  using assms
  by (auto simp: admin_start_ws_def start_ws_def Let_def split: if_splits option.splits prod.splits sum.splits)

text \<open>The identifier of the node never reaches the manager. On a node made from the default
  configuration, as \<open>main\<close> makes it, the manager starts as worker 0, whatever the variable \<open>NODEID\<close> says; \<open>GetNodeId\<close>
  would return that variable.\<close>

theorem worker_is_always_zero:
  assumes "new_node H (default_config newVersion) w = (Inr n, w')"
  shows "manager_start P (node_id n) m v = manager_start P ''0'' m v \<and>
    (env_get E NodeIdVar \<noteq> [] \<longrightarrow> fst (get_node_id E (nd_conf n)) = env_get E NodeIdVar)"
proof -
  have id: "node_id n = []" "cf_id (nd_conf n) = []"
    using new_node_fields [OF assms] by (simp_all add: node_id_def default_config_def)
  have "fst (parse_int []) = fst (parse_int ''0'')"
    by (simp add: parse_int_def is_digit_def read_nat_def digit_val_def int64_min_def int64_max_def)
  then have "manager_start P [] m v = manager_start P ''0'' m v" by (simp only: manager_start_def)
  with id show ?thesis by (simp add: get_node_id_def derived_id_def Let_def)
qed

section \<open>Witnesses\<close>

lemma sample_manager_started:
  obtains m0 m w where "new_manager ''/data'' = Inr m0"
    "\<forall>nodeID. manager_start sample_platform nodeID m0 (0, Map.empty) = Ret None (m, w)"
proof -
  obtain m0 m w where s: "new_manager ''/data'' = Inr m0"
    "manager_start sample_platform ''7'' m0 (0, Map.empty) = Ret None (m, w)" by (rule sample_started)
  have "manager_start sample_platform nodeID m0 v = manager_start sample_platform ''7'' m0 v" for nodeID v
    by (simp add: manager_start_def)
  with s that show thesis by metis
qed

lemma sample_boot:
  "\<exists>n m w l. main_boot sample_platform sample_server sample_conf (0, Map.empty) [] =
     Inr (Ret None (n, [m], w, l))"
proof -
  obtain m0 m w where s: "new_manager ''/data'' = Inr m0"
    "\<forall>nodeID. manager_start sample_platform nodeID m0 (0, Map.empty) = Ret None (m, w)"
    by (rule sample_manager_started)
  show ?thesis
    by (simp add: main_boot_def sample_conf_def default_config_def new_node_def Let_def node_register_def
        node_start_def node_data_dir_def s start_rpc_def start_http_def start_ws_def sample_listen_def)
qed

theorem main_runs_the_manager_witness:
  "\<exists>n m w l l2 n2. main_boot sample_platform sample_server sample_conf (0, Map.empty) [] =
     Inr (Ret None (n, [m], w, l)) \<and> manager_inv sample_platform (\<lambda>d. d) sample_issued m \<and>
     main_shutdown (task_host sample_platform sample_server []) n ([m], w, l) = Ret () (n2, [manager_stop m], w, l2) \<and>
     set l2 = {}"
proof -
  obtain n m w l where b: "main_boot sample_platform sample_server sample_conf (0, Map.empty) [] =
     Inr (Ret None (n, [m], w, l))" using sample_boot by blast
  from main_runs_the_manager [OF sample_server_ok b, of "\<lambda>d. d" sample_issued] b show ?thesis
    by (fastforce simp: sample_conf_def default_config_def)
qed

text \<open>The node that \<open>main\<close> starts, with the constructor registered.\<close>

definition sample_node :: "(string, ('w, 'g, 'db, 'l) task_world) node" where
  "sample_node = \<lparr>nd_serviceFuncs = [task_ctor ''/data''], nd_services = [], nd_isRunning = False, nd_rpcAPIs = [],
     nd_conf = sample_conf, nd_httpEndpoint = [], nd_httpListener = None, nd_httpHandler = None,
     nd_wsEndpoint = [], nd_wsListener = None, nd_wsHandler = None, nd_stopped = False\<rparr>"

lemma no_managers: "running_managers ([], v) = {}"
  by (simp add: running_managers_def)

lemma sample_node_inv: "node_inv running_managers (open_listeners set) sample_node w"
  using task_ctor_quiet by (auto simp: node_inv_def sample_node_def listeners_def)

lemma sample_task_host: "node_host (task_host P sample_server nodeID) running_managers (open_listeners set)"
  by (rule server_contract.task_host_ok [OF sample_server_ok])

lemma sample_node_stopped: "\<not> nd_isRunning sample_node" "nd_wsHandler sample_node = None"
  by (simp_all add: sample_node_def)

theorem node_start_stop_cycle_witness:
  "\<exists>(n1 :: (string, (sample_world, nat, bytes \<Rightarrow> bytes option, nat list) task_world) node) w1 r n2 w2.
     node_start (task_host sample_platform sample_server []) sample_node ([], (0, Map.empty), []) = Ret None (n1, w1) \<and>
     node_stop (task_host sample_platform sample_server []) n1 w1 = Ret r (n2, w2) \<and> nd_isRunning n1 \<and>
     card (listeners n1) = 2 \<and> running_managers w2 = {} \<and> snd (snd w2) = []"
proof -
  let ?H = "task_host sample_platform sample_server []"
  obtain m0 m w where s: "new_manager ''/data'' = Inr m0"
    "\<forall>nodeID. manager_start sample_platform nodeID m0 (0, Map.empty) = Ret None (m, w)"
    by (rule sample_manager_started)
  have "\<exists>n1 l1. node_start ?H (sample_node :: (string, (sample_world, nat, bytes \<Rightarrow> bytes option, nat list) task_world) node)
      ([], (0, Map.empty), []) = Ret None (n1, [m], w, l1)"
    by (simp add: sample_node_def node_start_def s start_rpc_def start_http_def start_ws_def sample_listen_def Let_def)
  then obtain n1 l1 where a: "node_start ?H sample_node ([], (0, Map.empty), []) = Ret None (n1, [m], w, l1)"
    by blast
  have sv: "nd_services n1 = [(ManagerKind, 0)]"
    by (rule server_contract.node_start_task [OF sample_server_ok a]) (simp_all add: sample_node_def)
  note i = node_host.start_succeeds [OF sample_task_host sample_node_inv a]
  obtain n2 l2 where b: "node_stop ?H n1 ([m], w, l1) = Ret None (n2, [manager_stop m], w, l2)"
    by (rule server_contract.shutdown_task [OF sample_server_ok _ _ sv]) (use i in \<open>auto simp: node_inv_def\<close>)
  from node_start_stop_cycle [OF sample_task_host sample_node_inv a b, of "[]"]
  have "nd_isRunning n1 \<and> card (listeners n1) = 2 \<and> running_managers ([manager_stop m], w, l2) = {} \<and> l2 = []"
    by (auto simp: no_managers open_listeners_def)
  with a b show ?thesis by (metis snd_conv)
qed

text \<open>A platform on which no identifier generator can be made, and a server on which every address is taken.\<close>

definition no_worker_platform :: "(sample_world, nat, bytes \<Rightarrow> bytes option) platform" where
  "no_worker_platform = sample_platform\<lparr>pf_new_worker := (\<lambda>i. Inl (ErrExt ''worker id''))\<rparr>"

definition busy_server :: "nat list server_lib" where
  "busy_server = sample_server\<lparr>sv_http := (\<lambda>e apis ms os l. (Inl (ErrExt ''address already in use''), l))\<rparr>"

lemma busy_server_ok: "server_contract busy_server set"
  using sample_server_ok by (simp add: server_contract_def busy_server_def)

theorem failed_service_start_cleans_up_witness:
  "\<exists>w3 :: (sample_world, nat, bytes \<Rightarrow> bytes option, nat list) task_world.
     node_start (task_host no_worker_platform sample_server []) sample_node ([], (0, Map.empty), []) =
       Ret (Some (ErrExt ''worker id'')) (sample_node, w3) \<and> running_managers w3 = {}"
proof -
  let ?H = "task_host no_worker_platform sample_server []"
  obtain m0 :: "(nat, bytes \<Rightarrow> bytes option) manager" where m0: "new_manager ''/data'' = Inr m0"
    using new_manager_exists by blast
  have mk: "pf_mkdir_all no_worker_platform p v = (None, v)" "pf_new_worker no_worker_platform i = Inl (ErrExt ''worker id'')"
    for p v i by (simp_all add: no_worker_platform_def)
  obtain m where m: "manager_start no_worker_platform [] m0 (0, Map.empty) =
      Ret (Some (ErrExt ''worker id'')) (m, (0, Map.empty))"
    by (simp add: manager_start_def mk Let_def)
  have "construct_services ?H (nd_serviceFuncs sample_node) [] ([], (0, Map.empty), []) =
      Ret (Inr [(ManagerKind, 0)]) ([m0], (0, Map.empty), [])"
    by (simp add: sample_node_def m0)
  moreover have "ho_range ?H [(ManagerKind, 0)] ([m0], (0, Map.empty), []) =
      ([(ManagerKind, 0)], [m0], (0, Map.empty), [])" by simp
  moreover have "start_all ?H [(ManagerKind, 0)] [(ManagerKind, 0)] [] ([m0], (0, Map.empty), []) =
      Ret (Some (ErrExt ''worker id'')) ([m], (0, Map.empty), [])" by (simp add: m)
  ultimately show ?thesis
    using failed_service_start_cleans_up [OF sample_task_host sample_node_inv sample_node_stopped(1),
        of no_worker_platform "[]" "([], (0, Map.empty), [])" "[(ManagerKind, 0)]"]
    by (simp add: no_managers)
qed

theorem failed_endpoint_leaves_services_up_witness:
  "\<exists>m (n :: (string, (sample_world, nat, bytes \<Rightarrow> bytes option, nat list) task_world) node) w l.
     node_start (task_host sample_platform busy_server []) sample_node ([], (0, Map.empty), []) =
       Ret (Some (ErrExt ''address already in use'')) (n, [m], w, l) \<and> running_managers ([m], w, l) = {0} \<and>
     node_stop (task_host sample_platform busy_server []) n ([m], w, l) =
       Ret (Some (Plain ErrNodeStopped)) (n, [m], w, l)"
proof -
  let ?H = "task_host sample_platform busy_server []"
  let ?n = "sample_node :: (string, (sample_world, nat, bytes \<Rightarrow> bytes option, nat list) task_world) node"
  obtain m0 m w where s: "new_manager ''/data'' = Inr m0"
    "\<forall>nodeID. manager_start sample_platform nodeID m0 (0, Map.empty) = Ret None (m, w)"
    by (rule sample_manager_started)
  have host: "node_host ?H running_managers (open_listeners set)"
    by (rule server_contract.task_host_ok [OF busy_server_ok])
  have sv: "sv_range busy_server xs l = (xs, l)" "sv_http busy_server = (\<lambda>e apis ms os l. (Inl (ErrExt ''address already in use''), l))"
    for xs l by (simp_all add: busy_server_def)
  have a: "construct_services ?H (nd_serviceFuncs ?n) [] ([], (0, Map.empty), []) =
      Ret (Inr [(ManagerKind, 0)]) ([m0], (0, Map.empty), [])"
    by (simp add: sample_node_def s)
  have b: "ho_range ?H [(ManagerKind, 0)] ([m0], (0, Map.empty), []) =
      ([(ManagerKind, 0)], [m0], (0, Map.empty), [])" by (simp add: sv)
  have c: "start_all ?H [(ManagerKind, 0)] [(ManagerKind, 0)] [] ([m0], (0, Map.empty), []) =
      Ret None ([m], w, [])" by (simp add: s)
  obtain n l where d: "node_start ?H ?n ([], (0, Map.empty), []) =
      Ret (Some (ErrExt ''address already in use'')) (n, [m], w, l)"
    by (simp add: sample_node_def node_start_def s start_rpc_def start_http_def sv Let_def)
  from failed_endpoint_leaves_services_up [OF host sample_node_inv sample_node_stopped(1) a b c d] d show ?thesis
    by (auto simp: no_managers)
qed

theorem node_panics_come_from_services_witness:
  "\<exists>(n :: (string, (sample_world, nat, bytes \<Rightarrow> bytes option, nat list) task_world) node) w.
     new_node (task_host sample_platform sample_server []) sample_conf ([], (0, Map.empty), []) = (Inr n, w) \<and>
     (case node_run (task_host sample_platform sample_server [])
        [OpRegister (task_ctor ''/data''), OpStart, OpStop, OpStop, OpRestart, OpStart, OpStartWS None None None None]
        (sample_conf, n, w) of
        Ret u (G', n', w'') \<Rightarrow> node_inv running_managers (open_listeners set) n' w''
      | Panic p s \<Rightarrow> raised (task_host sample_platform sample_server []) {task_ctor ''/data''} p)"
proof -
  let ?H = "task_host sample_platform sample_server []"
  let ?ops = "[OpRegister (task_ctor ''/data''), OpStart, OpStop, OpStop, OpRestart, OpStart, OpStartWS None None None None]"
  obtain n w where n: "new_node ?H sample_conf ([], (0, Map.empty), []) =
      (Inr (n :: (string, (sample_world, nat, bytes \<Rightarrow> bytes option, nat list) task_world) node), w)"
    by (simp add: new_node_def sample_conf_def default_config_def Let_def)
  have q: "\<forall>k. OpRegister k \<in> set ?ops \<longrightarrow> quiet_ctor running_managers (open_listeners set) k"
    using task_ctor_quiet by auto
  have c: "{k. OpRegister k \<in> set ?ops} = {task_ctor ''/data''}" by auto
  show ?thesis
    using node_panics_come_from_services [OF sample_task_host n q, of sample_conf] n unfolding c
    by (intro exI [of _ n] exI [of _ w]) (auto split: outcome.splits)
qed

theorem admin_start_ws_leaks_config_witness:
  "\<exists>r G' n' w' G'' m' v'.
     admin_start_ws (task_host sample_platform sample_server []) (Some ''0.0.0.0'') (Some 80) None None sample_conf
       sample_node ([], (0, Map.empty), []) = (r, G', n', w') \<and>
     admin_start_ws (task_host sample_platform sample_server []) None None None None G' sample_node w' =
       ((True, None), G'', m', v') \<and> nd_wsEndpoint m' = ''0.0.0.0:80''"
proof -
  let ?H = "task_host sample_platform sample_server []"
  obtain r G' n' w' where a: "admin_start_ws ?H (Some ''0.0.0.0'') (Some 80) None None sample_conf
       sample_node ([], (0, Map.empty), []) = (r, G', n', w')"
    by (cases "admin_start_ws ?H (Some ''0.0.0.0'') (Some 80) None None sample_conf
       sample_node ([], (0, Map.empty), [])") auto
  obtain G'' m' v' where b: "admin_start_ws ?H None None None None G' sample_node w' = ((True, None), G'', m', v')"
    by (cases w') (simp add: admin_start_ws_def start_ws_def sample_node_def sample_listen_def Let_def)
  have "endpoint_of ''0.0.0.0'' 80 = ''0.0.0.0:80''"
    by code_simp
  with admin_start_ws_leaks_config [OF sample_node_stopped(2) a b] have "nd_wsEndpoint m' = ''0.0.0.0:80''"
    by simp
  with a b show ?thesis by blast
qed

theorem worker_is_always_zero_witness:
  "\<exists>E (n :: (string, (sample_world, nat, bytes \<Rightarrow> bytes option, nat list) task_world) node) w.
     new_node (task_host sample_platform sample_server []) (default_config (\<lambda>v. v)) ([], (0, Map.empty), []) = (Inr n, w) \<and>
     (\<forall>m v. manager_start sample_platform (node_id n) m v = manager_start sample_platform ''0'' m v) \<and>
     fst (get_node_id E (nd_conf n)) = ''12''"
proof -
  let ?E = "\<lparr>env_get = (\<lambda>v. if v = NodeIdVar then ''12'' else []), env_home = None, env_goos = ''linux''\<rparr>"
  obtain n w where n: "new_node (task_host sample_platform sample_server []) (default_config (\<lambda>v. v)) ([], (0, Map.empty), []) =
      (Inr (n :: (string, (sample_world, nat, bytes \<Rightarrow> bytes option, nat list) task_world) node), w)"
    by (simp add: new_node_def default_config_def Let_def)
  from worker_is_always_zero [OF n, of sample_platform _ _ ?E] n show ?thesis
    by (intro exI [of _ ?E] exI [of _ n] exI [of _ w]) simp
qed

end
