(* ===== verification/Main_Program.thy ===== *)
theory Main_Program
  imports Node_Task
begin

text \<open>
  \<open>src/main.go\<close> as a whole, with \<open>node/version/version.go\<close>: the flags, the version that is printed, the boot, the wait for
  a signal, during which the goroutines of the program run, and the shutdown. Parsing the command line, log set-up
  and the profiling server, whose errors are only logged, are left out. The lemmas show what the process does in each case and
  that the manager it boots is the one that runs until a signal and is then stopped.
\<close>

section \<open>Flags and version\<close>

record main_flags =
  fl_configFile :: string
  fl_isPProf :: bool
  fl_isVersion :: bool

text \<open>The defaults of \<open>init\<close>. The file of \<open>-c\<close> is never read: the code that would is commented out.\<close>

definition default_flags :: main_flags where
  "default_flags = \<lparr>fl_configFile = ''conf/website.json'', fl_isPProf = False, fl_isVersion = False\<rparr>"

definition Version :: string where "Version = ''1.0.0''"

text \<open>A line of \<open>fmt.Println\<close> with two strings.\<close>

definition println2 :: "string \<Rightarrow> string \<Rightarrow> string" where
  "println2 a b = a @ '' '' @ b"

record go_runtime =
  go_arch :: string
  go_version :: string
  go_os :: string

definition version_info :: "go_runtime \<Rightarrow> string \<Rightarrow> string \<Rightarrow> string \<Rightarrow> string list" where
  "version_info R name commit buildDate =
     [println2 ''Version:'' Version] @
     (if commit \<noteq> [] then [println2 ''Git Commit:'' commit] else []) @
     (if buildDate \<noteq> [] then [println2 ''Build Date:'' buildDate] else []) @
     (if name \<noteq> [] then [println2 ''Binary Name:'' name] else []) @
     [println2 ''Architecture:'' (go_arch R), println2 ''Go Version:'' (go_version R),
      println2 ''Operating System:'' (go_os R)]"

section \<open>Signals\<close>

datatype os_signal = SIGINT | SIGTERM | SIGCHLD

text \<open>The loop of \<open>main\<close> on the signals it receives: it goes on after \<open>SIGCHLD\<close> and leaves at any other;
  \<^const>\<open>None\<close>: it waits.\<close>

fun await_quit :: "os_signal list \<Rightarrow> os_signal list option" where
  "await_quit [] = None"
| "await_quit (s # ss) = (if s = SIGCHLD then await_quit ss else Some ss)"

section \<open>main\<close>

text \<open>The end of the process: it prints and exits, ends in \<open>log.Fatalf\<close> or a panic, still waits, or has shut down.\<close>

datatype ('v, 's) main_result =
    MainPrinted "string list"
  | MainFatal error
  | MainCrashed panic
  | MainWaiting "('v, 's) node" 's
  | MainEnded "('v, 's) node" 's

text \<open>\<open>info\<close> is what \<open>version.Info\<close> prints; \<open>during\<close> is the effect of the program's goroutines until the signal.\<close>

definition main_program ::
  "('w, 'g, 'db) platform \<Rightarrow> 'l server_lib \<Rightarrow> string list \<Rightarrow> main_flags \<Rightarrow> os_signal list \<Rightarrow>
    (('w, 'g, 'db, 'l) task_world \<Rightarrow> ('w, 'g, 'db, 'l) task_world) \<Rightarrow> 'v config \<Rightarrow> 'w \<Rightarrow> 'l \<Rightarrow>
    ('v, ('w, 'g, 'db, 'l) task_world) main_result" where
  "main_program P S info fl signals during c w l =
     (if fl_isVersion fl then MainPrinted info
      else case main_boot P S c w l of
             Inl e \<Rightarrow> MainFatal e
           | Inr (Panic p t) \<Rightarrow> MainCrashed p
           | Inr (Ret e (stack, s)) \<Rightarrow>
               (case await_quit signals of
                  None \<Rightarrow> MainWaiting stack (during s)
                | Some rest \<Rightarrow>
                    (case main_shutdown (task_host P S (cf_id c)) stack (during s) of
                       Panic p t \<Rightarrow> MainCrashed p
                     | Ret u (stack1, s1) \<Rightarrow> MainEnded stack1 s1)))"

section \<open>Lemmas\<close>

lemma await_quit_None: "await_quit ss = None \<longleftrightarrow> set ss \<subseteq> {SIGCHLD}"
  by (induction ss) auto

text \<open>Only \<open>Stop\<close> changes whether the manager is running.\<close>

lemma add_task_running: "add_task P j m w = Ret r (m', w') \<Longrightarrow> mg_isRunning m' = mg_isRunning m"
  by (auto simp: add_task_def schedule_job_def Let_def split: option.splits sum.splits prod.splits outcome.splits)

lemma delete_task_running: "delete_task P j m w = Ret r (m', w') \<Longrightarrow> mg_isRunning m' = mg_isRunning m"
  by (auto simp: delete_task_def Let_def split: option.splits prod.splits outcome.splits if_splits)

lemma tick_handle_running: "tick_handle m = Ret ks m' \<Longrightarrow> mg_isRunning m' = mg_isRunning m"
  by (auto simp: tick_handle_def split: outcome.splits)

lemma execute_handle_running: "execute_handle P ks m w = Ret u (m', w') \<Longrightarrow> mg_isRunning m' = mg_isRunning m"
  by (auto simp: execute_handle_def split: outcome.splits prod.splits)

lemma watch_handle_running: "watch_handle ev m = Ret u m' \<Longrightarrow> mg_isRunning m' = mg_isRunning m"
  by (auto simp: watch_handle_def split: sum.splits)

lemmas running_facts = add_task_running delete_task_running tick_handle_running execute_handle_running
  watch_handle_running

lemma manager_run_running:
  "manager_run P s ls s' \<Longrightarrow> Stopped \<notin> set ls \<Longrightarrow> mg_isRunning (sy_mgr s') = mg_isRunning (sy_mgr s)"
proof (induction rule: manager_run.induct)
  case (step s l s1 ls s2)
  from step.hyps(1) step.prems have "mg_isRunning (sy_mgr s1) = mg_isRunning (sy_mgr s)"
    by (cases rule: manager_step.cases) (auto dest: running_facts)
  with step show ?case by simp
qed simp

text \<open>The parts of a boot without an error.\<close>

lemma main_boot_parts:
  assumes "server_contract S opn" "main_boot P S c w l = Inr (Ret None (n, ms, w', l'))"
  obtains m where "ms = [m]" "manager_inv P v issued m" "mg_isRunning m" "nd_services n = [(ManagerKind, 0)]"
    "nd_isRunning n" "\<not> nd_stopped n" "node_inv running_managers (open_listeners opn) n (ms, w', l')"
    "opn l' = opn l \<union> listeners n" "listeners n \<inter> opn l = {}"
proof -
  obtain n0 w0 where b: "node_inv running_managers (open_listeners opn) n0 ([], w0, l)"
    "listeners n0 = {}" "nd_serviceFuncs n0 = [task_ctor (node_data_dir n0)]"
    "node_start (task_host P S (cf_id c)) n0 ([], w0, l) = Ret None (n, ms, w', l')"
    by (rule server_contract.main_boot_start [OF assms])
  obtain m0 m where m: "new_manager (node_data_dir n0) = Inr m0" "manager_start P (cf_id c) m0 w0 = Ret None (m, w')"
    "ms = [m]" "nd_services n = [(ManagerKind, 0)]"
    by (rule server_contract.node_start_task [OF assms(1) b(4,3)])
  note s = node_host.start_succeeds [OF server_contract.task_host_ok [OF assms(1)] b(1,4)]
  then have "nd_isRunning n" "\<not> nd_stopped n" by (simp_all add: node_inv_def)
  with s m start_inv [OF m(1,2)] manager_start_running [OF m(2)] b(2) that [of m] show thesis
    by (auto simp: open_listeners_def)
qed

section \<open>Properties\<close>

text \<open>C6: The program runs the manager it has booted until a signal other than \<open>SIGCHLD\<close> arrives. The requests
  (whose jobs are acceptable), ticks, executions and watcher events in between keep the invariant of the manager as long as none of
  them panics, which would end the process; without such a signal the
  process still waits with it; with one it stops exactly this manager, in the state it has reached, closes its two
  listeners and ends.\<close>

theorem main_program_stops_its_manager:
  assumes "server_contract S opn" "platform_ok P v issued" "\<not> fl_isVersion fl"
    and "main_boot P S c w l = Inr (Ret None (n, [m], w', l'))"
    and "manager_run P \<lparr>sy_mgr = m, sy_world = w', sy_batches = []\<rparr> ls s" "\<forall>l \<in> set ls. label_ok l" "Stopped \<notin> set ls"
    and "during ([m], w', l') = ([sy_mgr s], sy_world s, l')"
  shows "system_inv P v issued s \<and> mg_isRunning (sy_mgr s) \<and>
    (case main_program P S info fl signals during c w l of
       MainWaiting n1 s1 \<Rightarrow> set signals \<subseteq> {SIGCHLD} \<and> n1 = n \<and> s1 = ([sy_mgr s], sy_world s, l')
     | MainEnded n1 (ms, w1, l1) \<Rightarrow> \<not> set signals \<subseteq> {SIGCHLD} \<and> ms = [manager_stop (sy_mgr s)] \<and> w1 = sy_world s \<and>
         \<not> nd_isRunning n1 \<and> opn l1 = opn l
     | _ \<Rightarrow> False)"
proof -
  obtain m1 where m: "[m] = [m1]" "manager_inv P v issued m1" "mg_isRunning m1" "nd_services n = [(ManagerKind, 0)]"
    "nd_isRunning n" "\<not> nd_stopped n" "node_inv running_managers (open_listeners opn) n ([m], w', l')"
    "opn l' = opn l \<union> listeners n" "listeners n \<inter> opn l = {}"
    by (rule main_boot_parts [OF assms(1,4)])
  with manager_run_inv [OF assms(2,5) _ assms(6)] manager_run_running [OF assms(5,7)]
  have sys: "system_inv P v issued s" "mg_isRunning (sy_mgr s)" by simp_all
  from m(7) sys(2) have inv: "node_inv running_managers (open_listeners opn) n ([sy_mgr s], sy_world s, l')"
    by (auto simp: node_inv_def running_managers_def open_listeners_def m(4,5))
  obtain n2 l2 where d: "main_shutdown (task_host P S (cf_id c)) n ([sy_mgr s], sy_world s, l') =
      Ret () (n2, [manager_stop (sy_mgr s)], sy_world s, l2)"
    "node_stop (task_host P S (cf_id c)) n ([sy_mgr s], sy_world s, l') = Ret None (n2, [manager_stop (sy_mgr s)], sy_world s, l2)"
    by (rule server_contract.shutdown_task [OF assms(1) m(5,6,4)])
  note t = node_host.stop_succeeds [OF server_contract.task_host_ok [OF assms(1)] inv m(5) d(2)]
  have "opn l2 = opn l" using m(8,9) t by (auto simp: open_listeners_def)
  with sys t d(1) assms(3,4,8) show ?thesis
    by (simp add: main_program_def split: option.split) (simp add: await_quit_None [symmetric])
qed

text \<open>With \<open>-v\<close> the process prints and boots nothing.\<close>

lemma main_prints_version:
  "fl_isVersion fl \<Longrightarrow> main_program P S info fl signals during c w l = MainPrinted info"
  by (simp add: main_program_def)

lemma version_info_lines: "length (version_info R name commit date) =
    4 + (if commit = [] then 0 else 1) + (if date = [] then 0 else 1) + (if name = [] then 0 else 1)"
  by (simp add: version_info_def)

section \<open>Witnesses\<close>

text \<open>A run with one tick; a child ends, then the process is terminated.\<close>

theorem main_program_stops_its_manager_witness:
  "\<exists>n m w ks s l2. manager_run sample_platform \<lparr>sy_mgr = m, sy_world = w, sy_batches = []\<rparr> [Ticked ks] s \<and>
     manager_inv sample_platform (\<lambda>d. d) sample_issued (sy_mgr s) \<and>
     main_program sample_platform sample_server [] default_flags [SIGCHLD, SIGTERM]
       (\<lambda>(ms, w, l). ([sy_mgr s], sy_world s, l)) sample_conf (0, Map.empty) [] =
     MainEnded n ([manager_stop (sy_mgr s)], sy_world s, l2) \<and> set l2 = {}"
proof -
  obtain n m w l where b: "main_boot sample_platform sample_server sample_conf (0, Map.empty) [] =
     Inr (Ret None (n, [m], w, l))" using sample_boot by blast
  have inv: "manager_inv sample_platform (\<lambda>d. d) sample_issued m"
    by (rule main_boot_parts [OF sample_server_ok b]) simp
  obtain ks s where k: "manager_step sample_platform \<lparr>sy_mgr = m, sy_world = w, sy_batches = []\<rparr> (Ticked ks) s"
    using tick_exists [where s = "\<lparr>sy_mgr = m, sy_world = w, sy_batches = []\<rparr>"] inv by (metis system.select_convs(1))
  have run: "manager_run sample_platform \<lparr>sy_mgr = m, sy_world = w, sy_batches = []\<rparr> [Ticked ks] s"
    using k by (auto intro: manager_run.intros)
  have fl: "\<not> fl_isVersion default_flags" by (simp add: default_flags_def)
  let ?d = "\<lambda>(ms, w, l). ([sy_mgr s], sy_world s, l)"
  let ?r = "main_program sample_platform sample_server [] default_flags [SIGCHLD, SIGTERM] ?d sample_conf (0, Map.empty) []"
  have r: "case ?r of
      MainWaiting n1 s1 \<Rightarrow> set [SIGCHLD, SIGTERM] \<subseteq> {SIGCHLD} \<and> n1 = n \<and> s1 = ([sy_mgr s], sy_world s, l)
    | MainEnded n1 (ms, w1, l1) \<Rightarrow> \<not> set [SIGCHLD, SIGTERM] \<subseteq> {SIGCHLD} \<and> ms = [manager_stop (sy_mgr s)] \<and>
        w1 = sy_world s \<and> \<not> nd_isRunning n1 \<and> set l1 = set []
    | _ \<Rightarrow> False" and inv2: "system_inv sample_platform (\<lambda>d. d) sample_issued s"
    using main_program_stops_its_manager [OF sample_server_ok sample_platform_ok fl b run, where during = ?d and
        signals = "[SIGCHLD, SIGTERM]" and info = "[]"] by simp_all
  from r obtain n1 l2 where "?r = MainEnded n1 ([manager_stop (sy_mgr s)], sy_world s, l2)" "set l2 = {}"
    by (cases ?r) (auto split: prod.splits)
  with run inv2 show ?thesis by blast
qed

end
