(* ===== verification/Rpc_Message.thy ===== *)
theory Rpc_Message
  imports Errors Prelude "HOL-Library.Multiset"
begin

text \<open>
  The calls of the JSON-RPC client, \<open>src/client/client.go\<close>: its messages and their kinds, identifiers,
  how a call reads its answer and how a batch sorts the answers by identifier. \<open>encoding/json\<close> at the types
  of the caller is a parameter (\<open>marshal\<close>, \<open>unmarshal\<close>), the HTTP exchange is its outcome. A raw message is
  the string of its bytes; a nil one is \<^const>\<open>None\<close> where nil and empty are told apart.
\<close>

section \<open>Messages\<close>

definition ErrClientQuit :: error where "ErrClientQuit = ErrNew ''client is closed''"
definition ErrNoResult :: error where "ErrNoResult = ErrNew ''no result in JSON-RPC response''"

definition ErrSubscriptionQueueOverflow :: error where
  "ErrSubscriptionQueueOverflow = ErrNew ''subscription queue overflow''"

definition maxClientSubscriptionBuffer :: nat where "maxClientSubscriptionBuffer = 20000"

record rpc_message =
  jm_version :: string
  jm_id :: "string option"
  jm_method :: string
  jm_params :: string
  jm_error :: "error option"
  jm_result :: string

definition has_valid_id :: "rpc_message \<Rightarrow> bool" where
  "has_valid_id msg =
     (case jm_id msg of
        None \<Rightarrow> False
      | Some b \<Rightarrow> b \<noteq> [] \<and> hd b \<noteq> CHR ''{'' \<and> hd b \<noteq> CHR ''['')"

definition is_notification :: "rpc_message \<Rightarrow> bool" where
  "is_notification msg \<longleftrightarrow> jm_id msg = None \<and> jm_method msg \<noteq> []"

definition is_response :: "rpc_message \<Rightarrow> bool" where
  "is_response msg \<longleftrightarrow> has_valid_id msg \<and> jm_method msg = [] \<and> jm_params msg = []"

lemma not_both_kinds: "\<not> (is_notification msg \<and> is_response msg)"
  by (auto simp: is_notification_def is_response_def)

text \<open>The counter of identifiers is atomic and 32 bits wide.\<close>

definition next_id :: "32 word \<Rightarrow> string \<times> 32 word" where
  "next_id n = (show_nat (unat (n + 1)), n + 1)"

definition new_message ::
  "('a \<Rightarrow> error + string) \<Rightarrow> string \<Rightarrow> 'a \<Rightarrow> 32 word \<Rightarrow> (error + rpc_message) \<times> 32 word" where
  "new_message marshal method args n =
     (case marshal args of
        Inl e \<Rightarrow> (Inl e, n)
      | Inr ps \<Rightarrow>
          (let (i, n') = next_id n
           in (Inr \<lparr>jm_version = ''2.0'', jm_id = Some i, jm_method = method, jm_params = ps,
                    jm_error = None, jm_result = []\<rparr>, n')))"

section \<open>Dialling\<close>

text \<open>The transport that \<open>DialContext\<close> chooses; \<open>parse\<close> is \<open>url.Parse\<close>, of which the scheme is used. A scheme
  has no character that \<open>%q\<close> escapes.\<close>

datatype transport = TransportHTTP string | TransportWebsocket string | TransportStdIO

definition dial_context :: "(string \<Rightarrow> error + string) \<Rightarrow> string \<Rightarrow> error + transport" where
  "dial_context parse rawurl =
     (case parse rawurl of
        Inl e \<Rightarrow> Inl e
      | Inr scheme \<Rightarrow>
          if scheme = ''http'' \<or> scheme = ''https'' then Inr (TransportHTTP rawurl)
          else if scheme = ''ws'' \<or> scheme = ''wss'' then Inr (TransportWebsocket rawurl)
          else if scheme = ''stdio'' then Inr TransportStdIO
          else Inl (ErrNew (''no known transport for URL scheme '' @ [CHR 0x22] @ scheme @ [CHR 0x22])))"

text \<open>The address of a websocket: the default port is added when \<open>net.SplitHostPort\<close> finds none; \<open>join\<close> is
  \<open>net.JoinHostPort\<close>.\<close>

definition wsPortMap :: "string \<Rightarrow> string option" where
  "wsPortMap = [''ws'' \<mapsto> ''80'', ''wss'' \<mapsto> ''443'']"

definition ws_dial_address ::
  "(string \<Rightarrow> error + string \<times> string) \<Rightarrow> (string \<Rightarrow> string \<Rightarrow> string) \<Rightarrow> string \<Rightarrow> string \<Rightarrow> string" where
  "ws_dial_address split join scheme host =
     (case wsPortMap scheme of
        None \<Rightarrow> host
      | Some p \<Rightarrow> (case split host of Inl e \<Rightarrow> join host p | Inr hp \<Rightarrow> host))"

section \<open>A single call\<close>

text \<open>What \<open>CallContext\<close> makes of the end of \<open>wait\<close>: a message, or an error of the context or of the client.
  The result variable \<open>v\<close> is written by \<open>json.Unmarshal\<close>.\<close>

definition call_result ::
  "(string \<Rightarrow> 'v \<Rightarrow> 'v \<times> error option) \<Rightarrow> error + rpc_message \<Rightarrow> 'v \<Rightarrow> 'v \<times> error option" where
  "call_result unmarshal r v =
     (case r of
        Inl e \<Rightarrow> (v, Some e)
      | Inr resp \<Rightarrow>
          (case jm_error resp of
             Some e \<Rightarrow> (v, Some e)
           | None \<Rightarrow> if jm_result resp = [] then (v, Some ErrNoResult) else unmarshal (jm_result resp) v))"

text \<open>The exchange of \<open>doRequest\<close>: no response at all, a response outside 200-299 with its status and a
  body that can or cannot be read, or a good one.\<close>

datatype http_outcome =
    HttpFailed error
  | HttpStatus string "string option"
  | HttpBody string

definition send_http ::
  "(string \<Rightarrow> error + rpc_message) \<Rightarrow> http_outcome \<Rightarrow> error + rpc_message" where
  "send_http decode h =
     (case h of
        HttpFailed e \<Rightarrow> Inl e
      | HttpStatus st None \<Rightarrow> Inl (ErrNew st)
      | HttpStatus st (Some body) \<Rightarrow> Inl (ErrNew (st @ '' '' @ body))
      | HttpBody body \<Rightarrow> decode body)"

section \<open>Batches\<close>

record ('a, 'v) batch_elem =
  be_method :: string
  be_args :: 'a
  be_result :: 'v
  be_error :: "error option"

fun batch_messages ::
  "('a \<Rightarrow> error + string) \<Rightarrow> ('a, 'v) batch_elem list \<Rightarrow> 32 word \<Rightarrow> (error + rpc_message list) \<times> 32 word" where
  "batch_messages marshal [] n = (Inr [], n)"
| "batch_messages marshal (b # bs) n =
     (case new_message marshal (be_method b) (be_args b) n of
        (Inl e, n1) \<Rightarrow> (Inl e, n1)
      | (Inr m, n1) \<Rightarrow>
          (case batch_messages marshal bs n1 of
             (Inl e, n2) \<Rightarrow> (Inl e, n2)
           | (Inr ms, n2) \<Rightarrow> (Inr (m # ms), n2)))"

text \<open>The search for the element of a response: the index of the first message with its identifier.\<close>

fun find_elem :: "string option \<Rightarrow> rpc_message list \<Rightarrow> nat option" where
  "find_elem i [] = None"
| "find_elem i (m # ms) = (if jm_id m = i then Some 0 else map_option Suc (find_elem i ms))"

definition answer_elem ::
  "(string \<Rightarrow> 'v \<Rightarrow> 'v \<times> error option) \<Rightarrow> rpc_message \<Rightarrow> ('a, 'v) batch_elem \<Rightarrow> ('a, 'v) batch_elem" where
  "answer_elem unmarshal resp b =
     (case jm_error resp of
        Some e \<Rightarrow> b\<lparr>be_error := Some e\<rparr>
      | None \<Rightarrow>
          if jm_result resp = [] then b\<lparr>be_error := Some ErrNoResult\<rparr>
          else let (v, e) = unmarshal (jm_result resp) (be_result b) in b\<lparr>be_result := v, be_error := e\<rparr>)"

text \<open>The loop of \<open>BatchCallContext\<close>, with \<open>n\<close> answers to wait for, on what \<open>wait\<close> delivers: answers,
  a nil message without an error, or an error that ends the loop. \<^const>\<open>None\<close>: the loop waits for ever. A nil
  message, and a response without an element, are followed through a nil pointer.\<close>

fun batch_wait ::
  "(string \<Rightarrow> 'v \<Rightarrow> 'v \<times> error option) \<Rightarrow> rpc_message list \<Rightarrow> nat \<Rightarrow> (error + rpc_message option) list \<Rightarrow>
    ('a, 'v) batch_elem list \<Rightarrow> (('a, 'v) batch_elem list, error option) outcome option" where
  "batch_wait unmarshal msgs 0 rs b = Some (Ret None b)"
| "batch_wait unmarshal msgs (Suc n) [] b = None"
| "batch_wait unmarshal msgs (Suc n) (Inl e # rs) b = Some (Ret (Some e) b)"
| "batch_wait unmarshal msgs (Suc n) (Inr None # rs) b = Some (Panic NilDereference b)"
| "batch_wait unmarshal msgs (Suc n) (Inr (Some resp) # rs) b =
     (case find_elem (jm_id resp) msgs of
        None \<Rightarrow> Some (Panic NilDereference b)
      | Some i \<Rightarrow> batch_wait unmarshal msgs n rs (b[i := answer_elem unmarshal resp (b ! i)]))"

abbreviation answered :: "rpc_message \<Rightarrow> error + rpc_message option" where
  "answered r \<equiv> Inr (Some r)"

text \<open>\<open>sendBatchHTTP\<close>: its result, and whether the body of the response is left open, as it is closed only after the
  check of the error.\<close>

definition send_batch_http ::
  "(string \<Rightarrow> error + rpc_message list) \<Rightarrow> http_outcome \<Rightarrow> (error + rpc_message list) \<times> bool" where
  "send_batch_http decode h =
     (case h of
        HttpFailed e \<Rightarrow> (Inl e, False)
      | HttpStatus st body \<Rightarrow> (Inl (ErrNew st), True)
      | HttpBody body \<Rightarrow> (decode body, False))"

lemma batch_leaves_body_open: "snd (send_batch_http decode h) \<longleftrightarrow> (\<exists>st body. h = HttpStatus st body)"
  by (cases h) (simp_all add: send_batch_http_def)

text \<open>\<open>BatchCallContext\<close> over HTTP, with a context that has no deadline: \<open>sendBatchHTTP\<close> sends every response
  of the server to a channel of as many places as the batch has elements, before anyone receives.\<close>

definition batch_call_http ::
  "('a \<Rightarrow> error + string) \<Rightarrow> (string \<Rightarrow> 'v \<Rightarrow> 'v \<times> error option) \<Rightarrow>
    (rpc_message list \<Rightarrow> error + rpc_message list) \<Rightarrow> ('a, 'v) batch_elem list \<Rightarrow> 32 word \<Rightarrow>
    (('a, 'v) batch_elem list, error option) outcome option \<times> 32 word" where
  "batch_call_http marshal unmarshal exchange b n =
     (case batch_messages marshal b n of
        (Inl e, n') \<Rightarrow> (Some (Ret (Some e) b), n')
      | (Inr msgs, n') \<Rightarrow>
          (case exchange msgs of
             Inl e \<Rightarrow> (Some (Ret (Some e) b), n')
           | Inr rs \<Rightarrow>
               if length b < length rs then (None, n')
               else (batch_wait unmarshal msgs (length b) (map answered rs) b, n')))"

section \<open>Identifiers\<close>

lemma batch_messages_length:
  "batch_messages marshal b n = (Inr msgs, n') \<Longrightarrow> length msgs = length b"
proof (induction b arbitrary: n msgs)
  case (Cons x b)
  then show ?case by (auto split: prod.splits sum.splits)
qed simp

lemma batch_messages_id:
  "batch_messages marshal b n = (Inr msgs, n') \<Longrightarrow> i < length msgs \<Longrightarrow>
     jm_id (msgs ! i) = Some (show_nat (unat (n + word_of_nat (Suc i))))"
proof (induction b arbitrary: n msgs i)
  case (Cons x b)
  from Cons.prems(1) obtain m n1 ms where m: "new_message marshal (be_method x) (be_args x) n = (Inr m, n1)"
    "batch_messages marshal b n1 = (Inr ms, n')" "msgs = m # ms"
    by (auto split: prod.splits sum.splits)
  from m(1) have h: "n1 = n + 1" "jm_id m = Some (show_nat (unat (n + 1)))"
    by (auto simp: new_message_def next_id_def split: sum.splits)
  show ?case
  proof (cases i)
    case 0
    with h m(3) show ?thesis by simp
  next
    case (Suc j)
    with Cons.prems(2) m(3) Cons.IH [OF m(2), of j] h(1) show ?thesis by (simp add: add.assoc)
  qed
qed simp

text \<open>The identifier of the call number \<open>i\<close> of a client, counted from 0. The counter has 32 bits: no two of the first
  \<open>2\<^sup>3\<^sup>2\<close> calls have the same, and the next one has that of the first.\<close>

definition call_id :: "nat \<Rightarrow> string" where
  "call_id i = fst (next_id (word_of_nat i))"

lemma call_id_distinct:
  assumes "i < 2 ^ 32" "j < 2 ^ 32" "call_id i = call_id j"
  shows "i = j"
proof -
  from arg_cong [OF assms(3), of read_nat] have "unat ((word_of_nat i :: 32 word) + 1) = unat ((word_of_nat j :: 32 word) + 1)"
    by (simp add: call_id_def next_id_def)
  then have "(word_of_nat i :: 32 word) + 1 = word_of_nat j + 1" by (rule unsigned_word_eqI)
  then have "unat (word_of_nat i :: 32 word) = unat (word_of_nat j :: 32 word)" by simp
  with assms(1,2) show ?thesis by (simp add: unat_of_nat)
qed

lemma call_id_wraps: "call_id (i + 2 ^ 32) = call_id i"
proof -
  have "(word_of_nat (i + 2 ^ 32) :: 32 word) = word_of_nat i"
    by (simp only: word_of_nat_eq_iff take_bit_eq_mod) simp
  then show ?thesis by (simp only: call_id_def)
qed

lemma batch_ids_distinct:
  assumes "batch_messages marshal b n = (Inr msgs, n')" "length b \<le> 2 ^ 32"
  shows "distinct (map jm_id msgs)"
proof (rule distinct_conv_nth [THEN iffD2], intro allI impI)
  fix i j assume ij: "i < length (map jm_id msgs)" "j < length (map jm_id msgs)" "i \<noteq> j"
  have len: "length msgs \<le> 2 ^ 32" using batch_messages_length [OF assms(1)] assms(2) by simp
  have "n + word_of_nat (Suc i) \<noteq> n + (word_of_nat (Suc j) :: 32 word)"
  proof
    assume "n + word_of_nat (Suc i) = n + (word_of_nat (Suc j) :: 32 word)"
    then have "(word_of_nat i :: 32 word) = word_of_nat j" by simp
    then have "unat (word_of_nat i :: 32 word) = unat (word_of_nat j :: 32 word)" by simp
    with ij len show False by (simp add: unat_of_nat)
  qed
  then have "unat (n + word_of_nat (Suc i)) \<noteq> unat (n + word_of_nat (Suc j))"
    by (metis unsigned_word_eqI)
  with ij batch_messages_id [OF assms(1)] show "map jm_id msgs ! i \<noteq> map jm_id msgs ! j"
    by (simp del: of_nat_Suc)
qed

lemma find_elem_distinct:
  "distinct (map jm_id msgs) \<Longrightarrow> i < length msgs \<Longrightarrow> find_elem (jm_id (msgs ! i)) msgs = Some i"
proof (induction msgs arbitrary: i)
  case (Cons m ms)
  then show ?case by (cases i) (auto simp: nth_mem image_iff)
qed simp

lemma find_elem_None: "find_elem i msgs = None \<longleftrightarrow> i \<notin> jm_id ` set msgs"
  by (induction msgs) auto

section \<open>Sorting the answers\<close>

text \<open>After the responses \<open>rs\<close>, element \<open>i\<close> holds the answer of the response with its identifier, when there was one.\<close>

definition answered_by ::
  "(string \<Rightarrow> 'v \<Rightarrow> 'v \<times> error option) \<Rightarrow> rpc_message list \<Rightarrow> rpc_message list \<Rightarrow>
    ('a, 'v) batch_elem list \<Rightarrow> nat \<Rightarrow> ('a, 'v) batch_elem" where
  "answered_by unmarshal msgs rs b i =
     (case find (\<lambda>r. jm_id r = jm_id (msgs ! i)) rs of
        None \<Rightarrow> b ! i
      | Some r \<Rightarrow> answer_elem unmarshal r (b ! i))"

lemma find_filter_head: "find P xs = None \<Longrightarrow> x \<in> set xs \<Longrightarrow> \<not> P x"
  by (induction xs) (auto split: if_splits)

lemma batch_wait_sorts:
  assumes "distinct (map jm_id msgs)" "jm_id ` set rs \<subseteq> jm_id ` set msgs" "distinct (map jm_id rs)"
    and "length b = length msgs"
  shows "\<exists>b'. batch_wait unmarshal msgs (length rs) (map answered rs) b = Some (Ret None b') \<and>
    length b' = length b \<and> (\<forall>i < length b. b' ! i = answered_by unmarshal msgs rs b i)"
  using assms(2-4)
proof (induction rs arbitrary: b)
  case Nil
  then show ?case by (simp add: answered_by_def)
next
  case (Cons r rs)
  from Cons.prems(1) obtain k where k: "k < length msgs" "jm_id r = jm_id (msgs ! k)"
    by (auto simp: in_set_conv_nth)
  let ?b = "b[k := answer_elem unmarshal r (b ! k)]"
  obtain b' where b': "batch_wait unmarshal msgs (length rs) (map answered rs) ?b = Some (Ret None b')"
    "length b' = length b" "\<forall>i < length b. b' ! i = answered_by unmarshal msgs rs ?b i"
    using Cons.IH [of ?b] Cons.prems by auto
  have new: "find (\<lambda>x. jm_id x = jm_id (msgs ! k)) rs = None"
    using Cons.prems(2) k(2) by (auto simp: find_None_iff) (metis imageI)
  have other: "jm_id r \<noteq> jm_id (msgs ! i)" if "i < length msgs" "i \<noteq> k" for i
    using that k assms(1) by (auto simp: distinct_conv_nth)
  have "b' ! i = answered_by unmarshal msgs (r # rs) b i" if i: "i < length b" for i
  proof (cases "i = k")
    case True
    with b'(3) i k Cons.prems(3) new show ?thesis by (simp add: answered_by_def)
  next
    case False
    then have nb: "?b ! i = b ! i" by simp
    have "b' ! i = answered_by unmarshal msgs rs b i"
      using b'(3) [rule_format, OF i] unfolding answered_by_def nb .
    with False i Cons.prems(3) other [of i] show ?thesis by (simp add: answered_by_def)
  qed
  moreover have "batch_wait unmarshal msgs (length (r # rs)) (map answered (r # rs)) b = Some (Ret None b')"
    using b'(1) find_elem_distinct [OF assms(1) k(1)] k(2) by simp
  ultimately show ?case using b'(2) by blast
qed

lemma answered_by_some:
  assumes "jm_id (msgs ! i) \<in> jm_id ` set rs"
  shows "\<exists>r \<in> set rs. jm_id r = jm_id (msgs ! i) \<and> answered_by unmarshal msgs rs b i = answer_elem unmarshal r (b ! i)"
proof -
  from assms obtain r where r: "find (\<lambda>r. jm_id r = jm_id (msgs ! i)) rs = Some r"
    by (cases "find (\<lambda>r. jm_id r = jm_id (msgs ! i)) rs") (auto simp: find_None_iff)
  then have "r \<in> set rs \<and> jm_id r = jm_id (msgs ! i)" by (auto simp: find_Some_iff)
  with r show ?thesis by (auto simp: answered_by_def)
qed

section \<open>Properties\<close>

text \<open>C27: A batch over HTTP sorts its answers. When the server answers every request of a batch of at most \<open>2\<^sup>3\<^sup>2\<close> elements
  once, in any order, the call returns without an error, and each element holds exactly the answer to its
  own request: its error, \<open>ErrNoResult\<close>, or its unmarshalled result.\<close>

theorem batch_sorts_its_answers:
  assumes "batch_messages marshal b n = (Inr msgs, n')" "length b \<le> 2 ^ 32"
    and "exchange msgs = Inr rs" "mset (map jm_id rs) = mset (map jm_id msgs)"
  shows "\<exists>b'. batch_call_http marshal unmarshal exchange b n = (Some (Ret None b'), n') \<and> length b' = length b \<and>
    (\<forall>i < length b. \<exists>r \<in> set rs. jm_id r = jm_id (msgs ! i) \<and> b' ! i = answer_elem unmarshal r (b ! i))"
proof -
  have d: "distinct (map jm_id msgs)" by (rule batch_ids_distinct [OF assms(1,2)])
  have "distinct (map jm_id rs)" using d assms(4) by (metis mset_eq_imp_distinct_iff)
  moreover have same: "jm_id ` set rs = jm_id ` set msgs" using assms(4) by (metis mset_eq_setD set_map)
  moreover have len: "length rs = length b" "length b = length msgs"
    using assms(4) batch_messages_length [OF assms(1)] by (metis length_map size_mset, simp)
  ultimately obtain b' where b': "batch_wait unmarshal msgs (length rs) (map answered rs) b = Some (Ret None b')"
    "length b' = length b" "\<forall>i < length b. b' ! i = answered_by unmarshal msgs rs b i"
    using batch_wait_sorts [OF d, of rs b unmarshal] by auto
  have "\<exists>r \<in> set rs. jm_id r = jm_id (msgs ! i) \<and> b' ! i = answer_elem unmarshal r (b ! i)" if i: "i < length b" for i
    using answered_by_some [of msgs i rs unmarshal b] b'(3) i same len by simp
  with b' assms(1,3) len show ?thesis by (auto simp: batch_call_http_def)
qed

lemma batch_wait_short:
  "jm_id ` set rs \<subseteq> jm_id ` set msgs \<Longrightarrow> length rs < n \<Longrightarrow> batch_wait unmarshal msgs n (map answered rs) b = None"
proof (induction rs arbitrary: n b)
  case Nil
  then show ?case by (cases n) simp_all
next
  case (Cons r rs)
  then obtain k where "n = Suc k" by (cases n) auto
  with Cons show ?case by (auto simp: find_elem_None split: option.split)
qed

lemma batch_wait_unknown:
  "\<not> jm_id ` set rs \<subseteq> jm_id ` set msgs \<Longrightarrow> length rs \<le> n \<Longrightarrow>
     \<exists>b'. batch_wait unmarshal msgs n (map answered rs) b = Some (Panic NilDereference b')"
proof (induction rs arbitrary: n b)
  case (Cons r rs)
  then obtain k where k: "n = Suc k" by (cases n) auto
  show ?case
  proof (cases "find_elem (jm_id r) msgs")
    case (Some i)
    then have "jm_id r \<in> jm_id ` set msgs" by (metis find_elem_None option.distinct(1))
    with Cons k Some show ?thesis by auto
  qed (use k in simp)
qed simp

text \<open>A batch over HTTP trusts the server: a response with an identifier that was not asked for
  panics the client, one response too many or one too few makes the call wait for ever.\<close>

theorem batch_trusts_the_server:
  assumes "batch_messages marshal b n = (Inr msgs, n')" "exchange msgs = Inr rs"
  shows "case batch_call_http marshal unmarshal exchange b n of (r, m) \<Rightarrow>
    (length b < length rs \<longrightarrow> r = None) \<and>
    (length rs < length b \<and> jm_id ` set rs \<subseteq> jm_id ` set msgs \<longrightarrow> r = None) \<and>
    (length rs \<le> length b \<and> \<not> jm_id ` set rs \<subseteq> jm_id ` set msgs \<longrightarrow>
       (\<exists>b'. r = Some (Panic NilDereference b')))"
  using assms batch_wait_short [of rs msgs "length b" unmarshal b]
    batch_wait_unknown [of rs msgs "length b" unmarshal b]
  by (simp add: batch_call_http_def)

section \<open>Witnesses\<close>

text \<open>Two requests, answered in the other order; and an answer to a request that was not made.\<close>

definition sample_batch :: "(string, string) batch_elem list" where
  "sample_batch =
     [\<lparr>be_method = ''task_check'', be_args = ''[1]'', be_result = [], be_error = None\<rparr>,
      \<lparr>be_method = ''task_get'', be_args = ''[2]'', be_result = [], be_error = None\<rparr>]"

definition sample_answer :: "string \<Rightarrow> string \<Rightarrow> rpc_message" where
  "sample_answer i r = \<lparr>jm_version = ''2.0'', jm_id = Some i, jm_method = [], jm_params = [],
     jm_error = None, jm_result = r\<rparr>"

lemma sample_batch_messages:
  "\<exists>m1 m2. batch_messages Inr sample_batch 0 = (Inr [m1, m2], 2) \<and> jm_id m1 = Some ''1'' \<and> jm_id m2 = Some ''2''"
proof -
  have "show_nat 1 = ''1''" "show_nat 2 = ''2''" by code_simp+
  then show ?thesis by (simp add: sample_batch_def new_message_def next_id_def)
qed

theorem batch_sorts_its_answers_witness:
  "\<exists>b. fst (batch_call_http Inr (\<lambda>r v. (r, None)) (\<lambda>ms. Inr [sample_answer ''2'' ''B'', sample_answer ''1'' ''A''])
      sample_batch 0) = Some (Ret None b) \<and> map be_result b = [''A'', ''B'']"
proof -
  obtain m1 m2 where m: "batch_messages Inr sample_batch 0 = (Inr [m1, m2], 2)"
    "jm_id m1 = Some ''1''" "jm_id m2 = Some ''2''" using sample_batch_messages by blast
  let ?rs = "[sample_answer ''2'' ''B'', sample_answer ''1'' ''A'']"
  have "mset (map jm_id ?rs) = mset (map jm_id [m1, m2])" using m by (simp add: sample_answer_def)
  from batch_sorts_its_answers [OF m(1) _ _ this, of "\<lambda>ms. Inr ?rs" "\<lambda>r v. (r, None)"]
  obtain b where b: "batch_call_http Inr (\<lambda>r v. (r, None)) (\<lambda>ms. Inr ?rs) sample_batch 0 = (Some (Ret None b), 2)"
    "length b = 2" "\<forall>i < 2. \<exists>r \<in> set ?rs. jm_id r = jm_id ([m1, m2] ! i) \<and>
       b ! i = answer_elem (\<lambda>r v. (r, None)) r (sample_batch ! i)"
    by (auto simp: sample_batch_def)
  from b(3) [rule_format, of 0] m(2,3) have "be_result (b ! 0) = ''A''"
    by (auto simp: sample_answer_def answer_elem_def)
  moreover from b(3) [rule_format, of 1] m(2,3) have "be_result (b ! 1) = ''B''"
    by (auto simp: sample_answer_def answer_elem_def)
  ultimately have "map be_result b = [''A'', ''B'']" using b(2) by (cases b; cases "tl b") auto
  with b(1) show ?thesis by simp
qed

theorem batch_trusts_the_server_witness:
  "\<exists>b. fst (batch_call_http Inr (\<lambda>r v. (r, None)) (\<lambda>ms. Inr [sample_answer ''7'' ''B'']) sample_batch 0) =
     Some (Panic NilDereference b)"
proof -
  obtain m1 m2 where m: "batch_messages Inr sample_batch 0 = (Inr [m1, m2], 2)"
    "jm_id m1 = Some ''1''" "jm_id m2 = Some ''2''" using sample_batch_messages by blast
  from batch_trusts_the_server [OF m(1), of "\<lambda>ms. Inr [sample_answer ''7'' ''B'']" "[sample_answer ''7'' ''B'']" "\<lambda>r v. (r, None)"] m
  show ?thesis by (auto simp: sample_answer_def sample_batch_def split: prod.splits)
qed

end
