(* ===== verification/Rpc_Dispatch.thy ===== *)
theory Rpc_Dispatch
  imports Rpc_Message
begin

text \<open>
  The dispatch loop of the JSON-RPC client, \<open>src/client/client.go\<close>, for connections other than HTTP: the operations that wait for
  responses, the subscriptions, and the goroutine of \<open>dispatch\<close> that serves them, as a state machine whose
  events are the branches of its \<open>select\<close> and the moves of the callers. An event that would block the loop for
  ever has the outcome \<^const>\<open>None\<close>. The suffix of notifications and the two decodings of \<open>encoding/json\<close> are
  parameters. The second part is the buffer of a subscription, \<open>forward\<close>.
  The lemmas show that every response reaches the call that waits for it, that a lost connection or
  a Close releases every call, and when the loop can block.
\<close>

section \<open>State\<close>

text \<open>\<open>ro_resp\<close> is all that was sent on the channel \<open>resp\<close>, \<open>ro_taken\<close> how much of it was received; the channel has
  as many places as the operation has identifiers, and none for a subscription. \<open>ro_failed\<close> records that
  the write failed, an error its caller gets from \<open>send\<close>.\<close>

record request_op =
  ro_ids :: "string list"
  ro_sub :: "nat option"
  ro_resp :: "rpc_message list"
  ro_taken :: nat
  ro_closed :: bool
  ro_err :: "error option"
  ro_failed :: bool

text \<open>The body of \<open>quitOnce\<close>: not begun; waiting for the loop to accept the request of \<open>requestUnsubscribe\<close>;
  waiting for its answer, operation \<open>i\<close>; done.\<close>

datatype once = OnceFree | OnceRequesting | OnceCalling nat | OnceDone

record client_sub =
  cs_subid :: string
  cs_once :: once
  cs_quit :: bool
  cs_err :: "error option list"
  cs_in :: "string list"

text \<open>Where the caller that holds the send lock is, in \<open>send\<close>, \<open>write\<close> and \<open>reconnect\<close>: it dials or writes; it has dialled
  and offers the new connection to the loop; its write is over, with this error.\<close>

datatype send_phase = SendWriting | SendOffering | SendOver "error option"

text \<open>Operations and subscriptions are on heaps; \<open>rc_used\<close> are the identifiers given out so far, \<open>rc_lastOp\<close> is
  set while the send lock is held, by a caller that is in the phase \<open>rc_send\<close>.\<close>

record rpc_client =
  rc_ops :: "request_op list"
  rc_heap :: "client_sub list"
  rc_respWait :: "(string \<times> nat) list"
  rc_subs :: "(string \<times> nat) list"
  rc_lastOp :: "nat option"
  rc_send :: send_phase
  rc_reading :: bool
  rc_quit :: bool
  rc_used :: "string list"

type_synonym dispatch_result = "(rpc_client, unit) outcome option"

definition new_client :: rpc_client where
  "new_client = \<lparr>rc_ops = [], rc_heap = [], rc_respWait = [], rc_subs = [], rc_lastOp = None,
     rc_send = SendWriting, rc_reading = True, rc_quit = False, rc_used = []\<rparr>"

definition new_op :: "string list \<Rightarrow> nat option \<Rightarrow> request_op" where
  "new_op ids s = \<lparr>ro_ids = ids, ro_sub = s, ro_resp = [], ro_taken = 0, ro_closed = False,
     ro_err = None, ro_failed = False\<rparr>"

definition new_client_subscription :: client_sub where
  "new_client_subscription = \<lparr>cs_subid = [], cs_once = OnceFree, cs_quit = False, cs_err = [], cs_in = []\<rparr>"

definition upd_op :: "(request_op \<Rightarrow> request_op) \<Rightarrow> nat \<Rightarrow> rpc_client \<Rightarrow> rpc_client" where
  "upd_op f i c = c\<lparr>rc_ops := (rc_ops c)[i := f (rc_ops c ! i)]\<rparr>"

definition upd_csub :: "(client_sub \<Rightarrow> client_sub) \<Rightarrow> nat \<Rightarrow> rpc_client \<Rightarrow> rpc_client" where
  "upd_csub f s c = c\<lparr>rc_heap := (rc_heap c)[s := f (rc_heap c ! s)]\<rparr>"

definition map_del :: "string \<Rightarrow> (string \<times> nat) list \<Rightarrow> (string \<times> nat) list" where
  "map_del k m = filter (\<lambda>p. fst p \<noteq> k) m"

definition map_put :: "string \<Rightarrow> nat \<Rightarrow> (string \<times> nat) list \<Rightarrow> (string \<times> nat) list" where
  "map_put k v m = (k, v) # map_del k m"

section \<open>The branches of the loop\<close>

text \<open>\<open>op := <-requestOpLock\<close>, for an operation that its caller has just made.\<close>

definition accept_op :: "request_op \<Rightarrow> rpc_client \<Rightarrow> rpc_client" where
  "accept_op op c =
     c\<lparr>rc_ops := rc_ops c @ [op], rc_lastOp := Some (length (rc_ops c)), rc_send := SendWriting,
       rc_used := ro_ids op @ rc_used c,
       rc_respWait := fold (\<lambda>k. map_put k (length (rc_ops c))) (ro_ids op) (rc_respWait c)\<rparr>"

text \<open>The moves of the caller that holds the send lock: its write, or its dial, ends; it offers a new connection; the loop
  takes it, and it goes on to write; or the client has quit and it gives up.\<close>

definition write_ends :: "error option \<Rightarrow> rpc_client \<Rightarrow> rpc_client" where
  "write_ends err c =
     (case (err, rc_lastOp c) of
        (Some e, Some i) \<Rightarrow> (upd_op (ro_failed_update (\<lambda>_. True)) i c)\<lparr>rc_send := SendOver err\<rparr>
      | _ \<Rightarrow> c\<lparr>rc_send := SendOver err\<rparr>)"

definition send_over :: "nat \<Rightarrow> rpc_client \<Rightarrow> bool" where
  "send_over i c \<longleftrightarrow> rc_lastOp c \<noteq> Some i \<or> (case rc_send c of SendOver e \<Rightarrow> True | _ \<Rightarrow> False)"

definition send_done :: "error option \<Rightarrow> rpc_client \<Rightarrow> (rpc_client, unit) outcome" where
  "send_done err c =
     (case err of
        None \<Rightarrow> Ret () (c\<lparr>rc_lastOp := None\<rparr>)
      | Some e \<Rightarrow>
          (case rc_lastOp c of
             None \<Rightarrow> Panic NilDereference c
           | Some i \<Rightarrow>
               Ret () ((upd_op (ro_failed_update (\<lambda>_. True)) i c)
                 \<lparr>rc_respWait := fold map_del (ro_ids (rc_ops c ! i)) (rc_respWait c), rc_lastOp := None\<rparr>)))"

definition close_resp :: "nat \<Rightarrow> rpc_client \<Rightarrow> (rpc_client, unit) outcome" where
  "close_resp i c =
     (if ro_closed (rc_ops c ! i) then Panic CloseOfClosed c
      else Ret () (upd_op (ro_closed_update (\<lambda>_. True)) i c))"

definition handle_response :: "(string \<Rightarrow> error + string) \<Rightarrow> rpc_message \<Rightarrow> rpc_client \<Rightarrow> dispatch_result" where
  "handle_response unmarshal_id msg c =
     (case jm_id msg of
        None \<Rightarrow> Some (Ret () c)
      | Some k \<Rightarrow>
          (case map_of (rc_respWait c) k of
             None \<Rightarrow> Some (Ret () c)
           | Some i \<Rightarrow>
               let op = rc_ops c ! i; c1 = c\<lparr>rc_respWait := map_del k (rc_respWait c)\<rparr>
               in case ro_sub op of
                    None \<Rightarrow>
                      if ro_closed op then Some (Panic (ExplicitPanic ''send on closed channel'') c1)
                      else if length (ro_resp op) - ro_taken op < length (ro_ids op)
                           then Some (Ret () (upd_op (ro_resp_update (\<lambda>r. r @ [msg])) i c1))
                           else None
                  | Some s \<Rightarrow>
                      Some (close_resp i
                        (case (case jm_error msg of Some e \<Rightarrow> Inl e | None \<Rightarrow> unmarshal_id (jm_result msg)) of
                           Inl e \<Rightarrow> upd_op (ro_err_update (\<lambda>_. Some e)) i c1
                         | Inr sid \<Rightarrow>
                             (upd_csub (cs_subid_update (\<lambda>_. sid)) s c1)
                               \<lparr>rc_subs := map_put sid s (rc_subs c)\<rparr>))))"

text \<open>\<open>deliver\<close> hands the result to the goroutine of \<open>forward\<close>, which always receives until it quits.\<close>

definition handle_notification ::
  "string \<Rightarrow> (string \<Rightarrow> error + string \<times> string) \<Rightarrow> rpc_message \<Rightarrow> rpc_client \<Rightarrow> rpc_client" where
  "handle_notification suffix unmarshal_note msg c =
     (if \<not> has_suffix (jm_method msg) suffix then c
      else case unmarshal_note (jm_params msg) of
             Inl e \<Rightarrow> c
           | Inr (sid, res) \<Rightarrow>
               (case map_of (rc_subs c) sid of
                  None \<Rightarrow> c
                | Some s \<Rightarrow>
                    if cs_quit (rc_heap c ! s) then c
                    else upd_csub (cs_in_update (\<lambda>q. q @ [res])) s c))"

text \<open>\<open>quitWithError(err, false)\<close> by the loop. When another goroutine is inside \<open>quitOnce\<close>, the loop waits for
  it: an unsubscribe call whose request is written ends, as its operation has just been closed; one that was not
  accepted waits for the loop, and so does one that is in \<open>reconnect\<close> and offers the loop a connection.\<close>

definition quit_with_error :: "error \<Rightarrow> nat \<Rightarrow> rpc_client \<Rightarrow> rpc_client option" where
  "quit_with_error err s c =
     (case cs_once (rc_heap c ! s) of
        OnceFree \<Rightarrow>
          Some (upd_csub (\<lambda>f. f\<lparr>cs_quit := True, cs_once := OnceDone,
             cs_err := cs_err f @ [if err = ErrClientQuit then None else Some err]\<rparr>) s c)
      | OnceRequesting \<Rightarrow> None
      | OnceCalling i \<Rightarrow>
          if send_over i c then Some (upd_csub (cs_once_update (\<lambda>_. OnceDone)) s c) else None
      | OnceDone \<Rightarrow> Some c)"

fun close_ops :: "error \<Rightarrow> nat list \<Rightarrow> rpc_client \<Rightarrow> (rpc_client, unit) outcome" where
  "close_ops e [] c = Ret () c"
| "close_ops e (i # is) c =
     (case close_resp i (upd_op (ro_err_update (\<lambda>_. Some e)) i c) of
        Panic p c' \<Rightarrow> Panic p c'
      | Ret u c' \<Rightarrow> close_ops e is c')"

fun quit_subs :: "error \<Rightarrow> nat list \<Rightarrow> rpc_client \<Rightarrow> rpc_client option" where
  "quit_subs e [] c = Some c"
| "quit_subs e (s # ss) c =
     (case quit_with_error e s c of None \<Rightarrow> None | Some c' \<Rightarrow> quit_subs e ss c')"

definition close_request_ops :: "error \<Rightarrow> rpc_client \<Rightarrow> dispatch_result" where
  "close_request_ops e c =
     (case close_ops e (remdups (map snd (rc_respWait c))) (c\<lparr>rc_respWait := []\<rparr>) of
        Panic p c' \<Rightarrow> Some (Panic p c')
      | Ret u c' \<Rightarrow> map_option (Ret ()) (quit_subs e (map snd (rc_subs c')) (c'\<lparr>rc_subs := []\<rparr>)))"

section \<open>Events\<close>

datatype dispatch_event =
    AcceptCall "string list"
  | AcceptSubscribe string
  | AcceptUnsubscribe nat string
  | WriteEnds "error option"
  | OfferConnection
  | Reconnected
  | OfferRefused
  | SendDone "error option"
  | Incoming rpc_message
  | TakeResponse nat
  | BeginUnsubscribe nat
  | EndUnsubscribe nat
  | ReadError error
  | CloseClient

definition fresh_ids_for :: "string list \<Rightarrow> rpc_client \<Rightarrow> bool" where
  "fresh_ids_for ids c \<longleftrightarrow> distinct ids \<and> set ids \<inter> set (rc_used c) = {}"

text \<open>That an identifier is fresh when its operation is accepted is an assumption about the number of calls: it holds of all
  identifiers of \<open>nextID\<close> until a client has made \<open>2\<^sup>3\<^sup>2\<close> calls, when the counter wraps.\<close>

lemma call_ids_fresh:
  assumes "set (rc_used c) \<subseteq> call_id ` {..<m}" "m + k \<le> 2 ^ 32"
  shows "fresh_ids_for (map call_id [m..<m + k]) c"
proof -
  have "inj_on call_id {..<m + k}" using call_id_distinct assms(2) by (intro inj_onI) simp
  moreover have "{m..<m + k} \<inter> {..<m} = {}" by auto
  ultimately have "call_id ` {m..<m + k} \<inter> call_id ` {..<m} = {}"
    by (subst inj_on_image_Int [symmetric, of _ "{..<m + k}"]) auto
  with assms(1) \<open>inj_on call_id {..<m + k}\<close> show ?thesis
    by (auto simp: fresh_ids_for_def distinct_map intro: inj_on_subset)
qed

text \<open>A branch that closes everything is one event. It waits at \<open>quitOnce\<close> for an unsubscribe call whose caller writes or
  dials; the event is taken when that is over (\<open>settled\<close>), as what others do in the meantime could as well come before it.\<close>

definition settled :: "rpc_client \<Rightarrow> bool" where
  "settled c \<longleftrightarrow> (\<forall>s \<in> snd ` set (rc_subs c).
     case cs_once (rc_heap c ! s) of
       OnceCalling i \<Rightarrow> rc_lastOp c = Some i \<longrightarrow> rc_send c \<noteq> SendWriting
     | _ \<Rightarrow> True)"

text \<open>When an event can happen. A call takes what comes for it when its request is written.\<close>

fun event_ok :: "dispatch_event \<Rightarrow> rpc_client \<Rightarrow> bool" where
  "event_ok (AcceptCall ids) c \<longleftrightarrow> rc_lastOp c = None \<and> fresh_ids_for ids c"
| "event_ok (AcceptSubscribe k) c \<longleftrightarrow> rc_lastOp c = None \<and> fresh_ids_for [k] c"
| "event_ok (AcceptUnsubscribe s k) c \<longleftrightarrow> rc_lastOp c = None \<and> fresh_ids_for [k] c \<and>
     s < length (rc_heap c) \<and> cs_once (rc_heap c ! s) = OnceRequesting"
| "event_ok (WriteEnds e) c \<longleftrightarrow> rc_lastOp c \<noteq> None \<and> rc_send c = SendWriting"
| "event_ok OfferConnection c \<longleftrightarrow> rc_lastOp c \<noteq> None \<and> rc_send c = SendWriting"
| "event_ok Reconnected c \<longleftrightarrow> rc_lastOp c \<noteq> None \<and> rc_send c = SendOffering"
| "event_ok OfferRefused c \<longleftrightarrow> rc_lastOp c \<noteq> None \<and> rc_send c = SendOffering \<and> rc_quit c"
| "event_ok (SendDone e) c \<longleftrightarrow> rc_lastOp c \<noteq> None \<and> rc_send c = SendOver e"
| "event_ok (Incoming m) c \<longleftrightarrow> rc_reading c"
| "event_ok (TakeResponse i) c \<longleftrightarrow> i < length (rc_ops c) \<and> send_over i c \<and>
     \<not> ro_failed (rc_ops c ! i) \<and> ro_taken (rc_ops c ! i) < length (ro_resp (rc_ops c ! i))"
| "event_ok (BeginUnsubscribe s) c \<longleftrightarrow> s < length (rc_heap c) \<and> cs_once (rc_heap c ! s) = OnceFree"
| "event_ok (EndUnsubscribe s) c \<longleftrightarrow> s < length (rc_heap c) \<and>
     (\<exists>i < length (rc_ops c). cs_once (rc_heap c ! s) = OnceCalling i \<and> send_over i c \<and>
        (ro_closed (rc_ops c ! i) \<or> ro_failed (rc_ops c ! i) \<or> 0 < ro_taken (rc_ops c ! i)))"
| "event_ok (ReadError e) c \<longleftrightarrow> rc_reading c \<and> settled c"
| "event_ok CloseClient c \<longleftrightarrow> settled c"

fun dispatch_step ::
  "string \<Rightarrow> (string \<Rightarrow> error + string) \<Rightarrow> (string \<Rightarrow> error + string \<times> string) \<Rightarrow> dispatch_event \<Rightarrow>
    rpc_client \<Rightarrow> dispatch_result" where
  "dispatch_step sfx ui un (AcceptCall ids) c = Some (Ret () (accept_op (new_op ids None) c))"
| "dispatch_step sfx ui un (AcceptSubscribe k) c =
     Some (Ret () (accept_op (new_op [k] (Some (length (rc_heap c))))
       (c\<lparr>rc_heap := rc_heap c @ [new_client_subscription]\<rparr>)))"
| "dispatch_step sfx ui un (AcceptUnsubscribe s k) c =
     Some (Ret () (accept_op (new_op [k] None)
       (upd_csub (cs_once_update (\<lambda>_. OnceCalling (length (rc_ops c)))) s c)))"
| "dispatch_step sfx ui un (WriteEnds e) c = Some (Ret () (write_ends e c))"
| "dispatch_step sfx ui un OfferConnection c = Some (Ret () (c\<lparr>rc_send := SendOffering\<rparr>))"
| "dispatch_step sfx ui un Reconnected c = Some (Ret () (c\<lparr>rc_send := SendWriting, rc_reading := True\<rparr>))"
| "dispatch_step sfx ui un OfferRefused c = Some (Ret () (write_ends (Some ErrClientQuit) c))"
| "dispatch_step sfx ui un (SendDone e) c = Some (send_done e c)"
| "dispatch_step sfx ui un (Incoming m) c =
     (if is_notification m then Some (Ret () (handle_notification sfx un m c))
      else if is_response m then handle_response ui m c
      else Some (Ret () c))"
| "dispatch_step sfx ui un (TakeResponse i) c = Some (Ret () (upd_op (ro_taken_update Suc) i c))"
| "dispatch_step sfx ui un (BeginUnsubscribe s) c =
     Some (Ret () (upd_csub (\<lambda>f. f\<lparr>cs_quit := True, cs_once := OnceRequesting\<rparr>) s c))"
| "dispatch_step sfx ui un (EndUnsubscribe s) c =
     Some (Ret () (upd_csub (cs_once_update (\<lambda>_. OnceDone)) s c))"
| "dispatch_step sfx ui un (ReadError e) c =
     map_option (\<lambda>r. case r of Ret u c' \<Rightarrow> Ret () (c'\<lparr>rc_reading := False\<rparr>) | Panic p c' \<Rightarrow> Panic p c')
       (close_request_ops e c)"
| "dispatch_step sfx ui un CloseClient c =
     map_option (\<lambda>r. case r of Ret u c' \<Rightarrow> Ret () (c'\<lparr>rc_quit := True\<rparr>) | Panic p c' \<Rightarrow> Panic p c')
       (close_request_ops ErrClientQuit c)"

text \<open>When the loop has ended the caller that holds the send lock still comes to its end.\<close>

fun sender_event :: "dispatch_event \<Rightarrow> bool" where
  "sender_event (WriteEnds e) = True"
| "sender_event OfferConnection = True"
| "sender_event OfferRefused = True"
| "sender_event ev = False"

inductive client_reach ::
  "string \<Rightarrow> (string \<Rightarrow> error + string) \<Rightarrow> (string \<Rightarrow> error + string \<times> string) \<Rightarrow> rpc_client \<Rightarrow> bool"
  for sfx ui un where
  reach_new: "client_reach sfx ui un new_client"
| reach_step: "client_reach sfx ui un c \<Longrightarrow> \<not> rc_quit c \<or> sender_event ev \<Longrightarrow> event_ok ev c \<Longrightarrow>
     dispatch_step sfx ui un ev c = Some (Ret () c') \<Longrightarrow> client_reach sfx ui un c'"

section \<open>Invariant\<close>

definition op_inv :: "string set \<Rightarrow> nat \<Rightarrow> (string \<times> nat) set \<Rightarrow> nat \<Rightarrow> request_op \<Rightarrow> bool" where
  "op_inv used n W i op \<longleftrightarrow> distinct (ro_ids op) \<and> set (ro_ids op) \<subseteq> used \<and>
     distinct (map jm_id (ro_resp op)) \<and> jm_id ` set (ro_resp op) \<subseteq> Some ` set (ro_ids op) \<and>
     ro_taken op \<le> length (ro_resp op) \<and>
     (\<forall>s. ro_sub op = Some s \<longrightarrow> s < n \<and> ro_resp op = [] \<and> length (ro_ids op) = 1) \<and>
     (\<not> ro_closed op \<and> \<not> ro_failed op \<longrightarrow>
        (\<forall>k \<in> set (ro_ids op). (k, i) \<in> W \<or> Some k \<in> jm_id ` set (ro_resp op)))"

definition wait_inv :: "request_op list \<Rightarrow> (string \<times> nat) set \<Rightarrow> bool" where
  "wait_inv ops W \<longleftrightarrow> (\<forall>(k, i) \<in> W. i < length ops \<and> k \<in> set (ro_ids (ops ! i)) \<and>
     \<not> ro_closed (ops ! i) \<and> Some k \<notin> jm_id ` set (ro_resp (ops ! i)))"

definition client_inv :: "rpc_client \<Rightarrow> bool" where
  "client_inv c \<longleftrightarrow> distinct (map fst (rc_respWait c)) \<and> wait_inv (rc_ops c) (set (rc_respWait c)) \<and>
     (\<forall>i < length (rc_ops c).
        op_inv (set (rc_used c)) (length (rc_heap c)) (set (rc_respWait c)) i (rc_ops c ! i)) \<and>
     (\<forall>i < length (rc_ops c). \<forall>j < length (rc_ops c). i \<noteq> j \<longrightarrow>
        set (ro_ids (rc_ops c ! i)) \<inter> set (ro_ids (rc_ops c ! j)) = {}) \<and>
     (\<forall>i. rc_lastOp c = Some i \<longrightarrow> i < length (rc_ops c)) \<and>
     (\<forall>s \<in> snd ` set (rc_subs c). s < length (rc_heap c)) \<and>
     (\<forall>s < length (rc_heap c). cs_once (rc_heap c ! s) = OnceFree \<or> cs_quit (rc_heap c ! s))"

lemma client_invD:
  assumes "client_inv c"
  shows "distinct (map fst (rc_respWait c))"
    and "(k, i) \<in> set (rc_respWait c) \<Longrightarrow> i < length (rc_ops c) \<and> k \<in> set (ro_ids (rc_ops c ! i)) \<and>
      \<not> ro_closed (rc_ops c ! i) \<and> Some k \<notin> jm_id ` set (ro_resp (rc_ops c ! i))"
    and "i < length (rc_ops c) \<Longrightarrow>
      op_inv (set (rc_used c)) (length (rc_heap c)) (set (rc_respWait c)) i (rc_ops c ! i)"
    and "rc_lastOp c = Some i \<Longrightarrow> i < length (rc_ops c)"
    and "s \<in> snd ` set (rc_subs c) \<Longrightarrow> s < length (rc_heap c)"
    and "s < length (rc_heap c) \<Longrightarrow> cs_once (rc_heap c ! s) = OnceFree \<or> cs_quit (rc_heap c ! s)"
    and "i < length (rc_ops c) \<Longrightarrow> j < length (rc_ops c) \<Longrightarrow> i \<noteq> j \<Longrightarrow>
      set (ro_ids (rc_ops c ! i)) \<inter> set (ro_ids (rc_ops c ! j)) = {}"
  using assms unfolding client_inv_def wait_inv_def by auto

section \<open>Maps and updates\<close>

lemma set_map_del [simp]: "set (map_del k m) = {p \<in> set m. fst p \<noteq> k}"
  by (auto simp: map_del_def)

lemma distinct_map_del: "distinct (map fst m) \<Longrightarrow> distinct (map fst (map_del k m))"
  by (simp add: map_del_def distinct_map_filter)

lemma set_map_put [simp]: "set (map_put k v m) = insert (k, v) {p \<in> set m. fst p \<noteq> k}"
  by (simp add: map_put_def)

lemma distinct_map_put: "distinct (map fst m) \<Longrightarrow> distinct (map fst (map_put k v m))"
  using distinct_map_del [of m k] by (auto simp: map_put_def)

lemma fold_map_put:
  "distinct (map fst m) \<Longrightarrow> distinct (map fst (fold (\<lambda>k. map_put k v) ks m)) \<and>
     set (fold (\<lambda>k. map_put k v) ks m) = {(k, v) | k. k \<in> set ks} \<union> {p \<in> set m. fst p \<notin> set ks}"
proof (induction ks arbitrary: m)
  case (Cons k ks)
  from Cons.IH [OF distinct_map_put [OF Cons.prems, of k v]] show ?case by auto
qed simp

lemma fold_map_del:
  "distinct (map fst m) \<Longrightarrow> distinct (map fst (fold map_del ks m)) \<and>
     set (fold map_del ks m) = {p \<in> set m. fst p \<notin> set ks}"
proof (induction ks arbitrary: m)
  case (Cons k ks)
  from Cons.IH [OF distinct_map_del [OF Cons.prems, of k]] show ?case by auto
qed simp

lemma upd_op_fields [simp]:
  "rc_ops (upd_op f i c) = (rc_ops c)[i := f (rc_ops c ! i)]" "rc_heap (upd_op f i c) = rc_heap c"
  "rc_respWait (upd_op f i c) = rc_respWait c" "rc_subs (upd_op f i c) = rc_subs c"
  "rc_lastOp (upd_op f i c) = rc_lastOp c" "rc_used (upd_op f i c) = rc_used c"
  "rc_reading (upd_op f i c) = rc_reading c" "rc_quit (upd_op f i c) = rc_quit c" "rc_send (upd_op f i c) = rc_send c"
  by (simp_all add: upd_op_def)

lemma upd_csub_fields [simp]:
  "rc_heap (upd_csub f s c) = (rc_heap c)[s := f (rc_heap c ! s)]" "rc_ops (upd_csub f s c) = rc_ops c"
  "rc_respWait (upd_csub f s c) = rc_respWait c" "rc_subs (upd_csub f s c) = rc_subs c"
  "rc_lastOp (upd_csub f s c) = rc_lastOp c" "rc_used (upd_csub f s c) = rc_used c"
  "rc_reading (upd_csub f s c) = rc_reading c" "rc_quit (upd_csub f s c) = rc_quit c" "rc_send (upd_csub f s c) = rc_send c"
  by (simp_all add: upd_csub_def)

section \<open>Accepting operations\<close>

lemma new_client_inv: "client_inv new_client"
  by (simp add: client_inv_def new_client_def wait_inv_def)

lemma op_inv_mono:
  "op_inv used n W i op \<Longrightarrow> used \<subseteq> used' \<Longrightarrow> n \<le> n' \<Longrightarrow> (\<And>k. (k, i) \<in> W \<Longrightarrow> (k, i) \<in> W') \<Longrightarrow>
     op_inv used' n' W' i op"
  unfolding op_inv_def by (meson order_trans less_le_trans)

lemma new_op_ids: "ro_ids (new_op ids s) = ids"
  by (simp add: new_op_def)

lemma accept_op_inv:
  assumes "client_inv c" "fresh_ids_for ids c"
    and "\<forall>t. s = Some t \<longrightarrow> t < length (rc_heap c) \<and> length ids = 1"
  shows "client_inv (accept_op (new_op ids s) c)"
proof -
  let ?c = "accept_op (new_op ids s) c"
  note i = client_invD [OF assms(1)]
  have used: "fst ` set (rc_respWait c) \<subseteq> set (rc_used c)"
  proof clarsimp
    fix k j assume "(k, j) \<in> set (rc_respWait c)"
    from i(2) [OF this] i(3) [of j] show "k \<in> set (rc_used c)" by (auto simp: op_inv_def)
  qed
  have keep: "{p \<in> set (rc_respWait c). fst p \<notin> set ids} = set (rc_respWait c)"
    using used assms(2) by (auto simp: fresh_ids_for_def)
  have W: "distinct (map fst (rc_respWait ?c))"
    "set (rc_respWait ?c) = {(k, length (rc_ops c)) | k. k \<in> set ids} \<union> set (rc_respWait c)"
    using fold_map_put [OF i(1), of "length (rc_ops c)" ids] keep by (simp_all add: accept_op_def new_op_def)
  have ops: "rc_ops ?c = rc_ops c @ [new_op ids s]" "rc_heap ?c = rc_heap c" "rc_used ?c = ids @ rc_used c"
    "rc_subs ?c = rc_subs c" "rc_lastOp ?c = Some (length (rc_ops c))"
    by (simp_all add: accept_op_def new_op_def)
  have "wait_inv (rc_ops ?c) (set (rc_respWait ?c))"
    unfolding wait_inv_def W(2) ops using i(2) by (auto simp: nth_append new_op_def dest: less_imp_le)
  moreover have "op_inv (set (rc_used ?c)) (length (rc_heap ?c)) (set (rc_respWait ?c)) j (rc_ops ?c ! j)"
    if "j < length (rc_ops ?c)" for j
  proof (cases "j < length (rc_ops c)")
    case True
    from op_inv_mono [OF i(3) [OF True]] True show ?thesis unfolding W(2) ops by (simp add: nth_append)
  next
    case False
    with that have "j = length (rc_ops c)" by (simp add: ops)
    then show ?thesis using assms(2,3) unfolding W(2) ops
      by (auto simp: op_inv_def new_op_def fresh_ids_for_def)
  qed
  moreover have "set (ro_ids (rc_ops ?c ! a)) \<inter> set (ro_ids (rc_ops ?c ! b)) = {}"
    if ab: "a < length (rc_ops ?c)" "b < length (rc_ops ?c)" "a \<noteq> b" for a b
  proof -
    have old: "set (ro_ids (rc_ops c ! j)) \<inter> set ids = {}" if "j < length (rc_ops c)" for j
      using i(3) [OF that] assms(2) by (auto simp: op_inv_def fresh_ids_for_def)
    consider "a < length (rc_ops c)" "b < length (rc_ops c)" | "a < length (rc_ops c)" "b = length (rc_ops c)"
      | "b < length (rc_ops c)" "a = length (rc_ops c)" using ab by (force simp: ops)
    then show ?thesis using i(7) [of a b] old [of a] old [of b] ab(3)
      by cases (auto simp: ops nth_append new_op_ids)
  qed
  ultimately show ?thesis
    using W(1) i(5,6) by (auto simp: client_inv_def ops)
qed

section \<open>The other branches\<close>

lemma upd_csub_inv:
  assumes "client_inv c" "s < length (rc_heap c) \<Longrightarrow> cs_once (f (rc_heap c ! s)) = OnceFree \<or> cs_quit (f (rc_heap c ! s))"
  shows "client_inv (upd_csub f s c)"
proof -
  have "\<forall>t < length (rc_heap c). cs_once ((rc_heap c)[s := f (rc_heap c ! s)] ! t) = OnceFree \<or>
      cs_quit ((rc_heap c)[s := f (rc_heap c ! s)] ! t)"
  proof (intro allI impI)
    fix t assume "t < length (rc_heap c)"
    with client_invD(6) [OF assms(1)] assms(2)
    show "cs_once ((rc_heap c)[s := f (rc_heap c ! s)] ! t) = OnceFree \<or>
      cs_quit ((rc_heap c)[s := f (rc_heap c ! s)] ! t)" by (cases "t = s") auto
  qed
  with assms(1) show ?thesis by (simp add: client_inv_def)
qed

lemma upd_op_inv:
  assumes "client_inv c" "i < length (rc_ops c)"
    and "op_inv (set (rc_used c)) (length (rc_heap c)) W i (f (rc_ops c ! i))"
    and "distinct (map fst m)" "set m = W" "W \<subseteq> set (rc_respWait c)"
    and "\<And>k. (k, i) \<in> W \<Longrightarrow> k \<in> set (ro_ids (f (rc_ops c ! i))) \<and> \<not> ro_closed (f (rc_ops c ! i)) \<and>
      Some k \<notin> jm_id ` set (ro_resp (f (rc_ops c ! i)))"
    and "\<And>k j. (k, j) \<in> set (rc_respWait c) \<Longrightarrow> j \<noteq> i \<Longrightarrow> (k, j) \<in> W"
    and "\<forall>j. l = Some j \<longrightarrow> j < length (rc_ops c)" "ro_ids (f (rc_ops c ! i)) = ro_ids (rc_ops c ! i)"
  shows "client_inv ((upd_op f i c)\<lparr>rc_respWait := m, rc_lastOp := l\<rparr>)"
proof -
  note v = client_invD [OF assms(1)]
  have "wait_inv ((rc_ops c)[i := f (rc_ops c ! i)]) W"
    unfolding wait_inv_def
  proof (intro ballI case_prodI2 impI)
    fix p k j assume "p \<in> W" "p = (k, j)"
    with v(2) [of k j] assms(2,6,7) show "j < length ((rc_ops c)[i := f (rc_ops c ! i)]) \<and>
      k \<in> set (ro_ids ((rc_ops c)[i := f (rc_ops c ! i)] ! j)) \<and>
      \<not> ro_closed ((rc_ops c)[i := f (rc_ops c ! i)] ! j) \<and>
      Some k \<notin> jm_id ` set (ro_resp ((rc_ops c)[i := f (rc_ops c ! i)] ! j))"
      by (cases "j = i") (simp_all add: subset_iff)
  qed
  moreover have "op_inv (set (rc_used c)) (length (rc_heap c)) W j ((rc_ops c)[i := f (rc_ops c ! i)] ! j)"
    if "j < length (rc_ops c)" for j
  proof (cases "j = i")
    case False
    with op_inv_mono [OF v(3) [OF that] order_refl order_refl, of W] assms(8) show ?thesis by simp
  qed (use assms(2,3) in simp)
  moreover have "ro_ids ((rc_ops c)[i := f (rc_ops c ! i)] ! j) = ro_ids (rc_ops c ! j)" for j
    using assms(2,10) by (cases "j = i") simp_all
  ultimately show ?thesis using assms(4,5,9) v(5-7) by (auto simp: client_inv_def)
qed

lemma write_ends_inv:
  assumes "client_inv c"
  shows "client_inv (write_ends e c)"
proof (cases "e = None \<or> rc_lastOp c = None")
  case True
  with assms show ?thesis by (auto simp: write_ends_def client_inv_def split: option.split)
next
  case False
  then obtain err i where i: "e = Some err" "rc_lastOp c = Some i" by auto
  note v = client_invD [OF assms]
  let ?f = "ro_failed_update (\<lambda>_. True)"
  have "client_inv ((upd_op ?f i c)\<lparr>rc_respWait := rc_respWait c, rc_lastOp := rc_lastOp c\<rparr>)"
  proof (rule upd_op_inv [OF assms v(4) [OF i(2)], where W = "set (rc_respWait c)"])
    show "op_inv (set (rc_used c)) (length (rc_heap c)) (set (rc_respWait c)) i (?f (rc_ops c ! i))"
      using v(3) [OF v(4) [OF i(2)]] by (simp add: op_inv_def)
  qed (use v in auto)
  then show ?thesis by (simp add: i write_ends_def client_inv_def upd_op_def)
qed

lemma send_done_ok:
  assumes "client_inv c" "rc_lastOp c \<noteq> None"
  obtains c' where "send_done e c = Ret () c'" "client_inv c'"
proof (cases e)
  case None
  with assms(1) that show thesis by (simp add: send_done_def client_inv_def)
next
  case (Some err)
  from assms(2) obtain i where i: "rc_lastOp c = Some i" by auto
  note v = client_invD [OF assms(1)]
  let ?m = "fold map_del (ro_ids (rc_ops c ! i)) (rc_respWait c)"
  have W: "distinct (map fst ?m)" "set ?m = {p \<in> set (rc_respWait c). fst p \<notin> set (ro_ids (rc_ops c ! i))}"
    using fold_map_del [OF v(1)] by simp_all
  have uniq: "(k, j) \<in> set ?m" if kj: "(k, j) \<in> set (rc_respWait c)" "j \<noteq> i" for k j
    using v(2) [OF kj(1)] v(4) [OF i] v(7) [of j i] kj W(2) by auto
  have none: "(k, i) \<notin> set ?m" for k
    using v(2) [of k i] W(2) by auto
  have "op_inv (set (rc_used c)) (length (rc_heap c)) (set ?m) i ((rc_ops c ! i)\<lparr>ro_failed := True\<rparr>)"
    using v(3) [OF v(4) [OF i]] by (simp add: op_inv_def)
  then have "client_inv ((upd_op (ro_failed_update (\<lambda>_. True)) i c)\<lparr>rc_respWait := ?m, rc_lastOp := None\<rparr>)"
    by (intro upd_op_inv [where W = "set ?m"]) (use assms(1) v(4) [OF i] W uniq none in auto)
  with that Some i show thesis by (simp add: send_done_def)
qed

lemma close_resp_simps:
  "\<not> ro_closed (rc_ops c ! i) \<Longrightarrow> close_resp i c = Ret () (upd_op (ro_closed_update (\<lambda>_. True)) i c)"
  by (simp add: close_resp_def)

text \<open>A response takes its identifier out of the map.\<close>

lemma response_wait:
  assumes "client_inv c" "map_of (rc_respWait c) k = Some i"
  shows "(k, i) \<in> set (rc_respWait c)" "i < length (rc_ops c)"
    "(x, j) \<in> set (rc_respWait c) \<Longrightarrow> j \<noteq> i \<Longrightarrow> x \<noteq> k"
    "(x, j) \<in> set (map_del k (rc_respWait c)) \<longleftrightarrow> (x, j) \<in> set (rc_respWait c) \<and> x \<noteq> k"
proof -
  note v = client_invD [OF assms(1)]
  show ki: "(k, i) \<in> set (rc_respWait c)" using assms(2) by (rule map_of_SomeD)
  with v(2) show "i < length (rc_ops c)" by blast
  show "(x, j) \<in> set (rc_respWait c) \<Longrightarrow> j \<noteq> i \<Longrightarrow> x \<noteq> k"
    using ki v(1) by (metis assms(2) map_of_eq_Some_iff option.inject)
qed auto

lemma room_for_response:
  assumes "client_inv c" "map_of (rc_respWait c) k = Some i"
  shows "length (ro_resp (rc_ops c ! i)) < length (ro_ids (rc_ops c ! i))"
proof -
  note v = client_invD [OF assms(1)] and w = response_wait [OF assms]
  let ?op = "rc_ops c ! i"
  from v(3) [OF w(2)] have o: "distinct (ro_ids ?op)" "distinct (map jm_id (ro_resp ?op))"
    "jm_id ` set (ro_resp ?op) \<subseteq> Some ` set (ro_ids ?op)" by (auto simp: op_inv_def)
  from v(2) [OF w(1)] have k: "k \<in> set (ro_ids ?op)" "Some k \<notin> jm_id ` set (ro_resp ?op)" by auto
  have "jm_id ` set (ro_resp ?op) \<subset> Some ` set (ro_ids ?op)" using o(3) k by auto
  then have "card (jm_id ` set (ro_resp ?op)) < card (Some ` set (ro_ids ?op))"
    by (intro psubset_card_mono) auto
  with o(1,2) show ?thesis
    by (metis card_image distinct_card inj_Some length_map set_map)
qed

text \<open>A response of a call is put into its channel; one of a subscription closes it, with an error or a name.\<close>

lemma call_response_ok:
  assumes "client_inv c" "jm_id msg = Some k" "map_of (rc_respWait c) k = Some i" "ro_sub (rc_ops c ! i) = None"
  obtains c' where "handle_response ui msg c = Some (Ret () c')" "client_inv c'"
proof -
  note v = client_invD [OF assms(1)] and w = response_wait [OF assms(1,3)]
  let ?m = "map_del k (rc_respWait c)" and ?op = "rc_ops c ! i" and ?f = "ro_resp_update (\<lambda>r. r @ [msg])"
  from v(2) [OF w(1)] have op: "\<not> ro_closed ?op" "k \<in> set (ro_ids ?op)" "Some k \<notin> jm_id ` set (ro_resp ?op)" by auto
  have "client_inv ((upd_op ?f i c)\<lparr>rc_respWait := ?m, rc_lastOp := rc_lastOp c\<rparr>)"
  proof (rule upd_op_inv [OF assms(1) w(2), where W = "set ?m"])
    show "op_inv (set (rc_used c)) (length (rc_heap c)) (set ?m) i (?f ?op)"
      using v(3) [OF w(2)] op assms(2,4) by (auto simp: op_inv_def)
    show "\<And>x. (x, i) \<in> set ?m \<Longrightarrow> x \<in> set (ro_ids (?f ?op)) \<and> \<not> ro_closed (?f ?op) \<and>
        Some x \<notin> jm_id ` set (ro_resp (?f ?op))"
      using v(2) [of _ i] assms(2) by auto
  qed (use v(1,4) distinct_map_del w(3) in auto)
  moreover have "(upd_op ?f i c)\<lparr>rc_respWait := ?m, rc_lastOp := rc_lastOp c\<rparr> = upd_op ?f i (c\<lparr>rc_respWait := ?m\<rparr>)"
    by (intro rpc_client.equality) simp_all
  ultimately have "client_inv (upd_op ?f i (c\<lparr>rc_respWait := ?m\<rparr>))" by simp
  moreover have "handle_response ui msg c = Some (Ret () (upd_op ?f i (c\<lparr>rc_respWait := ?m\<rparr>)))"
    using assms(2-4) op(1) room_for_response [OF assms(1,3)] by (simp add: handle_response_def Let_def)
  ultimately show thesis using that by blast
qed

lemma subscribe_response_ok:
  assumes "client_inv c" "jm_id msg = Some k" "map_of (rc_respWait c) k = Some i" "ro_sub (rc_ops c ! i) = Some s"
  obtains c' where "handle_response ui msg c = Some (Ret () c')" "client_inv c'"
proof -
  note v = client_invD [OF assms(1)] and w = response_wait [OF assms(1,3)]
  let ?m = "map_del k (rc_respWait c)" and ?op = "rc_ops c ! i"
  let ?closed = "\<lambda>e. (upd_op (\<lambda>r. r\<lparr>ro_err := e, ro_closed := True\<rparr>) i c)\<lparr>rc_respWait := ?m, rc_lastOp := rc_lastOp c\<rparr>"
  from v(2) [OF w(1)] have op: "\<not> ro_closed ?op" "k \<in> set (ro_ids ?op)" by auto
  note o = v(3) [OF w(2), unfolded op_inv_def]
  have one: "ro_resp ?op = []" "s < length (rc_heap c)" "ro_ids ?op = [k]"
    using o op(2) assms(4) by (auto simp: length_Suc_conv)
  have none: "(x, i) \<notin> set ?m" for x using v(2) [of x i] one(3) by auto
  have inv: "client_inv (?closed e)" for e
    by (rule upd_op_inv [OF assms(1) w(2), where W = "set ?m"])
      (use o v(1,4) distinct_map_del w(3) none in \<open>auto simp: op_inv_def\<close>)
  show thesis
  proof (cases "case jm_error msg of Some e \<Rightarrow> Inl e | None \<Rightarrow> ui (jm_result msg)")
    case (Inl e)
    then have "handle_response ui msg c = Some (Ret () (?closed (Some e)))"
      using assms(2-4) op(1) w(2) by (simp add: handle_response_def close_resp_def upd_op_def)
    with inv that show thesis by blast
  next
    case (Inr sid)
    let ?c = "(upd_csub (cs_subid_update (\<lambda>_. sid)) s (?closed (ro_err ?op)))\<lparr>rc_subs := map_put sid s (rc_subs c)\<rparr>"
    have "client_inv (upd_csub (cs_subid_update (\<lambda>_. sid)) s (?closed (ro_err ?op)))"
      using v(6) by (intro upd_csub_inv [OF inv]) simp
    then have "client_inv ?c" using one(2) v(5) unfolding client_inv_def by auto
    moreover have "handle_response ui msg c = Some (Ret () ?c)"
      using assms(2-4) Inr op(1) w(2) by (simp add: handle_response_def close_resp_def upd_op_def upd_csub_def)
    ultimately show thesis by (rule that [rotated])
  qed
qed

lemma handle_response_ok:
  assumes "client_inv c"
  obtains c' where "handle_response ui msg c = Some (Ret () c')" "client_inv c'"
proof (cases "case jm_id msg of None \<Rightarrow> None | Some k \<Rightarrow> map_of (rc_respWait c) k")
  case None
  with assms that show thesis by (auto simp: handle_response_def split: option.splits)
next
  case (Some i)
  then obtain k where k: "jm_id msg = Some k" "map_of (rc_respWait c) k = Some i"
    by (auto split: option.splits)
  show thesis
  proof (cases "ro_sub (rc_ops c ! i)")
    case None
    show thesis by (rule call_response_ok [OF assms k None]) (rule that)
  next
    case (Some s)
    show thesis by (rule subscribe_response_ok [OF assms k Some]) (rule that)
  qed
qed

lemma handle_notification_inv:
  assumes "client_inv c"
  shows "client_inv (handle_notification sfx un msg c)"
proof -
  have "client_inv (upd_csub (cs_in_update f) s c)" for f s
    using client_invD(6) [OF assms, of s] by (intro upd_csub_inv [OF assms]) simp
  with assms show ?thesis by (auto simp: handle_notification_def split: sum.split option.split)
qed

section \<open>Closing everything\<close>

definition closed_with :: "error \<Rightarrow> request_op \<Rightarrow> request_op" where
  "closed_with e op = op\<lparr>ro_err := Some e, ro_closed := True\<rparr>"

lemma close_ops_effect:
  assumes "distinct is" "\<forall>i \<in> set is. i < length (rc_ops c) \<and> \<not> ro_closed (rc_ops c ! i)"
  shows "\<exists>ops. close_ops e is c = Ret () (c\<lparr>rc_ops := ops\<rparr>) \<and> length ops = length (rc_ops c) \<and>
    (\<forall>i < length ops. ops ! i = (if i \<in> set is then closed_with e (rc_ops c ! i) else rc_ops c ! i))"
  using assms
proof (induction "is" arbitrary: c)
  case Nil
  show ?case by (intro exI [of _ "rc_ops c"]) simp
next
  case (Cons i js)
  let ?c = "c\<lparr>rc_ops := (rc_ops c)[i := closed_with e (rc_ops c ! i)]\<rparr>"
  have step: "close_ops e (i # js) c = close_ops e js ?c"
    using Cons.prems(2) by (simp add: close_resp_def upd_op_def closed_with_def)
  obtain ops where ops: "close_ops e js ?c = Ret () (?c\<lparr>rc_ops := ops\<rparr>)" "length ops = length (rc_ops c)"
    "\<forall>j < length ops. ops ! j = (if j \<in> set js then closed_with e (rc_ops ?c ! j) else rc_ops ?c ! j)"
  proof -
    have "\<forall>k \<in> set js. k < length (rc_ops ?c) \<and> \<not> ro_closed (rc_ops ?c ! k)"
    proof
      fix k assume "k \<in> set js"
      with Cons.prems show "k < length (rc_ops ?c) \<and> \<not> ro_closed (rc_ops ?c ! k)" by (cases "k = i") auto
    qed
    from Cons.IH [OF _ this] Cons.prems(1) that show thesis by auto
  qed
  have "ops ! j = (if j \<in> set (i # js) then closed_with e (rc_ops c ! j) else rc_ops c ! j)" if "j < length ops" for j
    using ops(2,3) that Cons.prems(1) by (cases "j = i") auto
  with step ops(1,2) show ?case by (intro exI [of _ ops]) simp
qed

text \<open>The subscriptions at whose \<open>quitOnce\<close> the loop waits for a goroutine that waits for the loop, or still writes.\<close>

definition quit_blocks :: "nat \<Rightarrow> rpc_client \<Rightarrow> bool" where
  "quit_blocks s c \<longleftrightarrow> (case cs_once (rc_heap c ! s) of
      OnceRequesting \<Rightarrow> True
    | OnceCalling i \<Rightarrow> \<not> send_over i c
    | _ \<Rightarrow> False)"

lemma quit_blocks_cong:
  "cs_once (rc_heap c' ! s) = cs_once (rc_heap c ! s) \<Longrightarrow> rc_lastOp c' = rc_lastOp c \<Longrightarrow> rc_send c' = rc_send c \<Longrightarrow>
     quit_blocks s c' = quit_blocks s c"
  by (cases "cs_once (rc_heap c ! s)") (simp_all add: quit_blocks_def send_over_def)

lemma quit_with_error_effect:
  "quit_with_error e s c = None \<longleftrightarrow> quit_blocks s c"
  "quit_with_error e s c = Some c' \<Longrightarrow> \<exists>h. c' = c\<lparr>rc_heap := (rc_heap c)[s := h]\<rparr> \<and> cs_once h = OnceDone \<and>
     (cs_once (rc_heap c ! s) = OnceFree \<or> cs_quit (rc_heap c ! s) \<longrightarrow> cs_quit h)"
proof -
  show "quit_with_error e s c = None \<longleftrightarrow> quit_blocks s c"
    by (simp add: quit_with_error_def quit_blocks_def split: once.split)
  assume a: "quit_with_error e s c = Some c'"
  show "\<exists>h. c' = c\<lparr>rc_heap := (rc_heap c)[s := h]\<rparr> \<and> cs_once h = OnceDone \<and>
     (cs_once (rc_heap c ! s) = OnceFree \<or> cs_quit (rc_heap c ! s) \<longrightarrow> cs_quit h)"
  proof (cases "cs_once (rc_heap c ! s)")
    case OnceDone
    with a show ?thesis by (intro exI [of _ "rc_heap c ! s"]) (simp add: quit_with_error_def)
  qed (use a in \<open>auto simp: quit_with_error_def upd_csub_def split: if_splits\<close>)
qed

definition heap_ok :: "client_sub list \<Rightarrow> bool" where
  "heap_ok h \<longleftrightarrow> (\<forall>s < length h. cs_once (h ! s) = OnceFree \<or> cs_quit (h ! s))"

lemma quit_with_error_heap:
  assumes "quit_with_error e s c = Some c'" "heap_ok (rc_heap c)" "s < length (rc_heap c)"
  obtains f where "c' = c\<lparr>rc_heap := (rc_heap c)[s := f]\<rparr>" "cs_once f = OnceDone" "cs_quit f"
    "heap_ok (rc_heap c')"
proof -
  from quit_with_error_effect(2) [OF assms(1)] obtain f where
    f: "c' = c\<lparr>rc_heap := (rc_heap c)[s := f]\<rparr>" "cs_once f = OnceDone"
    "cs_once (rc_heap c ! s) = OnceFree \<or> cs_quit (rc_heap c ! s) \<longrightarrow> cs_quit f" by blast
  with assms(2,3) have q: "cs_quit f" unfolding heap_ok_def by blast
  have "heap_ok ((rc_heap c)[s := f])"
    unfolding heap_ok_def
  proof (intro allI impI)
    fix t assume "t < length ((rc_heap c)[s := f])"
    with assms(2) q show "cs_once ((rc_heap c)[s := f] ! t) = OnceFree \<or> cs_quit ((rc_heap c)[s := f] ! t)"
      by (cases "t = s") (auto simp: heap_ok_def)
  qed
  with f q that show thesis by simp
qed

lemma quit_subs_blocks:
  assumes "heap_ok (rc_heap c)" "\<forall>s \<in> set ss. s < length (rc_heap c)"
  shows "quit_subs e ss c = None \<longleftrightarrow> (\<exists>s \<in> set ss. quit_blocks s c)"
  using assms
proof (induction ss arbitrary: c)
  case (Cons s ss)
  show ?case
  proof (cases "quit_with_error e s c")
    case None
    with quit_with_error_effect(1) [of e s c] show ?thesis by simp
  next
    case (Some c1)
    have s: "s < length (rc_heap c)" using Cons.prems(2) by simp
    obtain f where f: "c1 = c\<lparr>rc_heap := (rc_heap c)[s := f]\<rparr>" "cs_once f = OnceDone" "heap_ok (rc_heap c1)"
      by (rule quit_with_error_heap [OF Some Cons.prems(1) s])
    have once: "\<not> quit_blocks s c"
      using quit_with_error_effect(1) [of e s c] Some by simp
    have same: "quit_blocks t c1 = quit_blocks t c" for t
    proof (cases "t = s")
      case True
      with f(1,2) s once show ?thesis by (simp add: quit_blocks_def)
    next
      case False
      with f(1) show ?thesis by (intro quit_blocks_cong) simp_all
    qed
    have "quit_subs e ss c1 = None \<longleftrightarrow> (\<exists>s \<in> set ss. quit_blocks s c1)"
      using Cons.prems(2) f by (intro Cons.IH) simp_all
    with Some once same show ?thesis by simp
  qed
qed simp

lemma quit_subs_quits:
  assumes "quit_subs e ss c = Some c'" "heap_ok (rc_heap c)" "\<forall>s \<in> set ss. s < length (rc_heap c)"
  shows "\<exists>h. c' = c\<lparr>rc_heap := h\<rparr> \<and> length h = length (rc_heap c) \<and> heap_ok h \<and>
    (\<forall>s < length h. s \<in> set ss \<or> cs_quit (rc_heap c ! s) \<longrightarrow> cs_quit (h ! s))"
  using assms
proof (induction ss arbitrary: c)
  case Nil
  then show ?case by (intro exI [of _ "rc_heap c"]) simp
next
  case (Cons s ss)
  from Cons.prems(1) obtain c1 where c1: "quit_with_error e s c = Some c1" "quit_subs e ss c1 = Some c'"
    by (auto split: option.splits)
  have s: "s < length (rc_heap c)" using Cons.prems(3) by simp
  obtain f where f: "c1 = c\<lparr>rc_heap := (rc_heap c)[s := f]\<rparr>" "cs_quit f" "heap_ok (rc_heap c1)"
    by (rule quit_with_error_heap [OF c1(1) Cons.prems(2) s])
  have "\<forall>t \<in> set ss. t < length (rc_heap c1)" using Cons.prems(3) f(1) by simp
  from Cons.IH [OF c1(2) f(3) this] obtain h where h: "c' = c1\<lparr>rc_heap := h\<rparr>" "length h = length (rc_heap c1)"
    "heap_ok h" "\<forall>t < length h. t \<in> set ss \<or> cs_quit (rc_heap c1 ! t) \<longrightarrow> cs_quit (h ! t)" by blast
  have "cs_quit (h ! t)" if t: "t < length h" "t \<in> set (s # ss) \<or> cs_quit (rc_heap c ! t)" for t
  proof -
    have "t \<in> set ss \<or> cs_quit (rc_heap c1 ! t)"
      using t f(1,2) s by (cases "t = s") auto
    with h(4) t(1) show ?thesis by blast
  qed
  with h f(1) show ?case by (intro exI [of _ h]) simp
qed

lemma client_inv_heap_ok: "client_inv c \<Longrightarrow> heap_ok (rc_heap c)"
  by (simp add: client_inv_def heap_ok_def)

text \<open>What \<open>closeRequestOps\<close> does, and when it blocks.\<close>

lemma close_request_ops_cases:
  assumes "client_inv c"
  obtains
    (blocked) "close_request_ops e c = None" "\<exists>s \<in> snd ` set (rc_subs c). quit_blocks s c"
  | (closed) ops h where
      "close_request_ops e c = Some (Ret () (c\<lparr>rc_ops := ops, rc_heap := h, rc_respWait := [], rc_subs := []\<rparr>))"
      "\<not> (\<exists>s \<in> snd ` set (rc_subs c). quit_blocks s c)"
      "length ops = length (rc_ops c)" "length h = length (rc_heap c)" "heap_ok h"
      "\<And>i. i < length ops \<Longrightarrow> ops ! i = (if i \<in> snd ` set (rc_respWait c) then closed_with e (rc_ops c ! i) else rc_ops c ! i)"
      "\<And>s. s \<in> snd ` set (rc_subs c) \<Longrightarrow> cs_quit (h ! s)"
proof -
  note v = client_invD [OF assms]
  let ?is = "remdups (map snd (rc_respWait c))"
  have pre: "\<forall>i \<in> set ?is. i < length (rc_ops (c\<lparr>rc_respWait := []\<rparr>)) \<and> \<not> ro_closed (rc_ops (c\<lparr>rc_respWait := []\<rparr>) ! i)"
    using v(2) by auto
  from close_ops_effect [OF distinct_remdups pre, of e] obtain ops where
    ops: "close_ops e ?is (c\<lparr>rc_respWait := []\<rparr>) = Ret () (c\<lparr>rc_respWait := [], rc_ops := ops\<rparr>)"
    "length ops = length (rc_ops c)"
    "\<forall>i < length ops. ops ! i = (if i \<in> set ?is then closed_with e (rc_ops c ! i) else rc_ops c ! i)"
    by auto
  let ?c = "c\<lparr>rc_respWait := [], rc_ops := ops, rc_subs := []\<rparr>" and ?ss = "map snd (rc_subs c)"
  have ev: "close_request_ops e c = map_option (Ret ()) (quit_subs e ?ss ?c)"
    by (simp add: close_request_ops_def ops(1))
  have hp: "heap_ok (rc_heap ?c)" "\<forall>s \<in> set ?ss. s < length (rc_heap ?c)"
    using client_inv_heap_ok [OF assms] v(5) by auto
  have same: "quit_blocks s ?c = quit_blocks s c" for s by (rule quit_blocks_cong) simp_all
  note blocks = quit_subs_blocks [OF hp, of e, unfolded same]
  show thesis
  proof (cases "quit_subs e ?ss ?c")
    case None
    with blocks have "\<exists>s \<in> snd ` set (rc_subs c). quit_blocks s c" by simp
    with ev None show thesis by (intro blocked) simp_all
  next
    case (Some c')
    from quit_subs_quits [OF Some hp] obtain h where
      h: "c' = ?c\<lparr>rc_heap := h\<rparr>" "length h = length (rc_heap c)" "heap_ok h"
      "\<forall>s < length h. s \<in> set ?ss \<or> cs_quit (rc_heap ?c ! s) \<longrightarrow> cs_quit (h ! s)" by auto
    have "close_request_ops e c = Some (Ret () (c\<lparr>rc_ops := ops, rc_heap := h, rc_respWait := [], rc_subs := []\<rparr>))"
      using ev Some h(1) by simp
    moreover have "\<not> (\<exists>s \<in> snd ` set (rc_subs c). quit_blocks s c)"
      using blocks Some by auto
    moreover have "cs_quit (h ! s)" if "s \<in> snd ` set (rc_subs c)" for s
      using h(2,4) v(5) [OF that] that by auto
    ultimately show thesis using ops(2,3) h(2,3) by (intro closed [of h ops]) auto
  qed
qed

lemma close_request_ops_inv:
  assumes "client_inv c" "close_request_ops e c = Some (Ret () c')"
  shows "client_inv c'"
  using assms(1)
proof (cases rule: close_request_ops_cases [where e = e])
  case (closed ops h)
  note v = client_invD [OF assms(1)]
  from closed(1) assms(2) have c': "c' = c\<lparr>rc_ops := ops, rc_heap := h, rc_respWait := [], rc_subs := []\<rparr>" by simp
  have ids: "ro_ids (ops ! i) = ro_ids (rc_ops c ! i)" if "i < length ops" for i
    using closed(6) [OF that] by (simp add: closed_with_def)
  have "op_inv (set (rc_used c)) (length h) {} i (ops ! i)" if i: "i < length ops" for i
  proof -
    have o: "op_inv (set (rc_used c)) (length (rc_heap c)) (set (rc_respWait c)) i (rc_ops c ! i)"
      using v(3) i closed(3) by simp
    show ?thesis
    proof (cases "i \<in> snd ` set (rc_respWait c)")
      case True
      with closed(6) [OF i] have "ops ! i = closed_with e (rc_ops c ! i)" by simp
      with o show ?thesis using closed(4) by (simp add: op_inv_def closed_with_def)
    next
      case False
      with closed(6) [OF i] have "ops ! i = rc_ops c ! i" by simp
      moreover have "(k, i) \<notin> set (rc_respWait c)" for k using False by force
      ultimately show ?thesis using o closed(4) by (simp add: op_inv_def)
    qed
  qed
  moreover have "set (ro_ids (ops ! i)) \<inter> set (ro_ids (ops ! j)) = {}"
    if "i < length ops" "j < length ops" "i \<noteq> j" for i j
    using v(7) [of i j] ids that closed(3) by simp
  moreover have "\<forall>s < length h. cs_once (h ! s) = OnceFree \<or> cs_quit (h ! s)"
    using closed(5) by (simp add: heap_ok_def)
  ultimately show ?thesis using closed(3) v(4) unfolding c' client_inv_def wait_inv_def by simp
qed (use assms(2) in simp)

section \<open>Reachable states\<close>

lemma append_sub_inv:
  assumes "client_inv c"
  shows "client_inv (c\<lparr>rc_heap := rc_heap c @ [new_client_subscription]\<rparr>)"
proof -
  note v = client_invD [OF assms]
  have "op_inv (set (rc_used c)) (Suc (length (rc_heap c))) (set (rc_respWait c)) i (rc_ops c ! i)"
    if "i < length (rc_ops c)" for i
    by (rule op_inv_mono [OF v(3) [OF that]]) auto
  moreover have "cs_once ((rc_heap c @ [new_client_subscription]) ! s) = OnceFree \<or>
      cs_quit ((rc_heap c @ [new_client_subscription]) ! s)" if "s < Suc (length (rc_heap c))" for s
    using v(6) that by (auto simp: nth_append new_client_subscription_def less_Suc_eq)
  moreover have "wait_inv (rc_ops c) (set (rc_respWait c))" using assms by (simp add: client_inv_def)
  ultimately show ?thesis using v(1,4,5,7) by (simp add: client_inv_def less_Suc_eq)
qed

lemma take_response_inv:
  assumes "client_inv c" "i < length (rc_ops c)" "ro_taken (rc_ops c ! i) < length (ro_resp (rc_ops c ! i))"
  shows "client_inv (upd_op (ro_taken_update Suc) i c)"
proof -
  note v = client_invD [OF assms(1)]
  have "client_inv ((upd_op (ro_taken_update Suc) i c)\<lparr>rc_respWait := rc_respWait c, rc_lastOp := rc_lastOp c\<rparr>)"
  proof (rule upd_op_inv [OF assms(1,2), where W = "set (rc_respWait c)"])
    show "op_inv (set (rc_used c)) (length (rc_heap c)) (set (rc_respWait c)) i (ro_taken_update Suc (rc_ops c ! i))"
      using v(3) [OF assms(2)] assms(3) by (simp add: op_inv_def)
  qed (use v in auto)
  then show ?thesis by (simp add: upd_op_def)
qed

text \<open>No event panics; the loop blocks exactly when it closes everything while an unsubscribe
  call waits for it.\<close>

definition closing :: "dispatch_event \<Rightarrow> bool" where
  "closing ev \<longleftrightarrow> (\<exists>e. ev = ReadError e) \<or> ev = CloseClient"

text \<open>An \<open>Unsubscribe\<close> that waits for the loop: to take its request, or to take the connection that it dialled.\<close>

definition unsubscribe_waits :: "rpc_client \<Rightarrow> bool" where
  "unsubscribe_waits c \<longleftrightarrow> (\<exists>s \<in> snd ` set (rc_subs c).
     cs_once (rc_heap c ! s) = OnceRequesting \<or>
     (\<exists>i. cs_once (rc_heap c ! s) = OnceCalling i \<and> rc_lastOp c = Some i \<and> rc_send c = SendOffering))"

lemma not_settled:
  assumes "\<not> settled c"
  obtains i where "rc_lastOp c = Some i" "rc_send c = SendWriting"
proof -
  from assms obtain s where "\<not> (case cs_once (rc_heap c ! s) of
      OnceCalling i \<Rightarrow> rc_lastOp c = Some i \<longrightarrow> rc_send c \<noteq> SendWriting | _ \<Rightarrow> True)"
    unfolding settled_def by blast
  then show thesis using that by (cases "cs_once (rc_heap c ! s)") auto
qed

lemma settled_blocks:
  assumes "settled c"
  shows "(\<exists>s \<in> snd ` set (rc_subs c). quit_blocks s c) \<longleftrightarrow> unsubscribe_waits c"
proof -
  have "quit_blocks s c \<longleftrightarrow> cs_once (rc_heap c ! s) = OnceRequesting \<or>
     (\<exists>i. cs_once (rc_heap c ! s) = OnceCalling i \<and> rc_lastOp c = Some i \<and> rc_send c = SendOffering)"
    if "s \<in> snd ` set (rc_subs c)" for s
    using bspec [OF assms [unfolded settled_def] that]
    by (auto simp: quit_blocks_def send_over_def split: once.splits send_phase.splits)
  then show ?thesis by (simp add: unsubscribe_waits_def)
qed

lemma dispatch_step_cases:
  assumes "client_inv c" "event_ok ev c"
  obtains (block) "dispatch_step sfx ui un ev c = None" "closing ev" "unsubscribe_waits c"
  | (ok) c' where "dispatch_step sfx ui un ev c = Some (Ret () c')" "client_inv c'"
      "\<not> (closing ev \<and> unsubscribe_waits c)"
proof (cases "closing ev")
  case True
  then obtain e where ev: "ev = ReadError e \<or> (ev = CloseClient \<and> e = ErrClientQuit)" by (auto simp: closing_def)
  with assms(2) have waits: "(\<exists>s \<in> snd ` set (rc_subs c). quit_blocks s c) \<longleftrightarrow> unsubscribe_waits c"
    by (intro settled_blocks) auto
  from assms(1) show thesis
  proof (cases rule: close_request_ops_cases [where e = e])
    case blocked
    with ev True waits show thesis by (intro block) auto
  next
    case (closed ops h)
    let ?c = "c\<lparr>rc_ops := ops, rc_heap := h, rc_respWait := [], rc_subs := []\<rparr>"
    have "client_inv ?c" by (rule close_request_ops_inv [OF assms(1) closed(1)])
    then have "client_inv (?c\<lparr>rc_reading := False\<rparr>)" "client_inv (?c\<lparr>rc_quit := True\<rparr>)"
      by (simp_all add: client_inv_def)
    moreover have "\<not> (closing ev \<and> unsubscribe_waits c)" using closed(2) waits by simp
    ultimately show thesis using ev closed(1) ok by auto
  qed
next
  case False
  have "\<exists>c'. dispatch_step sfx ui un ev c = Some (Ret () c') \<and> client_inv c'"
  proof (cases ev)
    case (AcceptCall ids)
    with accept_op_inv [OF assms(1)] assms(2) show ?thesis by simp
  next
    case (AcceptSubscribe k)
    with accept_op_inv [OF append_sub_inv [OF assms(1)], of "[k]" "Some (length (rc_heap c))"] assms(2)
    show ?thesis by (simp add: fresh_ids_for_def)
  next
    case (AcceptUnsubscribe s k)
    have q: "cs_quit (rc_heap c ! s)" using client_invD(6) [OF assms(1), of s] assms(2) AcceptUnsubscribe by simp
    have "client_inv (upd_csub (cs_once_update (\<lambda>_. OnceCalling (length (rc_ops c)))) s c)"
      by (rule upd_csub_inv [OF assms(1)]) (simp add: q)
    from accept_op_inv [OF this, of "[k]" None] assms(2) AcceptUnsubscribe show ?thesis
      by (simp add: fresh_ids_for_def)
  next
    case (SendDone e)
    with send_done_ok [OF assms(1), of e] assms(2) show ?thesis by auto
  next
    case (Incoming m)
    obtain c' where "handle_response ui m c = Some (Ret () c')" "client_inv c'"
      by (rule handle_response_ok [OF assms(1)])
    with Incoming handle_notification_inv [OF assms(1)] assms(1) show ?thesis by auto
  next
    case (TakeResponse i)
    with take_response_inv [OF assms(1)] assms(2) show ?thesis by simp
  next
    case (BeginUnsubscribe s)
    with upd_csub_inv [OF assms(1), of s "\<lambda>f. f\<lparr>cs_quit := True, cs_once := OnceRequesting\<rparr>"] show ?thesis by simp
  next
    case (EndUnsubscribe s)
    have "cs_quit (rc_heap c ! s)" using client_invD(6) [OF assms(1), of s] assms(2) EndUnsubscribe by auto
    with upd_csub_inv [OF assms(1), of s "cs_once_update (\<lambda>_. OnceDone)"] EndUnsubscribe show ?thesis by simp
  next
    case (WriteEnds e)
    with write_ends_inv [OF assms(1)] show ?thesis by simp
  next
    case OfferRefused
    with write_ends_inv [OF assms(1)] show ?thesis by simp
  next
    case OfferConnection
    with assms(1) show ?thesis by (simp add: client_inv_def)
  next
    case Reconnected
    with assms(1) show ?thesis by (simp add: client_inv_def)
  qed (use False in \<open>simp_all add: closing_def\<close>)
  with False ok show thesis by blast
qed

lemma client_reach_inv: "client_reach sfx ui un c \<Longrightarrow> client_inv c"
proof (induction rule: client_reach.induct)
  case (reach_step c ev c')
  from reach_step.IH reach_step.hyps(3) show ?case
    by (cases rule: dispatch_step_cases [where sfx = sfx and ui = ui and un = un])
      (use reach_step.hyps(4) in auto)
qed (rule new_client_inv)

section \<open>The buffer of a subscription\<close>

text \<open>The loop of \<open>forward\<close>, one event per turn: \<open>quit\<close> is closed, a result comes in, or the subscriber receives
  the front of the buffer, which happens only when there is one. It runs on, or ends with an error or
  nil and whether the server is to be told. \<open>sent\<close> is what the subscriber has received.\<close>

datatype forward_event = FwdQuit | FwdIn string | FwdSent

datatype 'v forward_result =
    FwdRunning "'v list" "'v list"
  | FwdEnded "error option" bool "'v list"

fun forward ::
  "(string \<Rightarrow> error + 'v) \<Rightarrow> forward_event list \<Rightarrow> 'v list \<Rightarrow> 'v list \<Rightarrow> 'v forward_result" where
  "forward unmarshal [] buffer sent = FwdRunning buffer sent"
| "forward unmarshal (FwdQuit # evs) buffer sent = FwdEnded None False sent"
| "forward unmarshal (FwdIn r # evs) buffer sent =
     (case unmarshal r of
        Inl e \<Rightarrow> FwdEnded (Some e) True sent
      | Inr v \<Rightarrow>
          if length buffer = maxClientSubscriptionBuffer
          then FwdEnded (Some ErrSubscriptionQueueOverflow) True sent
          else forward unmarshal evs (buffer @ [v]) sent)"
| "forward unmarshal (FwdSent # evs) buffer sent =
     (case buffer of
        [] \<Rightarrow> forward unmarshal evs [] sent
      | v # rest \<Rightarrow> forward unmarshal evs rest (sent @ [v]))"

fun fwd_inputs :: "forward_event list \<Rightarrow> string list" where
  "fwd_inputs [] = []"
| "fwd_inputs (FwdIn r # evs) = r # fwd_inputs evs"
| "fwd_inputs (ev # evs) = fwd_inputs evs"

text \<open>An overflow that is not an error of the decoding: the buffer was full, and something more came in.\<close>

definition fwd_overflow :: "(string \<Rightarrow> error + 'v) \<Rightarrow> error option \<Rightarrow> 'v list \<Rightarrow> (error + 'v) list \<Rightarrow> bool" where
  "fwd_overflow unmarshal e buffer rest \<longleftrightarrow>
     (e = Some ErrSubscriptionQueueOverflow \<and> (\<forall>r. unmarshal r \<noteq> Inl ErrSubscriptionQueueOverflow) \<longrightarrow>
        length buffer = maxClientSubscriptionBuffer \<and> rest \<noteq> [])"

definition fwd_ok :: "(string \<Rightarrow> error + 'v) \<Rightarrow> string list \<Rightarrow> 'v list \<Rightarrow> 'v forward_result \<Rightarrow> bool" where
  "fwd_ok unmarshal inputs before res \<longleftrightarrow> (case res of
      FwdRunning buffer sent \<Rightarrow> length buffer \<le> maxClientSubscriptionBuffer \<and>
        (\<exists>vs. map unmarshal inputs = map Inr vs \<and> sent @ buffer = before @ vs)
    | FwdEnded e u sent \<Rightarrow>
        (\<exists>vs rest buffer. map unmarshal inputs = map Inr vs @ rest \<and> sent @ buffer = before @ vs \<and>
           length buffer \<le> maxClientSubscriptionBuffer \<and> fwd_overflow unmarshal e buffer rest))"

lemma fwd_ended_ok:
  assumes "map unmarshal inputs = rest" "length buffer \<le> maxClientSubscriptionBuffer"
    and "fwd_overflow unmarshal e buffer rest"
  shows "fwd_ok unmarshal inputs (sent @ buffer) (FwdEnded e u sent)"
  unfolding fwd_ok_def forward_result.case
  by (rule exI [of _ "[]"], rule exI [of _ rest], rule exI [of _ buffer]) (use assms in simp)

lemma fwd_ok_Cons:
  assumes "unmarshal r = Inr v" "fwd_ok unmarshal inputs (before @ [v]) res"
  shows "fwd_ok unmarshal (r # inputs) before res"
proof (cases res)
  case (FwdRunning buffer sent)
  with assms(2) obtain vs where "length buffer \<le> maxClientSubscriptionBuffer" "map unmarshal inputs = map Inr vs"
    "sent @ buffer = before @ v # vs" by (auto simp: fwd_ok_def)
  with FwdRunning assms(1) show ?thesis by (auto simp: fwd_ok_def intro!: exI [of _ "v # vs"])
next
  case (FwdEnded e u sent)
  with assms(2) obtain vs rest buffer where "map unmarshal inputs = map Inr vs @ rest" "sent @ buffer = before @ v # vs"
    "length buffer \<le> maxClientSubscriptionBuffer"
    "fwd_overflow unmarshal e buffer rest" by (auto simp: fwd_ok_def)
  with assms(1) show ?thesis
    unfolding fwd_ok_def FwdEnded forward_result.case
    by (intro exI [of _ "v # vs"]) auto
qed

lemma forward_ok:
  "length buffer \<le> maxClientSubscriptionBuffer \<Longrightarrow>
     fwd_ok unmarshal (fwd_inputs evs) (sent @ buffer) (forward unmarshal evs buffer sent)"
proof (induction unmarshal evs buffer sent rule: forward.induct)
  case (1 unmarshal buffer sent)
  then show ?case by (simp add: fwd_ok_def)
next
  case (2 unmarshal evs buffer sent)
  then show ?case by (simp add: fwd_ended_ok fwd_overflow_def)
next
  case (3 unmarshal r evs buffer sent)
  show ?case
  proof (cases "unmarshal r")
    case (Inl e)
    with 3 show ?thesis by (auto simp: fwd_overflow_def intro!: fwd_ended_ok)
  next
    case (Inr v)
    show ?thesis
    proof (cases "length buffer = maxClientSubscriptionBuffer")
      case True
      with Inr show ?thesis by (auto simp: fwd_overflow_def intro!: fwd_ended_ok)
    next
      case False
      with 3 Inr have "fwd_ok unmarshal (fwd_inputs evs) (sent @ buffer @ [v]) (forward unmarshal evs (buffer @ [v]) sent)"
        by simp
      with fwd_ok_Cons [of unmarshal r v "fwd_inputs evs" "sent @ buffer"] False Inr show ?thesis by simp
    qed
  qed
next
  case (4 unmarshal evs buffer sent)
  then show ?case by (cases buffer) simp_all
qed

section \<open>Properties\<close>

text \<open>C11: Every response reaches the call that waits for it. In every reachable state of the client, whose identifiers have not come
  twice (\<open>fresh_ids_for\<close>: fewer than \<open>2\<^sup>3\<^sup>2\<close> were given out), the responses
  sent to a call carry identifiers of that call, each at most once, and no two calls share an identifier; a call
  that was not closed and whose write did not fail has each of its identifiers answered or registered.\<close>

theorem responses_reach_their_call:
  assumes "client_reach sfx ui un c" "i < length (rc_ops c)"
  shows "jm_id ` set (ro_resp (rc_ops c ! i)) \<subseteq> Some ` set (ro_ids (rc_ops c ! i)) \<and>
    distinct (map jm_id (ro_resp (rc_ops c ! i))) \<and>
    (\<forall>j < length (rc_ops c). j \<noteq> i \<longrightarrow> set (ro_ids (rc_ops c ! i)) \<inter> set (ro_ids (rc_ops c ! j)) = {}) \<and>
    (\<not> ro_closed (rc_ops c ! i) \<longrightarrow> \<not> ro_failed (rc_ops c ! i) \<longrightarrow>
       (\<forall>k \<in> set (ro_ids (rc_ops c ! i)). Some k \<in> jm_id ` set (ro_resp (rc_ops c ! i)) \<or>
          map_of (rc_respWait c) k = Some i))"
proof -
  note v = client_invD [OF client_reach_inv [OF assms(1)]]
  from v(3) [OF assms(2)] v(7) [OF assms(2)] v(1) show ?thesis
    by (auto simp: op_inv_def)
qed


text \<open>C21: Unless an Unsubscribe waits for the loop, a lost connection or a Close completes and leaves no call waiting.
  After it every operation is closed, or its write failed, or all its responses have been sent; those that were waiting
  carry the error; and every active subscription has quit.\<close>

theorem closing_releases_every_call:
  assumes "client_reach sfx ui un c" "event_ok ev c" "ev = ReadError e \<or> ev = CloseClient \<and> e = ErrClientQuit"
    and "\<not> unsubscribe_waits c"
  shows "\<exists>c'. dispatch_step sfx ui un ev c = Some (Ret () c') \<and> rc_respWait c' = [] \<and> rc_subs c' = [] \<and> length (rc_ops c') = length (rc_ops c) \<and>
    (\<forall>i < length (rc_ops c'). ro_closed (rc_ops c' ! i) \<or> ro_failed (rc_ops c' ! i) \<or>
       jm_id ` set (ro_resp (rc_ops c' ! i)) = Some ` set (ro_ids (rc_ops c' ! i))) \<and>
    (\<forall>i \<in> snd ` set (rc_respWait c). ro_err (rc_ops c' ! i) = Some e) \<and>
    (\<forall>s \<in> snd ` set (rc_subs c). cs_quit (rc_heap c' ! s))"
  using client_reach_inv [OF assms(1)]
proof (cases rule: close_request_ops_cases [where e = e])
  case blocked
  have "settled c" using assms(2,3) by auto
  with blocked(2) settled_blocks assms(4) show ?thesis by blast
next
  case (closed ops h)
  note v = client_invD [OF client_reach_inv [OF assms(1)]]
  from assms(3) closed(1) obtain c' where st: "dispatch_step sfx ui un ev c = Some (Ret () c')" and c': "rc_ops c' = ops" "rc_heap c' = h" "rc_respWait c' = []" "rc_subs c' = []" by auto
  have "ro_closed (ops ! i) \<or> ro_failed (ops ! i) \<or> jm_id ` set (ro_resp (ops ! i)) = Some ` set (ro_ids (ops ! i))"
    if i: "i < length ops" for i
  proof (cases "i \<in> snd ` set (rc_respWait c)")
    case True
    with closed(6) [OF i] show ?thesis by (simp add: closed_with_def)
  next
    case False
    then have "(k, i) \<notin> set (rc_respWait c)" for k by force
    with v(3) [of i] closed(3) closed(6) [OF i] i False show ?thesis
      by (auto simp: op_inv_def)
  qed
  moreover have "ro_err (ops ! i) = Some e" if i: "i \<in> snd ` set (rc_respWait c)" for i
  proof -
    from i v(2) have "i < length (rc_ops c)" by auto
    with closed(3) closed(6) [of i] i show ?thesis by (simp add: closed_with_def)
  qed
  ultimately show ?thesis using closed(3,7) c' st by (intro exI [of _ c']) simp
qed

text \<open>C36: A subscription receives its results in order, none lost and none twice, as long as it runs: what it
  received, followed by the buffer, is the sequence of the results that came in. The buffer never holds
  more than 20000 of them, and the subscription is dropped for overflow only when 20000 results are
  waiting and one more comes in.\<close>

theorem subscription_buffer_is_fifo:
  "case forward unmarshal evs [] [] of
     FwdRunning buffer sent \<Rightarrow> map unmarshal (fwd_inputs evs) = map Inr (sent @ buffer) \<and> length buffer \<le> 20000
   | FwdEnded e u sent \<Rightarrow>
       (\<exists>buffer rest. map unmarshal (fwd_inputs evs) = map Inr (sent @ buffer) @ rest \<and> length buffer \<le> 20000 \<and>
          (e = Some ErrSubscriptionQueueOverflow \<and> (\<forall>r. unmarshal r \<noteq> Inl ErrSubscriptionQueueOverflow) \<longrightarrow>
             length buffer = 20000 \<and> rest \<noteq> []))"
proof (cases "forward unmarshal evs [] []")
  case (FwdRunning buffer sent)
  with forward_ok [of "[]" unmarshal evs "[]"] show ?thesis
    by (auto simp: fwd_ok_def maxClientSubscriptionBuffer_def)
next
  case (FwdEnded e u sent)
  with forward_ok [of "[]" unmarshal evs "[]"] obtain rest buffer where
    "map unmarshal (fwd_inputs evs) = map Inr (sent @ buffer) @ rest" "length buffer \<le> 20000"
    "fwd_overflow unmarshal e buffer rest"
    by (auto simp: fwd_ok_def maxClientSubscriptionBuffer_def)
  then show ?thesis unfolding FwdEnded forward_result.case fwd_overflow_def maxClientSubscriptionBuffer_def
    by blast
qed

section \<open>Witnesses\<close>

definition sample_response :: "string \<Rightarrow> rpc_message" where
  "sample_response k = \<lparr>jm_version = ''2.0'', jm_id = Some k, jm_method = [], jm_params = [],
     jm_error = None, jm_result = ''0x1''\<rparr>"

lemma sample_response_kind: "is_response (sample_response ''1'')" "\<not> is_notification (sample_response k)"
  by (simp_all add: sample_response_def is_response_def has_valid_id_def is_notification_def)

abbreviation sample_reach :: "rpc_client \<Rightarrow> bool" where
  "sample_reach \<equiv> client_reach ''_subscription'' Inr (\<lambda>p. Inl (ErrExt ''json''))"

text \<open>A call of two requests; and a subscription whose Unsubscribe has begun.\<close>

lemma sample_call:
  obtains c where "sample_reach c" "rc_ops c = [new_op [''1'', ''2''] None]"
    "rc_respWait c = [(''2'', 0), (''1'', 0)]" "rc_reading c" "rc_subs c = []"
proof -
  have "sample_reach (accept_op (new_op [''1'', ''2''] None) new_client)"
    by (rule reach_step [OF reach_new, where ev = "AcceptCall [''1'', ''2'']"])
      (simp_all add: new_client_def fresh_ids_for_def)
  then show thesis
    by (rule that) (simp_all add: accept_op_def new_op_def new_client_def map_put_def map_del_def)
qed

lemma sample_unsubscribe:
  obtains c where "sample_reach c" "unsubscribe_waits c" "rc_reading c" "settled c"
proof -
  have a: "sample_reach (accept_op (new_op [''1''] (Some 0)) (new_client\<lparr>rc_heap := [new_client_subscription]\<rparr>))"
    (is "sample_reach ?a")
    by (rule reach_step [OF reach_new, where ev = "AcceptSubscribe ''1''"])
      (simp_all add: new_client_def fresh_ids_for_def)
  have af: "rc_ops ?a = [new_op [''1''] (Some 0)]" "rc_respWait ?a = [(''1'', 0)]" "rc_heap ?a = [new_client_subscription]"
    "rc_reading ?a" "rc_quit ?a = False" "rc_subs ?a = []"
    by (simp_all add: accept_op_def new_op_def new_client_def map_put_def map_del_def)
  obtain b where b: "handle_response Inr (sample_response ''1'') ?a = Some (Ret () b)"
    "rc_subs b = [(''0x1'', 0)]" "rc_heap b = [new_client_subscription\<lparr>cs_subid := ''0x1''\<rparr>]" "rc_reading b" "rc_quit b = False"
    using af by (simp add: handle_response_def sample_response_def close_resp_def new_op_def map_put_def map_del_def upd_op_def upd_csub_def)
  have rb: "sample_reach b"
    by (rule reach_step [OF a, where ev = "Incoming (sample_response ''1'')"])
      (use af b sample_response_kind in simp_all)
  let ?c = "upd_csub (\<lambda>f. f\<lparr>cs_quit := True, cs_once := OnceRequesting\<rparr>) 0 b"
  have "sample_reach ?c"
    by (rule reach_step [OF rb, where ev = "BeginUnsubscribe 0"]) (use b in \<open>simp_all add: new_client_subscription_def\<close>)
  then show thesis by (rule that) (use b in \<open>simp_all add: unsubscribe_waits_def settled_def\<close>)
qed

theorem responses_reach_their_call_witness:
  "\<exists>c. sample_reach c \<and> length (rc_ops c) = 1 \<and> map_of (rc_respWait c) ''2'' = Some 0"
proof -
  obtain c where c: "sample_reach c" "rc_ops c = [new_op [''1'', ''2''] None]" by (rule sample_call)
  have "0 < length (rc_ops c)" using c by simp
  from responses_reach_their_call [OF c(1) this] c show ?thesis by (auto simp: new_op_def)
qed


theorem closing_releases_every_call_witness:
  "\<exists>c c'. sample_reach c \<and>
     dispatch_step ''_subscription'' Inr (\<lambda>p. Inl (ErrExt ''json'')) CloseClient c = Some (Ret () c') \<and>
     ro_err (rc_ops c' ! 0) = Some ErrClientQuit"
proof -
  obtain c where c: "sample_reach c" "rc_respWait c = [(''2'', 0), (''1'', 0)]" "rc_subs c = []"
    by (rule sample_call)
  have "event_ok CloseClient c" "\<not> unsubscribe_waits c" by (simp_all add: settled_def unsubscribe_waits_def c(3))
  from closing_releases_every_call [OF c(1) this(1) _ this(2), of ErrClientQuit] c(1,2) show ?thesis by auto
qed

theorem subscription_buffer_is_fifo_witness:
  "forward Inr [FwdIn ''a'', FwdIn ''b'', FwdSent, FwdIn ''c''] [] [] = FwdRunning [''b'', ''c''] [''a''] \<and>
     map (Inr :: string \<Rightarrow> error + string) [''a'', ''b'', ''c''] = map Inr ([''a''] @ [''b'', ''c''])"
proof -
  have "forward Inr [FwdIn ''a'', FwdIn ''b'', FwdSent, FwdIn ''c''] [] [] = FwdRunning [''b'', ''c''] [''a'']"
    by (simp add: maxClientSubscriptionBuffer_def)
  with subscription_buffer_is_fifo [of "Inr :: string \<Rightarrow> error + string"
      "[FwdIn ''a'', FwdIn ''b'', FwdSent, FwdIn ''c'']"] show ?thesis by simp
qed

end
