(* ===== verification/Rpc_Connection.thy ===== *)
theory Rpc_Connection
  imports Rpc_Dispatch
begin

text \<open>
  The connections of the JSON-RPC client, \<open>src/client/client.go\<close>: for transports other than HTTP the goroutine of \<open>read\<close>, the caller that holds the send lock (\<open>send\<close>, \<open>write\<close>, \<open>reconnect\<close>) and the
  goroutine of \<open>dispatch\<close>, which hand each other connections, messages and errors over unbuffered channels.
  The loop of Rpc_Dispatch is the abstraction of this machine: it knows the phase of the caller that holds the send lock, and
  nothing of connections.
  What the network does (a write or a dial succeeds or fails, bytes or an error arrive) is any step; the
  decodings of \<open>encoding/json\<close> and \<open>isBatch\<close>, which the repository does not define, are in the record \<open>rpc_codec\<close>.
  The lemmas show that the machine refines the loop, which connections are open, what can crash the client and
  in which state a reconnecting client locks up.
\<close>

section \<open>State\<close>

record rpc_codec =
  rk_suffix :: string
  rk_unmarshal_id :: "string \<Rightarrow> error + string"
  rk_unmarshal_note :: "string \<Rightarrow> error + string \<times> string"
  rk_is_batch :: "string \<Rightarrow> bool"
  rk_unmarshal_batch :: "string \<Rightarrow> error + rpc_message option list"
  rk_unmarshal_msg :: "string \<Rightarrow> error + rpc_message option"

text \<open>A connection is a number, in the order of dialling. The loop is in its \<open>select\<close>; waits for the error of the old
  read loop before it takes a new connection; waits for ever in \<open>quitOnce\<close>; has panicked, which ends the
  program; empties the read channels after Close; or has returned.\<close>

datatype loop_phase = LoopSelect | LoopAwaits nat | LoopStuck | LoopPanicked panic | LoopDrains | LoopGone

text \<open>The caller between \<open>c.requestOp <- op\<close> and the receipt of its \<open>sendDone\<close>: in \<open>write\<close>, offering a new connection to
  the loop, or done with its write.\<close>

datatype sender = NoSender | Writing | Reconnecting nat | Sent "error option"

text \<open>The read loop decodes, or holds messages or an error for the loop, or does not run.\<close>

datatype reader = Decoding | HasBatch "rpc_message option list" | HasErr error | NoReader

record connection =
  cn_disp :: rpc_client
  cn_loop :: loop_phase
  cn_conn :: nat
  cn_write :: "nat option"
  cn_sender :: sender
  cn_reader :: reader
  cn_open :: "nat list"
  cn_dialled :: nat

text \<open>\<open>newClient\<close> for a transport other than HTTP.\<close>

definition new_connection :: "error + unit \<Rightarrow> error + connection" where
  "new_connection dialled =
     (case dialled of
        Inl e \<Rightarrow> Inl e
      | Inr u \<Rightarrow> Inr \<lparr>cn_disp = new_client, cn_loop = LoopSelect, cn_conn = 0, cn_write = Some 0, cn_sender = NoSender,
           cn_reader = Decoding, cn_open = [0], cn_dialled = 1\<rparr>)"

section \<open>Steps\<close>

text \<open>\<open>readMessage\<close>, on what the decoder delivers; \<open>null\<close> decodes to a nil message. An error ends the read loop.\<close>

definition read_message :: "rpc_codec \<Rightarrow> error + string \<Rightarrow> error + rpc_message option list" where
  "read_message K inp =
     (case inp of
        Inl e \<Rightarrow> Inl e
      | Inr buf \<Rightarrow>
          if rk_is_batch K buf then rk_unmarshal_batch K buf
          else (case rk_unmarshal_msg K buf of Inl e \<Rightarrow> Inl e | Inr m \<Rightarrow> Inr [m]))"

definition read_step :: "rpc_codec \<Rightarrow> error + string \<Rightarrow> reader" where
  "read_step K inp = (case read_message K inp of Inl e \<Rightarrow> HasErr e | Inr ms \<Rightarrow> HasBatch ms)"

text \<open>The events of the loop for this codec, and the branch \<open>batch := <-c.readResp\<close>; the methods of a nil message
  follow its pointer.\<close>

abbreviation disp_step :: "rpc_codec \<Rightarrow> dispatch_event \<Rightarrow> rpc_client \<Rightarrow> dispatch_result" where
  "disp_step K \<equiv> dispatch_step (rk_suffix K) (rk_unmarshal_id K) (rk_unmarshal_note K)"

fun dispatch_batch :: "rpc_codec \<Rightarrow> rpc_message option list \<Rightarrow> rpc_client \<Rightarrow> dispatch_result" where
  "dispatch_batch K [] d = Some (Ret () d)"
| "dispatch_batch K (None # ms) d = Some (Panic NilDereference d)"
| "dispatch_batch K (Some m # ms) d =
     (case disp_step K (Incoming m) d of
        None \<Rightarrow> None
      | Some (Panic p d') \<Rightarrow> Some (Panic p d')
      | Some (Ret u d') \<Rightarrow> dispatch_batch K ms d')"

text \<open>What becomes of the client after a branch of the loop: it goes on with \<open>f\<close>, panics, or waits for ever.\<close>

definition after_branch :: "dispatch_result \<Rightarrow> (connection \<Rightarrow> connection) \<Rightarrow> connection \<Rightarrow> connection" where
  "after_branch r f c =
     (case r of
        None \<Rightarrow> c\<lparr>cn_loop := LoopStuck\<rparr>
      | Some (Panic p d) \<Rightarrow> c\<lparr>cn_disp := d, cn_loop := LoopPanicked p\<rparr>
      | Some (Ret u d) \<Rightarrow> f (c\<lparr>cn_disp := d\<rparr>))"

fun accepting :: "dispatch_event \<Rightarrow> bool" where
  "accepting (AcceptCall ids) = True"
| "accepting (AcceptSubscribe k) = True"
| "accepting (AcceptUnsubscribe s k) = True"
| "accepting ev = False"

fun caller_event :: "dispatch_event \<Rightarrow> bool" where
  "caller_event (TakeResponse i) = True"
| "caller_event (BeginUnsubscribe s) = True"
| "caller_event (EndUnsubscribe s) = True"
| "caller_event ev = False"

definition close_conn :: "nat \<Rightarrow> connection \<Rightarrow> connection" where
  "close_conn k c = c\<lparr>cn_open := removeAll k (cn_open c)\<rparr>"

text \<open>The branch of a new connection: without a read loop the loop starts one on it, else it closes the old
  connection and waits for its read loop to fail.\<close>

definition take_connection :: "nat \<Rightarrow> connection \<Rightarrow> connection" where
  "take_connection n c =
     (if rc_reading (cn_disp c) then (close_conn (cn_conn c) c)\<lparr>cn_loop := LoopAwaits n\<rparr>
      else c\<lparr>cn_conn := n, cn_reader := Decoding, cn_disp := (cn_disp c)\<lparr>rc_reading := True\<rparr>\<rparr>)"

text \<open>The callers move as long as the client has not quit; what is released by the end of the client is left out. A
  panic of the loop ends every goroutine.\<close>

definition running :: "connection \<Rightarrow> bool" where
  "running c \<longleftrightarrow> cn_loop c = LoopSelect \<or> (\<exists>n. cn_loop c = LoopAwaits n)"

definition alive :: "connection \<Rightarrow> bool" where
  "alive c \<longleftrightarrow> (\<forall>p. cn_loop c \<noteq> LoopPanicked p)"

text \<open>A branch that closes everything is one step, as in Rpc_Dispatch, taken when no unsubscribe call writes or dials.\<close>

inductive cn_step :: "rpc_codec \<Rightarrow> connection \<Rightarrow> connection \<Rightarrow> bool" for K where
  accept: "cn_loop c = LoopSelect \<Longrightarrow> cn_sender c = NoSender \<Longrightarrow> accepting ev \<Longrightarrow> event_ok ev (cn_disp c) \<Longrightarrow>
     disp_step K ev (cn_disp c) = Some (Ret () d) \<Longrightarrow> cn_step K c (c\<lparr>cn_disp := d, cn_sender := Writing\<rparr>)"
| caller: "running c \<Longrightarrow> caller_event ev \<Longrightarrow> event_ok ev (cn_disp c) \<Longrightarrow>
     disp_step K ev (cn_disp c) = Some (Ret () d) \<Longrightarrow> cn_step K c (c\<lparr>cn_disp := d\<rparr>)"
| write_ok: "alive c \<Longrightarrow> cn_sender c = Writing \<Longrightarrow> cn_write c = Some k \<Longrightarrow> k \<in> set (cn_open c) \<Longrightarrow>
     cn_step K c (c\<lparr>cn_sender := Sent None, cn_disp := write_ends None (cn_disp c)\<rparr>)"
| write_fails: "alive c \<Longrightarrow> cn_sender c = Writing \<Longrightarrow> cn_write c = Some k \<Longrightarrow>
     cn_step K c (c\<lparr>cn_write := None, cn_sender := Sent (Some e), cn_disp := write_ends (Some e) (cn_disp c)\<rparr>)"
| connect_fails: "alive c \<Longrightarrow> cn_sender c = Writing \<Longrightarrow> cn_write c = None \<Longrightarrow>
     cn_step K c (c\<lparr>cn_sender := Sent (Some e), cn_disp := write_ends (Some e) (cn_disp c)\<rparr>)"
| connect: "alive c \<Longrightarrow> cn_sender c = Writing \<Longrightarrow> cn_write c = None \<Longrightarrow>
     cn_step K c (c\<lparr>cn_sender := Reconnecting (cn_dialled c), cn_open := cn_dialled c # cn_open c,
       cn_dialled := Suc (cn_dialled c), cn_disp := (cn_disp c)\<lparr>rc_send := SendOffering\<rparr>\<rparr>)"
| hand_over: "cn_loop c = LoopSelect \<Longrightarrow> cn_sender c = Reconnecting n \<Longrightarrow>
     cn_step K c ((take_connection n (c\<lparr>cn_disp := (cn_disp c)\<lparr>rc_send := SendWriting\<rparr>\<rparr>))
       \<lparr>cn_write := Some n, cn_sender := Writing\<rparr>)"
| refused: "cn_loop c = LoopGone \<Longrightarrow> cn_sender c = Reconnecting n \<Longrightarrow>
     cn_step K c ((close_conn n c)\<lparr>cn_sender := Sent (Some ErrClientQuit),
       cn_disp := write_ends (Some ErrClientQuit) (cn_disp c)\<rparr>)"
| awaited: "cn_loop c = LoopAwaits n \<Longrightarrow> cn_reader c = HasErr e \<Longrightarrow>
     cn_step K c (c\<lparr>cn_loop := LoopSelect, cn_conn := n, cn_reader := Decoding,
       cn_disp := (cn_disp c)\<lparr>rc_reading := True\<rparr>\<rparr>)"
| read: "alive c \<Longrightarrow> cn_reader c = Decoding \<Longrightarrow> cn_step K c (c\<lparr>cn_reader := read_step K inp\<rparr>)"
| take_batch: "cn_loop c = LoopSelect \<Longrightarrow> cn_reader c = HasBatch ms \<Longrightarrow>
     cn_step K c (after_branch (dispatch_batch K ms (cn_disp c)) (\<lambda>c. c) (c\<lparr>cn_reader := Decoding\<rparr>))"
| take_error: "cn_loop c = LoopSelect \<Longrightarrow> cn_reader c = HasErr e \<Longrightarrow> settled (cn_disp c) \<Longrightarrow>
     cn_step K c (after_branch (disp_step K (ReadError e) (cn_disp c)) (\<lambda>c. close_conn (cn_conn c) c)
       (c\<lparr>cn_reader := NoReader\<rparr>))"
| take_sent: "cn_loop c = LoopSelect \<Longrightarrow> cn_sender c = Sent e \<Longrightarrow>
     cn_step K c (after_branch (disp_step K (SendDone e) (cn_disp c)) (\<lambda>c. c) (c\<lparr>cn_sender := NoSender\<rparr>))"
| close: "cn_loop c = LoopSelect \<Longrightarrow> settled (cn_disp c) \<Longrightarrow>
     cn_step K c (after_branch (disp_step K CloseClient (cn_disp c))
       (\<lambda>c. (close_conn (cn_conn c) c)\<lparr>cn_loop := (if rc_reading (cn_disp c) then LoopDrains else LoopGone)\<rparr>) c)"
| drain_batch: "cn_loop c = LoopDrains \<Longrightarrow> cn_reader c = HasBatch ms \<Longrightarrow> cn_step K c (c\<lparr>cn_reader := Decoding\<rparr>)"
| drain_error: "cn_loop c = LoopDrains \<Longrightarrow> cn_reader c = HasErr e \<Longrightarrow>
     cn_step K c (c\<lparr>cn_reader := NoReader, cn_loop := LoopGone\<rparr>)"

inductive cn_reach :: "rpc_codec \<Rightarrow> connection \<Rightarrow> bool" for K where
  cn_start: "new_connection (Inr ()) = Inr c \<Longrightarrow> cn_reach K c"
| cn_next: "cn_reach K c \<Longrightarrow> cn_step K c c' \<Longrightarrow> cn_reach K c'"

section \<open>The invariant\<close>

text \<open>The flags of the loop's state that the connection follows.\<close>

definition same_flags :: "rpc_client \<Rightarrow> rpc_client \<Rightarrow> bool" where
  "same_flags d d' \<longleftrightarrow> rc_lastOp d' = rc_lastOp d \<and> rc_send d' = rc_send d \<and> rc_reading d' = rc_reading d \<and> rc_quit d' = rc_quit d"

lemma handle_response_flags: "handle_response ui m d = Some (Ret u d') \<Longrightarrow> same_flags d d'"
  by (auto simp: handle_response_def close_resp_def same_flags_def Let_def
      split: option.splits if_splits sum.splits)

lemma handle_notification_flags: "same_flags d (handle_notification sfx un m d)"
  by (auto simp: handle_notification_def same_flags_def split: option.splits if_splits sum.splits prod.splits)

lemma incoming_flags: "disp_step K (Incoming m) d = Some (Ret u d') \<Longrightarrow> same_flags d d'"
  by (auto simp: handle_response_flags handle_notification_flags split: if_splits) (simp add: same_flags_def)

lemma caller_flags: "caller_event ev \<Longrightarrow> disp_step K ev d = Some (Ret u d') \<Longrightarrow> same_flags d d'"
  by (cases ev) (auto simp: same_flags_def)

lemma accepting_flags:
  "accepting ev \<Longrightarrow> disp_step K ev d = Some (Ret u d') \<Longrightarrow>
     rc_lastOp d' \<noteq> None \<and> rc_send d' = SendWriting \<and> rc_reading d' = rc_reading d \<and> rc_quit d' = rc_quit d"
  by (cases ev) (auto simp: accept_op_def)

lemma write_ends_fields [simp]:
  "rc_lastOp (write_ends e d) = rc_lastOp d" "rc_send (write_ends e d) = SendOver e"
  "rc_reading (write_ends e d) = rc_reading d" "rc_quit (write_ends e d) = rc_quit d"
  "rc_subs (write_ends e d) = rc_subs d" "rc_heap (write_ends e d) = rc_heap d"
  "rc_respWait (write_ends e d) = rc_respWait d" "length (rc_ops (write_ends e d)) = length (rc_ops d)"
  by (simp_all add: write_ends_def split: option.split)

lemma sent_flags:
  "disp_step K (SendDone e) d = Some (Ret u d') \<Longrightarrow>
     rc_lastOp d' = None \<and> rc_reading d' = rc_reading d \<and> rc_quit d' = rc_quit d"
  by (auto simp: send_done_def split: option.splits)

abbreviation disp_reach :: "rpc_codec \<Rightarrow> rpc_client \<Rightarrow> bool" where
  "disp_reach K \<equiv> client_reach (rk_suffix K) (rk_unmarshal_id K) (rk_unmarshal_note K)"

lemma close_request_ops_flags:
  "client_inv d \<Longrightarrow> close_request_ops e d = Some (Ret u d') \<Longrightarrow> same_flags d d'"
  by (erule close_request_ops_cases [where e = e]) (auto simp: same_flags_def)

lemma branch_ret:
  "(case r of Ret u c' \<Rightarrow> Ret () (f c') | Panic p c' \<Rightarrow> Panic p c') = Ret v d' \<Longrightarrow> \<exists>d1. r = Ret () d1 \<and> d' = f d1"
  by (cases r) auto

lemma closing_flags:
  "client_inv d \<Longrightarrow> disp_step K (ReadError e) d = Some (Ret u d') \<Longrightarrow>
     rc_lastOp d' = rc_lastOp d \<and> rc_send d' = rc_send d \<and> \<not> rc_reading d' \<and> rc_quit d' = rc_quit d"
  "client_inv d \<Longrightarrow> disp_step K CloseClient d = Some (Ret u d') \<Longrightarrow>
     rc_lastOp d' = rc_lastOp d \<and> rc_send d' = rc_send d \<and> rc_reading d' = rc_reading d \<and> rc_quit d'"
  by (auto dest!: branch_ret dest: close_request_ops_flags simp: same_flags_def)

text \<open>A batch is one event of the loop after the other; it ends in a panic only at a nil message.\<close>

lemma dispatch_batch_cases:
  assumes "disp_reach K d" "rc_reading d" "\<not> rc_quit d"
  obtains (ok) d' where "dispatch_batch K ms d = Some (Ret () d')" "disp_reach K d'" "same_flags d d'" "None \<notin> set ms"
  | (nil) d' where "dispatch_batch K ms d = Some (Panic NilDereference d')" "None \<in> set ms"
proof -
  have "(\<exists>d'. dispatch_batch K ms d = Some (Ret () d') \<and> disp_reach K d' \<and> same_flags d d' \<and> None \<notin> set ms) \<or>
      (\<exists>d'. dispatch_batch K ms d = Some (Panic NilDereference d') \<and> None \<in> set ms)"
    using assms
  proof (induction ms arbitrary: d)
    case Nil
    then show ?case by (simp add: same_flags_def)
  next
    case (Cons x ms)
    show ?case
    proof (cases x)
      case (Some m)
      have ok: "event_ok (Incoming m) d" using Cons.prems(2) by simp
      from client_reach_inv [OF Cons.prems(1)] ok obtain d1 where d1: "disp_step K (Incoming m) d = Some (Ret () d1)"
        by (cases rule: dispatch_step_cases [where sfx = "rk_suffix K" and ui = "rk_unmarshal_id K" and
              un = "rk_unmarshal_note K"]) (auto simp: closing_def)
      have flags: "same_flags d d1" by (rule incoming_flags [OF d1])
      from Cons.IH [OF reach_step [OF Cons.prems(1) disjI1 [OF Cons.prems(3)] ok d1]] flags Cons.prems(2,3) d1 Some show ?thesis
        by (auto simp: same_flags_def)
    qed simp
  qed
  then show thesis using ok nil by blast
qed

text \<open>A branch of the loop that is an event of the abstract machine: it returns, or it waits for an unsubscribe call.\<close>

lemma branch_cases:
  assumes "disp_reach K d" "\<not> rc_quit d" "event_ok ev d"
  obtains (ok) d' where "disp_step K ev d = Some (Ret () d')" "disp_reach K d'"
    | (stuck) "disp_step K ev d = None" "closing ev" "unsubscribe_waits d"
  using client_reach_inv [OF assms(1)] assms(3)
proof (cases rule: dispatch_step_cases [where sfx = "rk_suffix K" and ui = "rk_unmarshal_id K" and
      un = "rk_unmarshal_note K"])
  case (ok d')
  with reach_step [OF assms(1) _ assms(3) ok(1)] assms(2) that(1) show thesis by blast
qed (use that(2) in blast)

text \<open>The phase of the caller that holds the send lock, as the loop's machine knows it.\<close>

fun sender_phase :: "sender \<Rightarrow> send_phase \<Rightarrow> bool" where
  "sender_phase NoSender p \<longleftrightarrow> True"
| "sender_phase Writing p \<longleftrightarrow> p = SendWriting"
| "sender_phase (Reconnecting n) p \<longleftrightarrow> p = SendOffering"
| "sender_phase (Sent e) p \<longleftrightarrow> p = SendOver e"

definition sim_inv :: "rpc_codec \<Rightarrow> connection \<Rightarrow> bool" where
  "sim_inv K c \<longleftrightarrow> alive c \<longrightarrow>
     disp_reach K (cn_disp c) \<and> (rc_lastOp (cn_disp c) = None \<longleftrightarrow> cn_sender c = NoSender) \<and>
     sender_phase (cn_sender c) (rc_send (cn_disp c)) \<and>
     (rc_quit (cn_disp c) \<longleftrightarrow> cn_loop c = LoopDrains \<or> cn_loop c = LoopGone) \<and>
     (cn_loop c = LoopSelect \<longrightarrow> (rc_reading (cn_disp c) \<longleftrightarrow> cn_reader c \<noteq> NoReader)) \<and>
     (\<forall>n. cn_loop c = LoopAwaits n \<longrightarrow> rc_reading (cn_disp c) \<and> cn_reader c \<noteq> NoReader) \<and>
     (cn_loop c = LoopDrains \<longrightarrow> cn_reader c \<noteq> NoReader) \<and> (cn_loop c = LoopGone \<longrightarrow> cn_reader c = NoReader)"

lemma sim_invD:
  assumes "sim_inv K c" "alive c"
  shows "disp_reach K (cn_disp c)" "rc_lastOp (cn_disp c) = None \<longleftrightarrow> cn_sender c = NoSender"
    "rc_quit (cn_disp c) \<longleftrightarrow> cn_loop c = LoopDrains \<or> cn_loop c = LoopGone"
    "cn_loop c = LoopSelect \<Longrightarrow> rc_reading (cn_disp c) \<longleftrightarrow> cn_reader c \<noteq> NoReader"
    "cn_loop c = LoopAwaits n \<Longrightarrow> rc_reading (cn_disp c) \<and> cn_reader c \<noteq> NoReader"
    "cn_loop c = LoopDrains \<Longrightarrow> cn_reader c \<noteq> NoReader" "cn_loop c = LoopGone \<Longrightarrow> cn_reader c = NoReader"
    "sender_phase (cn_sender c) (rc_send (cn_disp c))"
  using assms by (auto simp: sim_inv_def)

lemma alive_simps [simp]:
  "cn_loop c = LoopSelect \<Longrightarrow> alive c" "cn_loop c = LoopAwaits n \<Longrightarrow> alive c" "cn_loop c = LoopGone \<Longrightarrow> alive c"
  "cn_loop c = LoopDrains \<Longrightarrow> alive c" "cn_loop c = LoopStuck \<Longrightarrow> alive c"
  "cn_loop c = LoopPanicked p \<Longrightarrow> \<not> alive c" "running c \<Longrightarrow> alive c"
  by (auto simp: alive_def running_def)

lemma alive_cong: "cn_loop c' = cn_loop c \<Longrightarrow> alive c' = alive c"
  by (simp add: alive_def)

lemma close_conn_fields [simp]:
  "cn_disp (close_conn k c) = cn_disp c" "cn_loop (close_conn k c) = cn_loop c" "cn_conn (close_conn k c) = cn_conn c"
  "cn_write (close_conn k c) = cn_write c" "cn_sender (close_conn k c) = cn_sender c"
  "cn_reader (close_conn k c) = cn_reader c" "cn_open (close_conn k c) = removeAll k (cn_open c)"
  "cn_dialled (close_conn k c) = cn_dialled c"
  by (simp_all add: close_conn_def)

lemma read_step_reader [simp]: "read_step K inp \<noteq> NoReader" "read_step K inp \<noteq> Decoding"
  by (simp_all add: read_step_def split: sum.split)

lemma reconnect_reach:
  "disp_reach K d \<Longrightarrow> \<not> rc_quit d \<Longrightarrow> rc_lastOp d \<noteq> None \<Longrightarrow> rc_send d = SendOffering \<Longrightarrow>
     disp_reach K (d\<lparr>rc_send := SendWriting, rc_reading := True\<rparr>)"
  by (rule reach_step [where ev = Reconnected]) simp_all

lemma write_ends_reach:
  "disp_reach K d \<Longrightarrow> rc_lastOp d \<noteq> None \<Longrightarrow> rc_send d = SendWriting \<Longrightarrow> disp_reach K (write_ends e d)"
  by (rule reach_step [where ev = "WriteEnds e"]) simp_all

lemma refused_reach:
  "disp_reach K d \<Longrightarrow> rc_lastOp d \<noteq> None \<Longrightarrow> rc_send d = SendOffering \<Longrightarrow> rc_quit d \<Longrightarrow>
     disp_reach K (write_ends (Some ErrClientQuit) d)"
  by (rule reach_step [where ev = OfferRefused]) simp_all

lemma offer_reach:
  "disp_reach K d \<Longrightarrow> rc_lastOp d \<noteq> None \<Longrightarrow> rc_send d = SendWriting \<Longrightarrow> disp_reach K (d\<lparr>rc_send := SendOffering\<rparr>)"
  by (rule reach_step [where ev = OfferConnection]) simp_all

text \<open>The branches of the loop keep the simulation.\<close>

lemma take_batch_sim:
  assumes "sim_inv K c" "cn_loop c = LoopSelect" "cn_reader c = HasBatch ms"
  shows "sim_inv K (after_branch (dispatch_batch K ms (cn_disp c)) (\<lambda>c. c) (c\<lparr>cn_reader := Decoding\<rparr>))"
proof -
  note i = sim_invD [OF assms(1)]
  from i(1,3,4) assms(2,3) have "disp_reach K (cn_disp c)" "rc_reading (cn_disp c)" "\<not> rc_quit (cn_disp c)" by simp_all
  then show ?thesis
  proof (cases rule: dispatch_batch_cases [where ms = ms])
    case (ok d')
    with i(2-4,8) assms(2,3) show ?thesis by (simp add: after_branch_def sim_inv_def same_flags_def)
  next
    case (nil d')
    then show ?thesis by (simp add: after_branch_def sim_inv_def)
  qed
qed

lemma take_error_sim:
  assumes "sim_inv K c" "cn_loop c = LoopSelect" "cn_reader c = HasErr e" "settled (cn_disp c)"
  shows "sim_inv K (after_branch (disp_step K (ReadError e) (cn_disp c)) (\<lambda>c. close_conn (cn_conn c) c)
    (c\<lparr>cn_reader := NoReader\<rparr>))"
proof -
  note i = sim_invD [OF assms(1)]
  from i(1,3,4) assms(2-4)
  have d: "disp_reach K (cn_disp c)" "\<not> rc_quit (cn_disp c)" "event_ok (ReadError e) (cn_disp c)" by simp_all
  then show ?thesis
  proof (cases rule: branch_cases)
    case (ok d')
    with closing_flags(1) [OF client_reach_inv [OF d(1)] ok(1)] i(2,8) d(2) assms(2) show ?thesis
      by (simp add: after_branch_def sim_inv_def del: dispatch_step.simps)
  next
    case stuck
    with i(2,8) d assms(2) show ?thesis by (simp add: after_branch_def sim_inv_def del: dispatch_step.simps)
  qed
qed

lemma take_sent_sim:
  assumes "sim_inv K c" "cn_loop c = LoopSelect" "cn_sender c = Sent e"
  shows "sim_inv K (after_branch (disp_step K (SendDone e) (cn_disp c)) (\<lambda>c. c) (c\<lparr>cn_sender := NoSender\<rparr>))"
proof -
  note i = sim_invD [OF assms(1)]
  from i(1-3,8) assms(2,3)
  have d: "disp_reach K (cn_disp c)" "\<not> rc_quit (cn_disp c)" "event_ok (SendDone e) (cn_disp c)" by auto
  then show ?thesis
  proof (cases rule: branch_cases)
    case (ok d')
    with sent_flags [OF ok(1)] i(4) d(2) assms(2) show ?thesis
      by (simp add: after_branch_def sim_inv_def del: dispatch_step.simps)
  qed (simp add: closing_def)
qed

lemma close_sim:
  assumes "sim_inv K c" "cn_loop c = LoopSelect" "settled (cn_disp c)"
  shows "sim_inv K (after_branch (disp_step K CloseClient (cn_disp c))
    (\<lambda>c. (close_conn (cn_conn c) c)\<lparr>cn_loop := (if rc_reading (cn_disp c) then LoopDrains else LoopGone)\<rparr>) c)"
proof -
  note i = sim_invD [OF assms(1)]
  from i(1,3) assms(2,3)
  have d: "disp_reach K (cn_disp c)" "\<not> rc_quit (cn_disp c)" "event_ok CloseClient (cn_disp c)" by simp_all
  then show ?thesis
  proof (cases rule: branch_cases)
    case (ok d')
    with closing_flags(2) [OF client_reach_inv [OF d(1)] ok(1)] i(2,4,8) d(2) assms(2) show ?thesis
      by (simp add: after_branch_def sim_inv_def del: dispatch_step.simps)
  next
    case stuck
    with i(2,8) d assms(2) show ?thesis by (simp add: after_branch_def sim_inv_def del: dispatch_step.simps)
  qed
qed

lemma cn_step_sim: "cn_step K c c' \<Longrightarrow> sim_inv K c \<Longrightarrow> sim_inv K c'"
proof (induction rule: cn_step.induct)
  case (accept c ev d)
  note i = sim_invD [OF accept.prems]
  from i(1,3) accept.hyps(1) have "disp_reach K (cn_disp c)" "\<not> rc_quit (cn_disp c)" by simp_all
  from reach_step [OF this(1) disjI1 [OF this(2)] accept.hyps(4,5)] accepting_flags [OF accept.hyps(3,5)] i(3,4) accept.hyps(1)
  show ?case by (simp add: sim_inv_def)
next
  case (caller c ev d)
  have loop: "cn_loop c = LoopSelect \<or> (\<exists>n. cn_loop c = LoopAwaits n)" using caller.hyps(1) by (simp add: running_def)
  note i = sim_invD [OF caller.prems]
  from i(1,3) loop caller.hyps(1) have "disp_reach K (cn_disp c)" "\<not> rc_quit (cn_disp c)" by auto
  from reach_step [OF this(1) disjI1 [OF this(2)] caller.hyps(3,4)] caller_flags [OF caller.hyps(2,4)] i loop caller.hyps(1)
  show ?case by (auto simp: sim_inv_def same_flags_def)
next
  case (hand_over c n)
  note i = sim_invD [OF hand_over.prems]
  from i(1,3) hand_over.hyps(1) have "disp_reach K (cn_disp c)" "\<not> rc_quit (cn_disp c)" by simp_all
  with reconnect_reach [of K "cn_disp c"] i(2,4,8) hand_over.hyps
  have r: "disp_reach K ((cn_disp c)\<lparr>rc_send := SendWriting, rc_reading := True\<rparr>)" by simp
  show ?case
  proof (cases "rc_reading (cn_disp c)")
    case True
    then have "(cn_disp c)\<lparr>rc_send := SendWriting, rc_reading := True\<rparr> = (cn_disp c)\<lparr>rc_send := SendWriting\<rparr>" by simp
    with r True i(2-4) hand_over.hyps show ?thesis by (simp add: take_connection_def sim_inv_def)
  next
    case False
    with r i(2-4) hand_over.hyps show ?thesis by (simp add: take_connection_def sim_inv_def)
  qed
next
  case (awaited c n e)
  note i = sim_invD [OF awaited.prems]
  have eq: "(cn_disp c)\<lparr>rc_reading := True\<rparr> = cn_disp c" using i(5) awaited.hyps(1) by simp
  have "disp_reach K ((cn_disp c)\<lparr>rc_reading := True\<rparr>)" unfolding eq using i(1) awaited.hyps(1) by simp
  with i(2,3,5,8) awaited.hyps show ?case by (simp add: sim_inv_def)
next
  case (write_ok c k)
  note i = sim_invD [OF write_ok.prems write_ok.hyps(1)]
  from i write_ends_reach [of K "cn_disp c"] write_ok.hyps show ?case by (auto simp: sim_inv_def)
next
  case (write_fails c k e)
  note i = sim_invD [OF write_fails.prems write_fails.hyps(1)]
  from i write_ends_reach [of K "cn_disp c"] write_fails.hyps show ?case by (auto simp: sim_inv_def)
next
  case (connect_fails c e)
  note i = sim_invD [OF connect_fails.prems connect_fails.hyps(1)]
  from i write_ends_reach [of K "cn_disp c"] connect_fails.hyps show ?case by (auto simp: sim_inv_def)
next
  case (connect c)
  note i = sim_invD [OF connect.prems connect.hyps(1)]
  from i offer_reach [of K "cn_disp c"] connect.hyps show ?case by (auto simp: sim_inv_def)
next
  case (refused c n)
  note i = sim_invD [OF refused.prems]
  from i refused_reach [of K "cn_disp c"] refused.hyps show ?case by (simp add: sim_inv_def)
next
  case (take_batch c ms)
  then show ?case by (intro take_batch_sim)
next
  case (take_error c e)
  then show ?case by (intro take_error_sim)
next
  case (take_sent c e)
  then show ?case by (intro take_sent_sim)
next
  case (close c)
  then show ?case by (intro close_sim)
qed (auto simp: sim_inv_def alive_def)

lemma new_connection_sim: "new_connection (Inr ()) = Inr c \<Longrightarrow> sim_inv K c"
  by (auto simp: new_connection_def sim_inv_def new_client_def intro: reach_new [unfolded new_client_def])

lemma cn_reach_sim: "cn_reach K c \<Longrightarrow> sim_inv K c"
  by (induction rule: cn_reach.induct) (auto intro: new_connection_sim cn_step_sim)

text \<open>The connections: those that are open are the one of the loop and the one on its way to the loop.\<close>

definition passing :: "connection \<Rightarrow> nat list" where
  "passing c = (case cn_loop c of LoopAwaits n \<Rightarrow> [n] | _ \<Rightarrow> []) @ (case cn_sender c of Reconnecting n \<Rightarrow> [n] | _ \<Rightarrow> [])"

definition conn_inv :: "connection \<Rightarrow> bool" where
  "conn_inv c \<longleftrightarrow> cn_conn c < cn_dialled c \<and> (\<forall>k \<in> set (cn_open c). k < cn_dialled c) \<and>
     (\<forall>k \<in> set (passing c). k < cn_dialled c \<and> k \<noteq> cn_conn c) \<and>
     set (cn_open c) \<subseteq> insert (cn_conn c) (set (passing c)) \<and>
     (\<forall>k. cn_write c = Some k \<longrightarrow> k = (case cn_loop c of LoopAwaits n \<Rightarrow> n | _ \<Rightarrow> cn_conn c)) \<and>
     (\<forall>n. cn_sender c = Reconnecting n \<longrightarrow> cn_write c = None) \<and>
     (\<forall>n. cn_loop c = LoopAwaits n \<longrightarrow> cn_conn c \<notin> set (cn_open c) \<and>
        (cn_sender c = Writing \<and> cn_write c = Some n \<or> (\<exists>e. cn_sender c = Sent e))) \<and>
     (cn_loop c = LoopDrains \<or> cn_loop c = LoopGone \<or> cn_loop c = LoopSelect \<and> cn_reader c = NoReader \<longrightarrow>
        cn_conn c \<notin> set (cn_open c))"

lemma after_branch_conn:
  assumes "conn_inv c" "cn_loop c = LoopSelect" "\<And>d. conn_inv (f (c\<lparr>cn_disp := d\<rparr>))"
  shows "conn_inv (after_branch r f c)"
  using assms by (auto simp: after_branch_def conn_inv_def passing_def split: option.split outcome.split)

lemma cn_step_conn: "cn_step K c c' \<Longrightarrow> sim_inv K c \<Longrightarrow> conn_inv c \<Longrightarrow> conn_inv c'"
proof (induction rule: cn_step.induct)
  case (take_batch c ms)
  then show ?case by (intro after_branch_conn) (auto simp: conn_inv_def passing_def)
next
  case (take_error c e)
  let ?r = "disp_step K (ReadError e) (cn_disp c)"
  from take_error show ?case
    by (cases "?r"; cases "the ?r")
      (auto simp: after_branch_def conn_inv_def passing_def simp del: dispatch_step.simps split: sender.splits)
next
  case (take_sent c e)
  then show ?case by (intro after_branch_conn) (auto simp: conn_inv_def passing_def)
next
  case (close c)
  let ?r = "disp_step K CloseClient (cn_disp c)"
  from close show ?case
    by (cases "?r"; cases "the ?r")
      (auto simp: after_branch_def conn_inv_def passing_def simp del: dispatch_step.simps split: sender.splits)
next
  case (hand_over c n)
  with sim_invD(4) [OF hand_over.prems(1)] show ?case
    by (auto simp: take_connection_def conn_inv_def passing_def)
next
  case (caller c ev d)
  then show ?case by (auto simp: conn_inv_def passing_def running_def)
next
  case (awaited c n e)
  then show ?case by (cases "cn_sender c"; cases "cn_write c") (fastforce simp: conn_inv_def passing_def)+
qed (auto simp: conn_inv_def passing_def split: loop_phase.splits)

lemma cn_reach_conn: "cn_reach K c \<Longrightarrow> conn_inv c"
proof (induction rule: cn_reach.induct)
  case (cn_next c c')
  then show ?case using cn_reach_sim cn_step_conn by blast
qed (auto simp: new_connection_def conn_inv_def passing_def)

section \<open>Properties\<close>

text \<open>C8: The connection refines the loop: with the connections, their dialling and the read loop made explicit,
  the state of the loop stays a reachable state of the machine of Rpc_Dispatch until a panic ends the
  program, and the caller that holds the send lock is in the phase that this state records. So what Rpc_Dispatch shows of its
  reachable states holds: each response still reaches the call that waits for it. A branch that closes everything is one step.\<close>

theorem connection_refines_dispatch:
  assumes "cn_reach K c" "\<forall>p. cn_loop c \<noteq> LoopPanicked p"
  shows "client_reach (rk_suffix K) (rk_unmarshal_id K) (rk_unmarshal_note K) (cn_disp c) \<and>
    (rc_lastOp (cn_disp c) = None \<longleftrightarrow> cn_sender c = NoSender) \<and>
    sender_phase (cn_sender c) (rc_send (cn_disp c))"
  using sim_invD(1,2,8) [OF cn_reach_sim [OF assms(1)]] assms(2) by (simp add: alive_def)

text \<open>C17: No connection leaks. An open connection is the one the loop reads or the one a reconnecting caller is handing
  over; when the loop has returned and no caller is in \<open>reconnect\<close>, none is open. A caller that writes has the
  connection of the loop, or the one the loop has just taken from it.\<close>

theorem connections_do_not_leak:
  assumes "cn_reach K c"
  shows "set (cn_open c) \<subseteq> insert (cn_conn c) (set (passing c)) \<and>
    (cn_loop c = LoopGone \<and> (\<forall>n. cn_sender c \<noteq> Reconnecting n) \<longrightarrow> cn_open c = []) \<and>
    (\<forall>k. cn_write c = Some k \<longrightarrow> k = (case cn_loop c of LoopAwaits n \<Rightarrow> n | _ \<Rightarrow> cn_conn c))"
proof -
  note i = cn_reach_conn [OF assms, unfolded conn_inv_def]
  have "passing c = []" if "cn_loop c = LoopGone" "\<forall>n. cn_sender c \<noteq> Reconnecting n"
    using that by (auto simp: passing_def split: sender.splits)
  moreover have "cn_open c = []" if "cn_loop c = LoopGone" "passing c = []"
    using i that by (cases "cn_open c") auto
  ultimately show ?thesis using i by blast
qed

text \<open>The state of the loop after a batch, and after any other branch that leaves it alive.\<close>

lemma taken_batch_loop:
  assumes "cn_reach K c" "alive c" "cn_loop c = LoopSelect" "cn_reader c = HasBatch ms"
  shows "cn_loop (after_branch (dispatch_batch K ms (cn_disp c)) (\<lambda>c. c) (c\<lparr>cn_reader := Decoding\<rparr>)) =
    (if None \<in> set ms then LoopPanicked NilDereference else LoopSelect)"
proof -
  note i = sim_invD [OF cn_reach_sim [OF assms(1)] assms(2)]
  from i(1,3,4) assms(3,4) have "disp_reach K (cn_disp c)" "rc_reading (cn_disp c)" "\<not> rc_quit (cn_disp c)" by simp_all
  then show ?thesis using assms(3)
    by (cases rule: dispatch_batch_cases [where ms = ms]) (simp_all add: after_branch_def)
qed

lemma branch_keeps_alive:
  assumes "cn_reach K c" "alive c" "cn_loop c = LoopSelect" "event_ok ev (cn_disp c)"
    and "\<And>d. alive (f (c1\<lparr>cn_disp := d\<rparr>))"
  shows "cn_loop (after_branch (disp_step K ev (cn_disp c)) f c1) \<noteq> LoopPanicked p"
proof -
  note i = sim_invD [OF cn_reach_sim [OF assms(1)] assms(2)]
  from i(3) assms(3) have "\<not> rc_quit (cn_disp c)" by simp
  from i(1) this assms(4) show ?thesis
    by (cases rule: branch_cases) (use assms(5) in \<open>auto simp: after_branch_def alive_def simp del: dispatch_step.simps\<close>)
qed

text \<open>C26: Only a \<open>null\<close> from the server makes the dispatch loop of a connection panic: it can exactly when it is about to take a
  batch with a nil message in it, whose pointer it follows; nothing else does. (Batches over HTTP, which have no loop, and
  the explicit panics of \<open>Subscribe\<close> are other matters: \<open>batch_trusts_the_server\<close>, \<open>client_subscribe\<close>.)\<close>

theorem only_null_messages_panic:
  assumes "cn_reach K c" "alive c"
  shows "(\<exists>c'. cn_step K c c' \<and> cn_loop c' = LoopPanicked p) \<longleftrightarrow>
    p = NilDereference \<and> cn_loop c = LoopSelect \<and> (\<exists>ms. cn_reader c = HasBatch ms \<and> None \<in> set ms)"
proof -
  note i = sim_invD [OF cn_reach_sim [OF assms(1)] assms(2)]
  note batch = taken_batch_loop [OF assms] and other = branch_keeps_alive [OF assms]
  show ?thesis
  proof
    assume "\<exists>c'. cn_step K c c' \<and> cn_loop c' = LoopPanicked p"
    then obtain c' where c': "cn_step K c c'" "cn_loop c' = LoopPanicked p" by blast
    then show "p = NilDereference \<and> cn_loop c = LoopSelect \<and> (\<exists>ms. cn_reader c = HasBatch ms \<and> None \<in> set ms)"
    proof cases
      case (take_batch ms)
      with batch [OF take_batch(2,3)] c'(2) show ?thesis by (auto split: if_splits)
    next
      case (take_error e)
      with other [OF take_error(2), of "ReadError e"] i(4) c'(2) show ?thesis
        by (auto simp: alive_def simp del: dispatch_step.simps)
    next
      case (take_sent e)
      with other [OF take_sent(2), of "SendDone e"] i(2,8) c'(2) show ?thesis
        by (auto simp: alive_def simp del: dispatch_step.simps)
    next
      case close
      with other [OF close(2), of CloseClient] c'(2) show ?thesis
        by (auto simp: alive_def simp del: dispatch_step.simps)
    qed (use assms(2) in \<open>auto simp: alive_def take_connection_def running_def split: if_splits\<close>)
  next
    assume "p = NilDereference \<and> cn_loop c = LoopSelect \<and> (\<exists>ms. cn_reader c = HasBatch ms \<and> None \<in> set ms)"
    with batch cn_step.take_batch [of c _ K] show "\<exists>c'. cn_step K c c' \<and> cn_loop c' = LoopPanicked p" by fastforce
  qed
qed

text \<open>C20: A reconnect can lock up the client for ever. When the loop takes a new connection while the old read loop
  holds messages it has not delivered, the loop waits for an error of a goroutine that waits for the loop. No
  step of anyone changes that: no call is accepted or answered any more, and Close never returns.\<close>

theorem reconnect_locks_up:
  assumes "cn_loop c = LoopAwaits n" "cn_reader c = HasBatch ms" "(cn_step K)\<^sup>*\<^sup>* c c'"
  shows "cn_loop c' = LoopAwaits n \<and> cn_reader c' = HasBatch ms \<and>
    length (rc_ops (cn_disp c')) = length (rc_ops (cn_disp c)) \<and>
    rc_respWait (cn_disp c') = rc_respWait (cn_disp c)"
  using assms(3)
proof (induction rule: rtranclp_induct)
  case base
  show ?case by (simp add: assms(1,2))
next
  case (step y z)
  have caller: "length (rc_ops d') = length (rc_ops d) \<and> rc_respWait d' = rc_respWait d"
    if "caller_event ev" "disp_step K ev d = Some (Ret u d')" for ev u d d'
    using that by (cases ev) auto
  from step.hyps(2) step.IH show ?case
    by (cases rule: cn_step.cases) (use caller in \<open>auto simp del: dispatch_step.simps\<close>)
qed

section \<open>Sends that end\<close>

lemma sent_is_taken:
  assumes "cn_reach K c" "cn_loop c = LoopSelect" "cn_sender c = Sent e"
  obtains c' where "cn_step K c c'" "cn_sender c' = NoSender" "cn_loop c' = LoopSelect"
proof -
  note i = sim_invD [OF cn_reach_sim [OF assms(1)]]
  from i(1-3,8) assms(2,3)
  have d: "disp_reach K (cn_disp c)" "\<not> rc_quit (cn_disp c)" "event_ok (SendDone e) (cn_disp c)" by auto
  then show thesis
  proof (cases rule: branch_cases)
    case (ok d')
    with cn_step.take_sent [OF assms(2,3), of K] assms(2) that show thesis
      by (simp add: after_branch_def del: dispatch_step.simps)
  qed (simp add: closing_def)
qed

lemma write_can_end:
  assumes "cn_sender c = Writing" "alive c"
  obtains c' e where "cn_step K c c'" "cn_sender c' = Sent e" "cn_loop c' = cn_loop c" "cn_reader c' = cn_reader c"
    "cn_disp c' = write_ends e (cn_disp c)"
  using cn_step.write_fails [OF assms(2,1), where K = K] cn_step.connect_fails [OF assms(2,1), where K = K] that
  by (cases "cn_write c") fastforce+

lemma old_reader_ends:
  assumes "cn_loop c = LoopAwaits n" "cn_reader c = Decoding \<or> (\<exists>e. cn_reader c = HasErr e)"
  obtains c' where "(cn_step K)\<^sup>*\<^sup>* c c'" "cn_sender c' = cn_sender c" "cn_loop c' = LoopSelect"
proof -
  have ends: "\<exists>c'. (cn_step K)\<^sup>*\<^sup>* d c' \<and> cn_sender c' = cn_sender d \<and> cn_loop c' = LoopSelect"
    if "cn_loop d = LoopAwaits n" "cn_reader d = HasErr e" for d e
    using cn_step.awaited [OF that, of K] by (intro exI conjI) (rule r_into_rtranclp, assumption, simp_all)
  show thesis
  proof (cases "cn_reader c = Decoding")
    case True
    let ?c = "c\<lparr>cn_reader := read_step K (Inl (ErrExt ''EOF''))\<rparr>"
    have st: "cn_step K c ?c" by (rule cn_step.read) (simp_all add: assms(1) True)
    have "cn_reader ?c = HasErr (ErrExt ''EOF'')" by (simp add: read_step_def read_message_def)
    with ends [of ?c] assms(1) st that show thesis by (auto intro: converse_rtranclp_into_rtranclp)
  next
    case False
    with assms ends [OF assms(1)] that show thesis by blast
  qed
qed

text \<open>What can keep a send from its end: a loop that waits for ever, or undelivered messages that would lock up a
  reconnect.\<close>

definition held_up :: "connection \<Rightarrow> bool" where
  "held_up c \<longleftrightarrow> (\<exists>ms. cn_reader c = HasBatch ms \<and> ((\<exists>n. cn_loop c = LoopAwaits n) \<or> None \<in> set ms))"

lemma steps_reach: "(cn_step K)\<^sup>*\<^sup>* c c' \<Longrightarrow> cn_reach K c \<Longrightarrow> cn_reach K c'"
  by (induction rule: rtranclp_induct) (auto intro: cn_next)

lemma no_messages_left:
  assumes "cn_reach K c" "cn_loop c = LoopSelect" "\<not> held_up c"
  obtains c' where "(cn_step K)\<^sup>*\<^sup>* c c'" "cn_sender c' = cn_sender c" "cn_loop c' = LoopSelect"
    "cn_reader c' = NoReader \<or> (\<exists>e. cn_reader c' = HasErr e)"
proof -
  have dec: "\<exists>d'. (cn_step K)\<^sup>*\<^sup>* d d' \<and> cn_sender d' = cn_sender d \<and> cn_loop d' = LoopSelect \<and>
      (\<exists>e. cn_reader d' = HasErr e)" if "cn_loop d = LoopSelect" "cn_reader d = Decoding" for d
    using cn_step.read [of d K "Inl (ErrExt ''EOF'')"] that
    by (intro exI [of _ "d\<lparr>cn_reader := read_step K (Inl (ErrExt ''EOF''))\<rparr>"])
      (auto simp: read_step_def read_message_def)
  show thesis
  proof (cases "cn_reader c")
    case (HasBatch ms)
    let ?c = "after_branch (dispatch_batch K ms (cn_disp c)) (\<lambda>c. c) (c\<lparr>cn_reader := Decoding\<rparr>)"
    note i = sim_invD [OF cn_reach_sim [OF assms(1)]]
    from i(1,3,4) assms(2) HasBatch
    have "disp_reach K (cn_disp c)" "rc_reading (cn_disp c)" "\<not> rc_quit (cn_disp c)" by simp_all
    moreover have "None \<notin> set ms" using assms(3) HasBatch by (auto simp: held_up_def)
    ultimately have "cn_loop ?c = LoopSelect \<and> cn_reader ?c = Decoding \<and> cn_sender ?c = cn_sender c"
      using assms(2) by (cases rule: dispatch_batch_cases [where ms = ms]) (simp_all add: after_branch_def)
    moreover have "cn_step K c ?c" by (rule cn_step.take_batch [OF assms(2) HasBatch])
    ultimately show thesis using dec [of ?c] that by (metis converse_rtranclp_into_rtranclp)
  qed (use dec [OF assms(2)] assms(2) that [of c] that in \<open>auto\<close>)
qed

lemma handed_over:
  assumes "cn_reach K c" "cn_loop c = LoopSelect" "cn_sender c = Reconnecting n" "\<not> held_up c"
  obtains c' where "(cn_step K)\<^sup>*\<^sup>* c c'" "cn_sender c' = Writing" "cn_loop c' = LoopSelect"
proof -
  obtain c1 where c1: "(cn_step K)\<^sup>*\<^sup>* c c1" "cn_sender c1 = cn_sender c" "cn_loop c1 = LoopSelect"
    "cn_reader c1 = NoReader \<or> (\<exists>e. cn_reader c1 = HasErr e)" by (rule no_messages_left [OF assms(1,2,4)])
  let ?c = "(take_connection n (c1\<lparr>cn_disp := (cn_disp c1)\<lparr>rc_send := SendWriting\<rparr>\<rparr>))\<lparr>cn_write := Some n, cn_sender := Writing\<rparr>"
  have st: "cn_step K c1 ?c" by (rule cn_step.hand_over [OF c1(3)]) (simp add: c1(2) assms(3))
  have reach: "(cn_step K)\<^sup>*\<^sup>* c ?c" using c1(1) st by (rule rtranclp.rtrancl_into_rtrancl)
  have reading: "rc_reading (cn_disp c1) \<longleftrightarrow> cn_reader c1 \<noteq> NoReader"
    using sim_invD(4) [OF cn_reach_sim [OF steps_reach [OF c1(1) assms(1)]]] c1(3) by simp
  show thesis
  proof (cases "rc_reading (cn_disp c1)")
    case True
    with c1(4) reading obtain e where "cn_loop ?c = LoopAwaits n" "cn_reader ?c = HasErr e"
      by (auto simp: take_connection_def)
    then obtain c2 where "(cn_step K)\<^sup>*\<^sup>* ?c c2" "cn_sender c2 = cn_sender ?c" "cn_loop c2 = LoopSelect"
      using old_reader_ends [where K = K] by metis
    with rtranclp_trans [OF reach] that [of c2] show thesis by simp
  next
    case False
    with reach c1(3) that [of ?c] show thesis by (simp add: take_connection_def)
  qed
qed

text \<open>A send ends. From every reachable state in which a caller holds the send lock and the loop runs, the steps of
  the client lead to a state where the caller is done and the loop takes calls again, unless messages of
  the old connection, or a nil message, are in the way.\<close>

theorem sends_can_finish:
  assumes "cn_reach K c" "running c" "cn_sender c \<noteq> NoSender" "\<not> held_up c"
  shows "\<exists>c'. (cn_step K)\<^sup>*\<^sup>* c c' \<and> cn_sender c' = NoSender \<and> cn_loop c' = LoopSelect"
proof -
  have sent: "\<exists>c'. (cn_step K)\<^sup>*\<^sup>* d c' \<and> cn_sender c' = NoSender \<and> cn_loop c' = LoopSelect"
    if "(cn_step K)\<^sup>*\<^sup>* c d" "cn_loop d = LoopSelect" "cn_sender d = Sent e" for d e
    by (rule sent_is_taken [OF steps_reach [OF that(1) assms(1)] that(2,3)]) (blast intro: r_into_rtranclp)
  have writing: "\<exists>c'. (cn_step K)\<^sup>*\<^sup>* d c' \<and> cn_sender c' = NoSender \<and> cn_loop c' = LoopSelect"
    if d: "(cn_step K)\<^sup>*\<^sup>* c d" "cn_loop d = LoopSelect" "cn_sender d = Writing" for d
  proof -
    obtain d1 e where d1: "cn_step K d d1" "cn_sender d1 = Sent e" "cn_loop d1 = LoopSelect"
      by (rule write_can_end [OF d(3), of K]) (use d(2) in simp_all)
    have "(cn_step K)\<^sup>*\<^sup>* c d1" using d(1) d1(1) by (rule rtranclp.rtrancl_into_rtrancl)
    from sent [OF this d1(3,2)] d1(1) show ?thesis by (blast intro: converse_rtranclp_into_rtranclp)
  qed
  have select: "\<exists>c'. (cn_step K)\<^sup>*\<^sup>* c c' \<and> cn_sender c' = NoSender \<and> cn_loop c' = LoopSelect"
    if "(cn_step K)\<^sup>*\<^sup>* c d" "cn_loop d = LoopSelect" "cn_sender d = Writing \<or> (\<exists>e. cn_sender d = Sent e)" for d
    using that sent [of d] writing [of d] rtranclp_trans [OF that(1)] by blast
  consider (sel) "cn_loop c = LoopSelect" | (awaits) n where "cn_loop c = LoopAwaits n"
    using assms(2) by (auto simp: running_def)
  then show ?thesis
  proof cases
    case sel
    show ?thesis
    proof (cases "cn_sender c")
      case (Reconnecting n)
      obtain d where "(cn_step K)\<^sup>*\<^sup>* c d" "cn_sender d = Writing" "cn_loop d = LoopSelect"
        by (rule handed_over [OF assms(1) sel Reconnecting assms(4)])
      with select show ?thesis by blast
    qed (use select [of c] sel assms(3) in auto)
  next
    case (awaits n)
    have "cn_reader c = Decoding \<or> (\<exists>e. cn_reader c = HasErr e)"
      using sim_invD(5) [OF cn_reach_sim [OF assms(1)]] awaits assms(4)
      by (cases "cn_reader c") (auto simp: held_up_def)
    then obtain d where d: "(cn_step K)\<^sup>*\<^sup>* c d" "cn_sender d = cn_sender c" "cn_loop d = LoopSelect"
      by (rule old_reader_ends [OF awaits, of K])
    have "cn_sender c = Writing \<or> (\<exists>e. cn_sender c = Sent e)"
      using cn_reach_conn [OF assms(1)] awaits by (auto simp: conn_inv_def)
    with select [OF d(1,3)] d(2) show ?thesis by simp
  qed
qed

text \<open>The loop that empties the read channels ends with the read loop, and so does \<open>Close\<close>, which waits for it.\<close>

lemma draining_ends:
  assumes "cn_loop c = LoopDrains" "cn_reader c \<noteq> NoReader"
  shows "\<exists>c'. (cn_step K)\<^sup>*\<^sup>* c c' \<and> cn_loop c' = LoopGone \<and> cn_reader c' = NoReader"
proof -
  have err: "\<exists>c'. (cn_step K)\<^sup>*\<^sup>* d c' \<and> cn_loop c' = LoopGone \<and> cn_reader c' = NoReader"
    if "cn_loop d = LoopDrains" "cn_reader d = HasErr e" for d e
    using cn_step.drain_error [OF that, of K] by (intro exI conjI) (rule r_into_rtranclp, assumption, simp_all)
  have dec: "\<exists>c'. (cn_step K)\<^sup>*\<^sup>* d c' \<and> cn_loop c' = LoopGone \<and> cn_reader c' = NoReader"
    if d: "cn_loop d = LoopDrains" "cn_reader d = Decoding" for d
  proof -
    have "cn_step K d (d\<lparr>cn_reader := read_step K (Inl (ErrExt ''EOF''))\<rparr>)" by (rule cn_step.read) (simp_all add: d)
    with err [of "d\<lparr>cn_reader := read_step K (Inl (ErrExt ''EOF''))\<rparr>"] d(1) show ?thesis
      by (auto simp: read_step_def read_message_def intro: converse_rtranclp_into_rtranclp)
  qed
  show ?thesis
  proof (cases "cn_reader c")
    case (HasBatch ms)
    with cn_step.drain_batch [OF assms(1) HasBatch, of K] dec [of "c\<lparr>cn_reader := Decoding\<rparr>"] assms(1) show ?thesis
      by (auto intro: converse_rtranclp_into_rtranclp)
  qed (use assms err dec in auto)
qed

text \<open>\<open>Close\<close> returns: unless an \<open>Unsubscribe\<close> waits for the loop, the loop can be brought to its end from its \<open>select\<close>; when
  an \<open>Unsubscribe\<close> writes, its write ends first.\<close>

lemma settled_close_can_finish:
  assumes "cn_reach K c" "cn_loop c = LoopSelect" "\<not> unsubscribe_waits (cn_disp c)" "settled (cn_disp c)"
  shows "\<exists>c'. (cn_step K)\<^sup>*\<^sup>* c c' \<and> cn_loop c' = LoopGone \<and> cn_reader c' = NoReader"
proof -
  note i = sim_invD [OF cn_reach_sim [OF assms(1)]]
  from i(1,3) assms(2,4) have d: "disp_reach K (cn_disp c)" "\<not> rc_quit (cn_disp c)" "event_ok CloseClient (cn_disp c)" by simp_all
  then obtain d' where d': "disp_step K CloseClient (cn_disp c) = Some (Ret () d')"
    by (rule branch_cases) (use assms(3) in auto)
  let ?c = "(close_conn (cn_conn c) (c\<lparr>cn_disp := d'\<rparr>))\<lparr>cn_loop := (if rc_reading d' then LoopDrains else LoopGone)\<rparr>"
  have st: "cn_step K c ?c" using cn_step.close [OF assms(2,4), of K] by (simp add: d' after_branch_def del: dispatch_step.simps)
  have "rc_reading d' \<longleftrightarrow> cn_reader c \<noteq> NoReader"
    using closing_flags(2) [OF client_reach_inv [OF d(1)] d'] i(4) assms(2) by simp
  then show ?thesis
    using draining_ends [of ?c K] st by (cases "rc_reading d'") (auto intro: converse_rtranclp_into_rtranclp)
qed

theorem close_can_finish:
  assumes "cn_reach K c" "cn_loop c = LoopSelect" "\<not> unsubscribe_waits (cn_disp c)"
  shows "\<exists>c'. (cn_step K)\<^sup>*\<^sup>* c c' \<and> cn_loop c' = LoopGone \<and> cn_reader c' = NoReader"
proof (cases "settled (cn_disp c)")
  case True
  with assms show ?thesis by (rule settled_close_can_finish)
next
  case False
  then obtain i where "rc_lastOp (cn_disp c) = Some i" "rc_send (cn_disp c) = SendWriting" by (rule not_settled)
  with sim_invD(2,8) [OF cn_reach_sim [OF assms(1)]] assms(2) have "cn_sender c = Writing"
    by (cases "cn_sender c") simp_all
  then obtain c1 e where c1: "cn_step K c c1" "cn_loop c1 = cn_loop c" "cn_disp c1 = write_ends e (cn_disp c)"
    by (rule write_can_end [where K = K]) (use assms(2) in simp_all)
  have "settled (cn_disp c1)" "\<not> unsubscribe_waits (cn_disp c1)"
    using assms(3) by (auto simp: c1(3) settled_def unsubscribe_waits_def split: once.split)
  with settled_close_can_finish [OF cn_next [OF assms(1) c1(1)]] c1(1,2) assms(2) show ?thesis
    by (auto intro: converse_rtranclp_into_rtranclp)
qed

section \<open>Witnesses\<close>

text \<open>A codec, and a client whose second call reconnects while a response to the first one waits.\<close>

definition sample_codec :: rpc_codec where
  "sample_codec = \<lparr>rk_suffix = ''_subscription'', rk_unmarshal_id = Inr,
     rk_unmarshal_note = (\<lambda>p. Inl (ErrExt ''json'')), rk_is_batch = (\<lambda>b. False), rk_unmarshal_batch = (\<lambda>b. Inr []),
     rk_unmarshal_msg = (\<lambda>b. Inr (if b = ''null'' then None else Some (sample_response b)))\<rparr>"

definition idle_connection :: connection where
  "idle_connection = \<lparr>cn_disp = new_client, cn_loop = LoopSelect, cn_conn = 0, cn_write = Some 0, cn_sender = NoSender,
     cn_reader = Decoding, cn_open = [0], cn_dialled = 1\<rparr>"

lemma idle_reach: "cn_reach K idle_connection"
  by (rule cn_start) (simp add: new_connection_def idle_connection_def)

definition call_1 :: rpc_client where "call_1 = accept_op (new_op [''1''] None) new_client"

text \<open>The first call has been accepted, its write failed, and the loop has heard of it; the second call is accepted and
  dials.\<close>

lemma sample_writing: "cn_reach K (idle_connection\<lparr>cn_disp := call_1, cn_sender := Writing\<rparr>)"
proof -
  have "cn_step K idle_connection (idle_connection\<lparr>cn_disp := call_1, cn_sender := Writing\<rparr>)"
    by (rule cn_step.accept [where ev = "AcceptCall [''1'']"])
      (simp_all add: idle_connection_def new_client_def fresh_ids_for_def call_1_def)
  with idle_reach show ?thesis by (rule cn_next)
qed

lemma sample_reconnecting:
  obtains d where "cn_reach K \<lparr>cn_disp = d, cn_loop = LoopSelect, cn_conn = 0, cn_write = None, cn_sender = Reconnecting 1,
     cn_reader = Decoding, cn_open = [1, 0], cn_dialled = 2\<rparr>" "rc_reading d"
proof -
  let ?e = "ErrExt ''write''"
  let ?a = "idle_connection\<lparr>cn_disp := call_1, cn_sender := Writing\<rparr>"
  let ?b = "?a\<lparr>cn_write := None, cn_sender := Sent (Some ?e), cn_disp := write_ends (Some ?e) (cn_disp ?a)\<rparr>"
  have "cn_step K ?a ?b" by (rule cn_step.write_fails) (simp_all add: idle_connection_def)
  with sample_writing have rb: "cn_reach K ?b" by (rule cn_next)
  obtain d where d: "send_done (Some ?e) (write_ends (Some ?e) call_1) = Ret () d" "rc_lastOp d = None" "rc_used d = [''1'']" "rc_reading d"
    by (simp add: send_done_def write_ends_def call_1_def accept_op_def new_op_def new_client_def)
  let ?c = "?b\<lparr>cn_disp := d, cn_sender := NoSender\<rparr>"
  have "cn_step K ?b (after_branch (disp_step K (SendDone (Some ?e)) (cn_disp ?b)) (\<lambda>c. c) (?b\<lparr>cn_sender := NoSender\<rparr>))"
    by (rule cn_step.take_sent) (simp_all add: idle_connection_def)
  moreover have "after_branch (disp_step K (SendDone (Some ?e)) (cn_disp ?b)) (\<lambda>c. c) (?b\<lparr>cn_sender := NoSender\<rparr>) = ?c"
    by (simp add: after_branch_def d(1) idle_connection_def)
  ultimately have rc: "cn_reach K ?c" using rb by (metis cn_next)
  let ?d = "accept_op (new_op [''2''] None) d"
  let ?w = "?c\<lparr>cn_disp := ?d, cn_sender := Writing\<rparr>"
  have "cn_step K ?c ?w"
    by (rule cn_step.accept [where ev = "AcceptCall [''2'']"])
      (simp_all add: idle_connection_def fresh_ids_for_def d(2,3))
  with rc have rw: "cn_reach K ?w" by (rule cn_next)
  let ?r = "?w\<lparr>cn_sender := Reconnecting (cn_dialled ?w), cn_open := cn_dialled ?w # cn_open ?w,
       cn_dialled := Suc (cn_dialled ?w), cn_disp := (cn_disp ?w)\<lparr>rc_send := SendOffering\<rparr>\<rparr>"
  have "cn_step K ?w ?r" by (rule cn_step.connect) (simp_all add: idle_connection_def)
  with rw have "cn_reach K ?r" by (rule cn_next)
  then show thesis by (intro that [of "?d\<lparr>rc_send := SendOffering\<rparr>"]) (simp_all add: idle_connection_def accept_op_def d(4) numeral_2_eq_2)
qed

lemma sample_locked:
  obtains c where "cn_reach sample_codec c" "cn_loop c = LoopAwaits 1" "cn_reader c = HasBatch [Some (sample_response ''1'')]"
proof -
  obtain d where d: "cn_reach sample_codec \<lparr>cn_disp = d, cn_loop = LoopSelect, cn_conn = 0, cn_write = None,
     cn_sender = Reconnecting 1, cn_reader = Decoding, cn_open = [1, 0], cn_dialled = 2\<rparr>" (is "cn_reach _ ?c")
    and r: "rc_reading d" by (rule sample_reconnecting)
  let ?h = "?c\<lparr>cn_reader := read_step sample_codec (Inr ''1'')\<rparr>"
  have "cn_step sample_codec ?c ?h" by (rule cn_step.read) simp_all
  with d have rh: "cn_reach sample_codec ?h" by (rule cn_next)
  let ?l = "(take_connection 1 (?h\<lparr>cn_disp := (cn_disp ?h)\<lparr>rc_send := SendWriting\<rparr>\<rparr>))\<lparr>cn_write := Some 1, cn_sender := Writing\<rparr>"
  have "cn_step sample_codec ?h ?l" by (rule cn_step.hand_over) simp_all
  with rh have "cn_reach sample_codec ?l" by (rule cn_next)
  then show thesis
    by (rule that) (simp_all add: take_connection_def r read_step_def read_message_def sample_codec_def)
qed

theorem connection_refines_dispatch_witness:
  "\<exists>c. cn_reach sample_codec c \<and> cn_sender c = Writing \<and> rc_ops (cn_disp c) = [new_op [''1''] None] \<and>
     client_reach (rk_suffix sample_codec) (rk_unmarshal_id sample_codec) (rk_unmarshal_note sample_codec) (cn_disp c)"
proof -
  let ?c = "idle_connection\<lparr>cn_disp := call_1, cn_sender := Writing\<rparr>"
  have "\<forall>p. cn_loop ?c \<noteq> LoopPanicked p" by (simp add: idle_connection_def)
  from connection_refines_dispatch [OF sample_writing this, of sample_codec] sample_writing show ?thesis
    by (intro exI [of _ ?c]) (simp add: call_1_def accept_op_def new_client_def)
qed

theorem connections_do_not_leak_witness:
  "\<exists>c. cn_reach sample_codec c \<and> cn_loop c = LoopGone \<and> cn_open c = []"
proof -
  let ?h = "idle_connection\<lparr>cn_reader := read_step sample_codec (Inl (ErrExt ''EOF''))\<rparr>"
  let ?q = "idle_connection\<lparr>cn_disp := new_client\<lparr>rc_quit := True\<rparr>, cn_open := [], cn_loop := LoopDrains\<rparr>"
  have "cn_step sample_codec ?h (after_branch (disp_step sample_codec CloseClient (cn_disp ?h))
    (\<lambda>c. (close_conn (cn_conn c) c)\<lparr>cn_loop := (if rc_reading (cn_disp c) then LoopDrains else LoopGone)\<rparr>) ?h)"
    by (rule cn_step.close) (simp_all add: idle_connection_def new_client_def settled_def)
  moreover have "cn_step sample_codec idle_connection ?h"
    by (rule cn_step.read) (simp_all add: idle_connection_def)
  moreover have "disp_step sample_codec CloseClient new_client = Some (Ret () (new_client\<lparr>rc_quit := True\<rparr>))"
    by (simp add: close_request_ops_def new_client_def)
  ultimately have d: "cn_reach sample_codec (?q\<lparr>cn_reader := HasErr (ErrExt ''EOF'')\<rparr>)"
    using cn_next [OF cn_next [OF idle_reach]]
    by (simp add: after_branch_def idle_connection_def close_conn_def new_client_def read_step_def read_message_def
        del: dispatch_step.simps)
  let ?g = "?q\<lparr>cn_reader := NoReader, cn_loop := LoopGone\<rparr>"
  have "cn_step sample_codec (?q\<lparr>cn_reader := HasErr (ErrExt ''EOF'')\<rparr>)
      (?q\<lparr>cn_reader := HasErr (ErrExt ''EOF''), cn_reader := NoReader, cn_loop := LoopGone\<rparr>)"
    by (rule cn_step.drain_error) simp_all
  with d have g: "cn_reach sample_codec ?g" by (simp add: cn_next)
  from connections_do_not_leak [OF g] g show ?thesis by (intro exI [of _ ?g]) (simp add: idle_connection_def)
qed

theorem only_null_messages_panic_witness:
  "\<exists>c c'. cn_reach sample_codec c \<and> cn_reader c = read_step sample_codec (Inr ''null'') \<and>
     cn_step sample_codec c c' \<and> cn_loop c' = LoopPanicked NilDereference"
proof -
  let ?h = "idle_connection\<lparr>cn_reader := read_step sample_codec (Inr ''null'')\<rparr>"
  have "cn_step sample_codec idle_connection ?h"
    by (rule cn_step.read) (simp_all add: idle_connection_def)
  with idle_reach have h: "cn_reach sample_codec ?h" by (rule cn_next)
  have "cn_loop ?h = LoopSelect" "cn_reader ?h = HasBatch [None]"
    by (simp_all add: idle_connection_def read_step_def read_message_def sample_codec_def)
  with only_null_messages_panic [OF h, of NilDereference]
  obtain c' where c': "cn_step sample_codec ?h c'" "cn_loop c' = LoopPanicked NilDereference" by auto
  show ?thesis by (rule exI [of _ ?h], rule exI [of _ c']) (use h c' in simp)
qed

theorem reconnect_locks_up_witness:
  "\<exists>c. cn_reach sample_codec c \<and> running c \<and>
     (\<forall>c'. (cn_step sample_codec)\<^sup>*\<^sup>* c c' \<longrightarrow> cn_loop c' = LoopAwaits 1)"
proof -
  obtain c where c: "cn_reach sample_codec c" "cn_loop c = LoopAwaits 1" "cn_reader c = HasBatch [Some (sample_response ''1'')]"
    by (rule sample_locked)
  have "cn_loop c' = LoopAwaits 1" if "(cn_step sample_codec)\<^sup>*\<^sup>* c c'" for c'
    using reconnect_locks_up [OF c(2,3) that] by simp
  with c show ?thesis by (auto simp: running_def)
qed

theorem sends_can_finish_witness:
  "\<exists>c c'. cn_reach sample_codec c \<and> cn_sender c = Reconnecting 1 \<and> (cn_step sample_codec)\<^sup>*\<^sup>* c c' \<and>
     cn_sender c' = NoSender \<and> cn_loop c' = LoopSelect"
proof -
  obtain d where d: "cn_reach sample_codec \<lparr>cn_disp = d, cn_loop = LoopSelect, cn_conn = 0, cn_write = None,
     cn_sender = Reconnecting 1, cn_reader = Decoding, cn_open = [1, 0], cn_dialled = 2\<rparr>" (is "cn_reach _ ?c")
    by (rule sample_reconnecting)
  have "running ?c" "cn_sender ?c \<noteq> NoSender" "\<not> held_up ?c" by (simp_all add: running_def held_up_def)
  from sends_can_finish [OF d this] obtain c' where c': "(cn_step sample_codec)\<^sup>*\<^sup>* ?c c'"
    "cn_sender c' = NoSender" "cn_loop c' = LoopSelect" by blast
  show ?thesis by (rule exI [of _ ?c], rule exI [of _ c']) (use d c' in simp)
qed

end
