(* ===== verification/Rpc_Dial.thy ===== *)
theory Rpc_Dial
  imports Rpc_Connection
begin

text \<open>
  How the JSON-RPC client of \<open>src/client/client.go\<close> gets its connection: \<open>DialContext\<close> and the functions it calls for
  each scheme, the deadlines, and the connections \<open>httpConn\<close> and \<open>StdIOConn\<close>, which only look like one. The parsers of
  addresses, the resolver, sockets, TLS and the handshake of the websocket package are arguments. The lemmas show
  which transport a client gets, that it starts as the machine of Rpc_Connection, and that no socket stays open
  when dialling fails.
\<close>

section \<open>Websockets\<close>

text \<open>\<open>DialWebsocket\<close> without an origin takes the name of the host, in lower case; \<open>hostname\<close> is
  \<open>os.Hostname()\<close>, \<open>lower\<close> is \<open>strings.ToLower\<close>.\<close>

definition ws_origin :: "error + string \<Rightarrow> (string \<Rightarrow> string) \<Rightarrow> string \<Rightarrow> string \<Rightarrow> error + string" where
  "ws_origin hostname lower endpoint origin =
     (if origin = [] then
        (case hostname of
           Inl e \<Rightarrow> Inl e
         | Inr h \<Rightarrow> Inr ((if take 3 endpoint = ''wss'' then ''https://'' else ''http://'') @ lower h))
      else Inr origin)"

text \<open>\<open>wsDialContext\<close>: the socket is dialled according to the scheme (\<open>tcp\<close> and \<open>tls\<close> take the address), then the
  handshake is made on it. The result is the websocket or an error, and the sockets that were closed.\<close>

definition ErrBadScheme :: error where "ErrBadScheme = ErrExt ''bad scheme''"

definition ws_dial_context ::
  "(string \<Rightarrow> error + 'c) \<Rightarrow> (string \<Rightarrow> error + 'c) \<Rightarrow> ('c \<Rightarrow> error + 'ws) \<Rightarrow> string \<Rightarrow> string \<Rightarrow> (error + 'ws) \<times> 'c list" where
  "ws_dial_context tcp tls handshake scheme addr =
     (case (if scheme = ''ws'' then tcp addr else if scheme = ''wss'' then tls addr else Inl ErrBadScheme) of
        Inl e \<Rightarrow> (Inl e, [])
      | Inr conn \<Rightarrow>
          (case handshake conn of
             Inl e \<Rightarrow> (Inl e, [conn])
           | Inr ws \<Rightarrow> (Inr ws, [])))"

text \<open>The deadline of \<open>contextDialer\<close>: the one of the context, or ten seconds from now.\<close>

definition defaultDialTimeout :: int where "defaultDialTimeout = 10 * 10 ^ 9"

definition dial_deadline :: "int option \<Rightarrow> int \<Rightarrow> int" where
  "dial_deadline deadline now = (case deadline of Some d \<Rightarrow> d | None \<Rightarrow> now + defaultDialTimeout)"

text \<open>The deadline of \<open>write\<close> for a call without one.\<close>

definition defaultWriteTimeout :: int where "defaultWriteTimeout = 10 * 10 ^ 9"

definition write_deadline :: "int option \<Rightarrow> int \<Rightarrow> int" where
  "write_deadline deadline now = (case deadline of Some d \<Rightarrow> d | None \<Rightarrow> now + defaultWriteTimeout)"

text \<open>\<open>DialWebsocket\<close>; \<open>new_config\<close> is \<open>websocket.NewConfig\<close>, \<open>dial\<close> what \<open>wsDialContext\<close> yields for it.\<close>

definition dial_websocket ::
  "error + string \<Rightarrow> (string \<Rightarrow> string) \<Rightarrow> (string \<Rightarrow> string \<Rightarrow> error + 'conf) \<Rightarrow> ('conf \<Rightarrow> error + 'ws) \<Rightarrow>
    string \<Rightarrow> string \<Rightarrow> error + connection" where
  "dial_websocket hostname lower new_config dial endpoint origin =
     (case ws_origin hostname lower endpoint origin of
        Inl e \<Rightarrow> Inl e
      | Inr orig \<Rightarrow>
          (case new_config endpoint orig of
             Inl e \<Rightarrow> Inl e
           | Inr cf \<Rightarrow> new_connection (map_sum id (\<lambda>ws. ()) (dial cf))))"

section \<open>HTTP and standard input\<close>

text \<open>\<open>httpConn\<close>: the client and its request are used by \<open>doRequest\<close> only; as a connection it has the flag of the
  channel \<open>closed\<close>. A read waits for it (\<^const>\<open>None\<close>) and reports the end of the input.\<close>

record http_conn =
  hc_endpoint :: string
  hc_closed :: bool

definition http_read :: "http_conn \<Rightarrow> error option" where
  "http_read hc = (if hc_closed hc then Some (ErrExt ''EOF'') else None)"

definition http_write :: "http_conn \<Rightarrow> (http_conn, unit) outcome" where
  "http_write hc = Panic (ExplicitPanic ''Write called'') hc"

definition http_close :: "http_conn \<Rightarrow> http_conn" where
  "http_close hc = hc\<lparr>hc_closed := True\<rparr>"

text \<open>\<open>StdIOConn\<close> reads and writes the standard files of the process; closing it does nothing, and it has no deadlines.\<close>

definition stdio_close :: "'files \<Rightarrow> error option \<times> 'files" where
  "stdio_close f = (None, f)"

definition stdio_set_deadline :: "int \<Rightarrow> error option" where
  "stdio_set_deadline t = Some (ErrExt ''deadline not supported'')"

text \<open>A dialled client: over HTTP without a loop, else with the machine of Rpc_Connection. \<open>new_request\<close> is the error of
  \<open>http.NewRequest\<close>.\<close>

datatype dialled_client = HttpClient http_conn | LoopClient connection

definition dial_http :: "(string \<Rightarrow> error option) \<Rightarrow> string \<Rightarrow> error + dialled_client" where
  "dial_http new_request endpoint =
     (case new_request endpoint of
        Some e \<Rightarrow> Inl e
      | None \<Rightarrow> Inr (HttpClient \<lparr>hc_endpoint = endpoint, hc_closed = False\<rparr>))"

definition dial_stdio :: "error + connection" where
  "dial_stdio = new_connection (Inr ())"

section \<open>DialContext\<close>

definition client_dial ::
  "(string \<Rightarrow> error + string) \<Rightarrow> (string \<Rightarrow> error option) \<Rightarrow> (string \<Rightarrow> string \<Rightarrow> error + connection) \<Rightarrow>
    string \<Rightarrow> error + dialled_client" where
  "client_dial parse new_request websocket rawurl =
     (case dial_context parse rawurl of
        Inl e \<Rightarrow> Inl e
      | Inr (TransportHTTP u) \<Rightarrow> dial_http new_request u
      | Inr (TransportWebsocket u) \<Rightarrow> map_sum id LoopClient (websocket u [])
      | Inr TransportStdIO \<Rightarrow> map_sum id LoopClient dial_stdio)"

section \<open>Lemmas\<close>

lemma new_connection_reach: "new_connection r = Inr c \<Longrightarrow> cn_reach K c"
  by (cases r) (auto simp: new_connection_def intro: cn_start [unfolded new_connection_def])

lemma dial_websocket_reach: "dial_websocket h l nc d endpoint origin = Inr c \<Longrightarrow> cn_reach K c"
  by (auto simp: dial_websocket_def new_connection_reach split: sum.splits)

text \<open>A client is made for one of the five schemes only, and one with a loop starts where Rpc_Connection starts.\<close>

lemma dialled_client_starts:
  assumes "client_dial parse nr (dial_websocket h l nc d) rawurl = Inr cl"
  shows "case cl of
      HttpClient hc \<Rightarrow> parse rawurl \<in> {Inr ''http'', Inr ''https''} \<and> http_read hc = None \<and>
        http_read (http_close hc) = Some (ErrExt ''EOF'')
    | LoopClient c \<Rightarrow> parse rawurl \<in> {Inr ''ws'', Inr ''wss'', Inr ''stdio''} \<and> cn_reach K c"
proof (cases "dial_context parse rawurl")
  case (Inr t)
  with assms show ?thesis
  proof (cases t)
    case (TransportWebsocket u)
    with Inr assms obtain c where c: "dial_websocket h l nc d u [] = Inr c" "cl = LoopClient c"
      by (cases "dial_websocket h l nc d u []") (auto simp: client_dial_def)
    with Inr TransportWebsocket show ?thesis
      by (auto simp: dial_context_def dial_websocket_reach [OF c(1)] split: sum.splits if_splits)
  next
    case TransportStdIO
    with Inr assms show ?thesis
      by (auto simp: client_dial_def dial_stdio_def dial_context_def new_connection_def
          intro!: new_connection_reach [of "Inr ()"] split: sum.splits if_splits)
  qed (auto simp: client_dial_def dial_http_def dial_context_def http_read_def http_close_def
      split: sum.splits if_splits option.splits)
qed (use assms in \<open>simp add: client_dial_def\<close>)

text \<open>Of the sockets \<open>wsDialContext\<close> opens, exactly the one below the websocket it returns stays open.\<close>

lemma ws_dial_closes:
  assumes "ws_dial_context tcp tls handshake scheme addr = (r, closed)"
  shows "(\<forall>ws. r = Inr ws \<longrightarrow> closed = []) \<and>
    (\<forall>e conn. r = Inl e \<and> (if scheme = ''ws'' then tcp addr else if scheme = ''wss'' then tls addr else Inl ErrBadScheme) = Inr conn \<longrightarrow>
      closed = [conn])"
  using assms by (auto simp: ws_dial_context_def split: sum.splits if_splits)

end
