(* ===== verification/Rpc_Call.thy ===== *)
theory Rpc_Call
  imports Rpc_Connection
begin

text \<open>
  The calls of the JSON-RPC client as their callers see them, \<open>src/client/client.go\<close>: \<open>send\<close>, \<open>wait\<close>, \<open>CallContext\<close> and
  \<open>Subscribe\<close>, over HTTP and over a connection with a dispatch loop. A caller's \<open>select\<close> is given by the case
  that it chose. The lemmas tie what \<open>wait\<close> delivers to the operations of Rpc_Dispatch: a call is answered with its
  own response or with an error, and never follows a nil response.
\<close>

section \<open>Sending and waiting\<close>

text \<open>\<open>send\<close>: the loop took the operation and the write ended with the error \<open>e\<close>, or the context was done, or the
  client had quit.\<close>

datatype send_select = SendTaken "error option" | SendCtxDone error | SendQuit

fun send_result :: "send_select \<Rightarrow> error option" where
  "send_result (SendTaken e) = e"
| "send_result (SendCtxDone e) = Some e"
| "send_result SendQuit = Some ErrClientQuit"

text \<open>\<open>wait\<close>: the context was done, or the channel delivered a message, or nil when it is closed, with \<open>op.err\<close>.\<close>

datatype wait_select = WaitCtxDone error | WaitResp "rpc_message option" "error option"

fun op_wait :: "wait_select \<Rightarrow> rpc_message option \<times> error option" where
  "op_wait (WaitCtxDone e) = (None, Some e)"
| "op_wait (WaitResp resp e) = (resp, e)"

text \<open>What the channel of an operation has for its next receive; \<^const>\<open>None\<close> while there is nothing.\<close>

definition next_resp :: "request_op \<Rightarrow> wait_select option" where
  "next_resp op =
     (if ro_taken op < length (ro_resp op) then Some (WaitResp (Some (ro_resp op ! ro_taken op)) (ro_err op))
      else if ro_closed op then Some (WaitResp None (ro_err op))
      else None)"

section \<open>CallContext and Subscribe\<close>

text \<open>The exchange of a message: the error of sending it, or what \<open>wait\<close> returns. Over HTTP the answer is in the channel
  before \<open>wait\<close> begins.\<close>

type_synonym exchange = "error + rpc_message option \<times> error option"

definition exchange_http :: "(string \<Rightarrow> error + rpc_message) \<Rightarrow> http_outcome \<Rightarrow> exchange" where
  "exchange_http decode h = (case send_http decode h of Inl e \<Rightarrow> Inl e | Inr m \<Rightarrow> Inr (op_wait (WaitResp (Some m) None)))"

definition exchange_socket :: "send_select \<Rightarrow> wait_select \<Rightarrow> exchange" where
  "exchange_socket s w = (case send_result s of Some e \<Rightarrow> Inl e | None \<Rightarrow> Inr (op_wait w))"

definition call_context ::
  "('a \<Rightarrow> error + string) \<Rightarrow> (string \<Rightarrow> 'v \<Rightarrow> 'v \<times> error option) \<Rightarrow> (rpc_message \<Rightarrow> exchange) \<Rightarrow>
    string \<Rightarrow> 'a \<Rightarrow> 32 word \<Rightarrow> 'v \<Rightarrow> ('v, error option) outcome \<times> 32 word" where
  "call_context marshal unmarshal exchange method args n v =
     (case new_message marshal method args n of
        (Inl e, n') \<Rightarrow> (Ret (Some e) v, n')
      | (Inr msg, n') \<Rightarrow>
          ((case exchange msg of
              Inl e \<Rightarrow> Ret (Some e) v
            | Inr (resp, Some e) \<Rightarrow> Ret (Some e) v
            | Inr (None, None) \<Rightarrow> Panic NilDereference v
            | Inr (Some resp, None) \<Rightarrow> (case call_result unmarshal (Inr resp) v of (v', e) \<Rightarrow> Ret e v')), n'))"

text \<open>\<open>BatchCallContext\<close> over a connection; \<open>wait\<close> delivers to its loop messages, which can be nil, or an error.\<close>

definition batch_delivery :: "wait_select \<Rightarrow> error + rpc_message option" where
  "batch_delivery w = (case op_wait w of (resp, Some e) \<Rightarrow> Inl e | (resp, None) \<Rightarrow> Inr resp)"

definition batch_call_socket ::
  "('a \<Rightarrow> error + string) \<Rightarrow> (string \<Rightarrow> 'v \<Rightarrow> 'v \<times> error option) \<Rightarrow> send_select \<Rightarrow> (error + rpc_message option) list \<Rightarrow>
    ('a, 'v) batch_elem list \<Rightarrow> 32 word \<Rightarrow> (('a, 'v) batch_elem list, error option) outcome option \<times> 32 word" where
  "batch_call_socket marshal unmarshal sent deliveries b n =
     (case batch_messages marshal b n of
        (Inl e, n') \<Rightarrow> (Some (Ret (Some e) b), n')
      | (Inr msgs, n') \<Rightarrow>
          (case send_result sent of
             Some e \<Rightarrow> (Some (Ret (Some e) b), n')
           | None \<Rightarrow> (batch_wait unmarshal msgs (length b) deliveries b, n')))"

text \<open>\<open>SupportedModules\<close> calls without arguments.\<close>

definition supported_modules ::
  "(unit \<Rightarrow> error + string) \<Rightarrow> (string \<Rightarrow> 'v \<Rightarrow> 'v \<times> error option) \<Rightarrow> (rpc_message \<Rightarrow> exchange) \<Rightarrow>
    32 word \<Rightarrow> 'v \<Rightarrow> ('v, error option) outcome \<times> 32 word" where
  "supported_modules marshal unmarshal exchange n v = call_context marshal unmarshal exchange ''rpc_modules'' () n v"

text \<open>The argument of \<open>Subscribe\<close>: whether it is a channel one can send on, and whether it is nil. The
  suffix of the method and the error over HTTP are defined nowhere in the repository.\<close>

definition client_subscribe ::
  "error \<Rightarrow> string \<Rightarrow> ('a \<Rightarrow> error + string) \<Rightarrow> bool \<Rightarrow> (rpc_message \<Rightarrow> exchange) \<Rightarrow> bool \<Rightarrow> bool \<Rightarrow> string \<Rightarrow> 'a \<Rightarrow>
    32 word \<Rightarrow> (32 word, error option) outcome" where
  "client_subscribe unsupported suffix marshal isHTTP exchange writable isNil namespace args n =
     (if \<not> writable then Panic (ExplicitPanic ''first argument to Subscribe must be a writable channel'') n
      else if isNil then Panic (ExplicitPanic ''channel given to Subscribe must not be nil'') n
      else if isHTTP then Ret (Some unsupported) n
      else case new_message marshal (namespace @ suffix) args n of
             (Inl e, n') \<Rightarrow> Ret (Some e) n'
           | (Inr msg, n') \<Rightarrow>
               (case exchange msg of
                  Inl e \<Rightarrow> Ret (Some e) n'
                | Inr (resp, e) \<Rightarrow> Ret e n'))"

section \<open>Closed operations carry an error\<close>

definition closed_err :: "request_op \<Rightarrow> bool" where
  "closed_err op \<longleftrightarrow> ro_closed op \<longrightarrow> ro_sub op = None \<longrightarrow> ro_err op \<noteq> None"

definition all_closed_err :: "rpc_client \<Rightarrow> bool" where
  "all_closed_err c \<longleftrightarrow> (\<forall>i < length (rc_ops c). closed_err (rc_ops c ! i))"

lemma all_closed_err_cong: "rc_ops c' = rc_ops c \<Longrightarrow> all_closed_err c' = all_closed_err c"
  by (simp add: all_closed_err_def)

text \<open>A step that changes one operation at most.\<close>

lemma all_closed_err_at:
  assumes "all_closed_err c" "length (rc_ops c') = length (rc_ops c)" "\<And>j. j \<noteq> i \<Longrightarrow> rc_ops c' ! j = rc_ops c ! j"
    and "i < length (rc_ops c) \<Longrightarrow> closed_err (rc_ops c ! i) \<Longrightarrow> closed_err (rc_ops c' ! i)"
  shows "all_closed_err c'"
  unfolding all_closed_err_def
proof (intro allI impI)
  fix j assume "j < length (rc_ops c')"
  with assms show "closed_err (rc_ops c' ! j)" by (cases "j = i") (auto simp: all_closed_err_def)
qed

lemma all_closed_errD: "all_closed_err c \<Longrightarrow> i < length (rc_ops c) \<Longrightarrow> closed_err (rc_ops c ! i)"
  by (simp add: all_closed_err_def)

lemma accept_op_closed_err: "all_closed_err c \<Longrightarrow> all_closed_err (accept_op (new_op ids s) c)"
  by (auto simp: all_closed_err_def accept_op_def new_op_def closed_err_def nth_append)

lemma send_done_closed_err: "send_done e c = Ret u c' \<Longrightarrow> all_closed_err c \<Longrightarrow> all_closed_err c'"
  by (erule all_closed_err_at [where i = "the (rc_lastOp c)"])
    (auto simp: send_done_def closed_err_def split: option.splits)

lemma write_ends_closed_err: "all_closed_err c \<Longrightarrow> all_closed_err (write_ends e c)"
  by (erule all_closed_err_at [where i = "the (rc_lastOp c)"])
    (auto simp: write_ends_def closed_err_def split: option.splits)

lemma close_resp_ops:
  "close_resp i c = Ret u c' \<Longrightarrow> length (rc_ops c') = length (rc_ops c) \<and>
     (\<forall>j. j \<noteq> i \<longrightarrow> rc_ops c' ! j = rc_ops c ! j) \<and>
     (i < length (rc_ops c) \<longrightarrow> ro_sub (rc_ops c' ! i) = ro_sub (rc_ops c ! i))"
  by (auto simp: close_resp_def split: if_splits)

lemma handle_response_closed_err:
  assumes "handle_response ui m c = Some (Ret u c')" "all_closed_err c"
  shows "all_closed_err c'"
proof (cases "\<exists>k i. jm_id m = Some k \<and> map_of (rc_respWait c) k = Some i")
  case False
  with assms show ?thesis by (auto simp: handle_response_def split: option.splits)
next
  case True
  then obtain k i where i: "jm_id m = Some k" "map_of (rc_respWait c) k = Some i" by blast
  let ?c = "c\<lparr>rc_respWait := map_del k (rc_respWait c)\<rparr>"
  show ?thesis
  proof (cases "ro_sub (rc_ops c ! i)")
    case None
    with i assms(1) have "c' = upd_op (ro_resp_update (\<lambda>r. r @ [m])) i ?c"
      by (auto simp: handle_response_def Let_def split: if_splits)
    then show ?thesis by (intro all_closed_err_at [OF assms(2), of _ i]) (auto simp: closed_err_def)
  next
    case (Some s)
    define d where "d = (case (case jm_error m of Some e \<Rightarrow> Inl e | None \<Rightarrow> ui (jm_result m)) of
        Inl e \<Rightarrow> upd_op (ro_err_update (\<lambda>_. Some e)) i ?c
      | Inr sid \<Rightarrow> (upd_csub (cs_subid_update (\<lambda>_. sid)) s ?c)\<lparr>rc_subs := map_put sid s (rc_subs c)\<rparr>)"
    with i Some assms(1) have "close_resp i d = Ret u c'" by (simp add: handle_response_def Let_def)
    moreover have "length (rc_ops d) = length (rc_ops c) \<and> (\<forall>j. j \<noteq> i \<longrightarrow> rc_ops d ! j = rc_ops c ! j) \<and>
        (i < length (rc_ops c) \<longrightarrow> ro_sub (rc_ops d ! i) = Some s)"
      by (simp add: d_def Some split: sum.split)
    ultimately show ?thesis using close_resp_ops [of i d u c']
      by (intro all_closed_err_at [OF assms(2), of _ i]) (auto simp: closed_err_def)
  qed
qed

lemma close_request_ops_closed_err:
  assumes "client_inv c" "close_request_ops e c = Some (Ret u c')" "all_closed_err c"
  shows "all_closed_err c'"
  using assms(1)
proof (cases rule: close_request_ops_cases [where e = e])
  case (closed ops h)
  from closed(1) assms(2) have "rc_ops c' = ops" by auto
  with closed(3,6) assms(3) show ?thesis by (simp add: all_closed_err_def closed_with_def closed_err_def)
qed (use assms(2) in simp)

lemma dispatch_step_closed_err:
  assumes "client_inv c" "dispatch_step sfx ui un ev c = Some (Ret u c')" "all_closed_err c"
  shows "all_closed_err c'"
proof (cases ev)
  case (Incoming m)
  have "all_closed_err (handle_notification sfx un m c)"
    using assms(3) by (auto simp: handle_notification_def all_closed_err_def split: option.split sum.split)
  with Incoming assms(2,3) handle_response_closed_err show ?thesis by (auto split: if_splits)
next
  case (ReadError e)
  with assms close_request_ops_closed_err [OF assms(1)] show ?thesis
    by (auto dest!: branch_ret simp: all_closed_err_def)
next
  case CloseClient
  with assms close_request_ops_closed_err [OF assms(1)] show ?thesis
    by (auto dest!: branch_ret simp: all_closed_err_def)
next
  case (TakeResponse i)
  with assms(2) have "c' = upd_op (ro_taken_update Suc) i c" by simp
  then show ?thesis by (intro all_closed_err_at [OF assms(3), of _ i]) (auto simp: closed_err_def)
next
  case (SendDone e)
  with assms(2,3) send_done_closed_err show ?thesis by auto
next
  case (WriteEnds e)
  with assms(2,3) write_ends_closed_err show ?thesis by auto
next
  case OfferRefused
  with assms(2,3) write_ends_closed_err show ?thesis by auto
qed (use assms(2,3) accept_op_closed_err in \<open>auto simp: all_closed_err_def\<close>)

lemma client_reach_closed_err: "client_reach sfx ui un c \<Longrightarrow> all_closed_err c"
proof (induction rule: client_reach.induct)
  case (reach_step c ev c')
  then show ?case using dispatch_step_closed_err client_reach_inv by blast
qed (simp add: all_closed_err_def new_client_def)

section \<open>Properties\<close>

text \<open>C18: A call over a connection never follows a nil response. In every reachable state of a client that is not over HTTP, what \<open>wait\<close> delivers to a call that
  is no subscription is a response with one of the call's own identifiers, or it comes with an error; so
  \<open>CallContext\<close> returns and does not panic, whatever the state it meets.\<close>

theorem calls_return_without_panic:
  assumes "client_reach sfx ui un c" "i < length (rc_ops c)" "ro_sub (rc_ops c ! i) = None"
    and "next_resp (rc_ops c ! i) = Some w"
  shows "(case op_wait w of
      (None, e) \<Rightarrow> e \<noteq> None
    | (Some resp, e) \<Rightarrow> jm_id resp \<in> Some ` set (ro_ids (rc_ops c ! i))) \<and>
    (\<exists>v' e n'. call_context marshal unmarshal (\<lambda>msg. exchange_socket (SendTaken None) w) method args n v = (Ret e v', n'))"
proof -
  have err: "closed_err (rc_ops c ! i)" by (rule all_closed_errD [OF client_reach_closed_err [OF assms(1)] assms(2)])
  have "jm_id ` set (ro_resp (rc_ops c ! i)) \<subseteq> Some ` set (ro_ids (rc_ops c ! i))"
    using client_invD(3) [OF client_reach_inv [OF assms(1)] assms(2)] by (simp add: op_inv_def)
  then have "ro_taken (rc_ops c ! i) < length (ro_resp (rc_ops c ! i)) \<Longrightarrow>
      jm_id (ro_resp (rc_ops c ! i) ! ro_taken (rc_ops c ! i)) \<in> Some ` set (ro_ids (rc_ops c ! i))"
    using nth_mem by blast
  with err assms(3,4) have w: "case op_wait w of (None, e) \<Rightarrow> e \<noteq> None
      | (Some resp, e) \<Rightarrow> jm_id resp \<in> Some ` set (ro_ids (rc_ops c ! i))"
    by (auto simp: next_resp_def closed_err_def split: if_splits)
  moreover have "\<exists>v' e n'. call_context marshal unmarshal (\<lambda>msg. exchange_socket (SendTaken None) w) method args n v = (Ret e v', n')"
    using w by (auto simp: call_context_def exchange_socket_def split: prod.splits sum.splits option.splits)
  ultimately show ?thesis by blast
qed

text \<open>What the loop of a batch receives from an operation of the dispatch loop, one \<open>wait\<close> after the other: some of its
  responses, while \<open>op.err\<close> is not set, and then perhaps what a done context or the channel delivers last: a response
  with \<open>op.err\<close>, or, from a closed channel, nil with \<open>op.err\<close>.\<close>

definition last_wait :: "request_op \<Rightarrow> nat \<Rightarrow> wait_select \<Rightarrow> bool" where
  "last_wait op k w \<longleftrightarrow> (\<exists>e. w = WaitCtxDone e) \<or> next_resp (op\<lparr>ro_taken := k\<rparr>) = Some w"

definition batch_deliveries :: "request_op \<Rightarrow> (error + rpc_message option) list \<Rightarrow> bool" where
  "batch_deliveries op ds \<longleftrightarrow> (\<exists>k w.
     let before = map (\<lambda>r. batch_delivery (WaitResp (Some r) None)) (take k (ro_resp op))
     in ds = before \<or> last_wait op k w \<and> ds = before @ [batch_delivery w])"

text \<open>A nil message does not come without an error, by the invariant of C19, and a response is one of the operation.\<close>

lemma last_wait_delivery:
  assumes "closed_err op" "ro_sub op = None" "last_wait op k w" "batch_delivery w = Inr x"
  shows "\<exists>r \<in> set (ro_resp op). x = Some r"
  using assms by (auto simp: last_wait_def next_resp_def batch_delivery_def closed_err_def split: if_splits option.splits)

lemma batch_deliveries_known:
  assumes "batch_deliveries op ds" "closed_err op" "ro_sub op = None" "Inr x \<in> set ds"
  shows "\<exists>r \<in> set (ro_resp op). x = Some r"
proof -
  obtain k w where "ds = map (\<lambda>r. batch_delivery (WaitResp (Some r) None)) (take k (ro_resp op)) \<or>
      last_wait op k w \<and> ds = map (\<lambda>r. batch_delivery (WaitResp (Some r) None)) (take k (ro_resp op)) @ [batch_delivery w]"
    using assms(1) by (auto simp: batch_deliveries_def Let_def)
  with last_wait_delivery [OF assms(2,3), of k w x] assms(4) show ?thesis
    by (auto simp: batch_delivery_def dest!: in_set_takeD)
qed

lemma batch_wait_known:
  "(\<And>x. Inr x \<in> set ds \<Longrightarrow> \<exists>r. x = Some r \<and> jm_id r \<in> jm_id ` set msgs) \<Longrightarrow>
     batch_wait unmarshal msgs n ds b \<noteq> Some (Panic p b')"
proof (induction unmarshal msgs n ds b rule: batch_wait.induct)
  case (5 unmarshal msgs n resp rs b)
  obtain i where "find_elem (jm_id resp) msgs = Some i"
    using 5(2) [of "Some resp"] find_elem_None [of "jm_id resp" msgs] by auto
  with 5 show ?case by simp
qed force+

text \<open>C19: A batch over a connection is safe. What the dispatch loop sends to the operation of a batch never panics the
  loop of \<open>BatchCallContext\<close>, and once every identifier has its response the call returns without an error and each
  element holds the answer to its own request. (Over HTTP nothing of this holds: \<open>batch_trusts_the_server\<close>.)\<close>

theorem socket_batches_are_sorted:
  assumes "client_reach sfx ui un c" "i < length (rc_ops c)" "ro_sub (rc_ops c ! i) = None"
    and "batch_messages marshal b n = (Inr msgs, n')" "map jm_id msgs = map Some (ro_ids (rc_ops c ! i))"
    and "batch_deliveries (rc_ops c ! i) ds"
  shows "fst (batch_call_socket marshal unmarshal (SendTaken None) ds b n) \<noteq> Some (Panic p bp) \<and>
    (ds = map answered (ro_resp (rc_ops c ! i)) \<and> length ds = length b \<longrightarrow>
      (\<exists>b'. batch_call_socket marshal unmarshal (SendTaken None) ds b n = (Some (Ret None b'), n') \<and> length b' = length b \<and>
        (\<forall>j < length b. \<exists>r \<in> set (ro_resp (rc_ops c ! i)). jm_id r = jm_id (msgs ! j) \<and>
          b' ! j = answer_elem unmarshal r (b ! j))))"
proof -
  let ?op = "rc_ops c ! i"
  have len: "length msgs = length b" by (rule batch_messages_length [OF assms(4)])
  have op: "distinct (ro_ids ?op)" "distinct (map jm_id (ro_resp ?op))" "jm_id ` set (ro_resp ?op) \<subseteq> Some ` set (ro_ids ?op)"
    using client_invD(3) [OF client_reach_inv [OF assms(1)] assms(2)] by (simp_all add: op_inv_def)
  have ids: "jm_id ` set msgs = Some ` set (ro_ids ?op)" using arg_cong [OF assms(5), of set] by simp
  have "closed_err ?op" by (rule all_closed_errD [OF client_reach_closed_err [OF assms(1)] assms(2)])
  from batch_deliveries_known [OF assms(6) this assms(3)] op(3)
  have "Inr x \<in> set ds \<Longrightarrow> \<exists>r. x = Some r \<and> jm_id r \<in> jm_id ` set msgs" for x unfolding ids by blast
  then have "fst (batch_call_socket marshal unmarshal (SendTaken None) ds b n) \<noteq> Some (Panic p bp)"
    using assms(4) batch_wait_known [of ds msgs] by (simp add: batch_call_socket_def)
  moreover have "\<exists>b'. batch_call_socket marshal unmarshal (SendTaken None) ds b n = (Some (Ret None b'), n') \<and> length b' = length b \<and>
      (\<forall>j < length b. \<exists>r \<in> set (ro_resp ?op). jm_id r = jm_id (msgs ! j) \<and> b' ! j = answer_elem unmarshal r (b ! j))"
    if all: "ds = map answered (ro_resp ?op)" "length ds = length b"
  proof -
    have d: "distinct (map jm_id msgs)" using op(1) unfolding assms(5) by (simp add: distinct_map)
    have "length (map jm_id (ro_resp ?op)) = length (map jm_id msgs)" using all len by simp
    with op(2,3) d have same: "jm_id ` set (ro_resp ?op) = jm_id ` set msgs" unfolding ids [symmetric]
      by (metis card_subset_eq distinct_card finite_imageI List.finite_set list.set_map)
    obtain b' where b': "batch_wait unmarshal msgs (length b) ds b = Some (Ret None b')" "length b' = length b"
      "\<forall>j < length b. b' ! j = answered_by unmarshal msgs (ro_resp ?op) b j"
      using batch_wait_sorts [OF d _ op(2) len [symmetric], of unmarshal] same all by auto
    have "\<exists>r \<in> set (ro_resp ?op). jm_id r = jm_id (msgs ! j) \<and> b' ! j = answer_elem unmarshal r (b ! j)"
      if j: "j < length b" for j
      using answered_by_some [of msgs j "ro_resp ?op" unmarshal b] b'(3) j same len by simp
    with b' assms(4) show ?thesis by (simp add: batch_call_socket_def)
  qed
  ultimately show ?thesis by blast
qed

text \<open>Over HTTP the answer is whatever the body decodes to: its identifier is not compared with the one of the request.\<close>

lemma http_ignores_the_identifier:
  "call_context marshal unmarshal (\<lambda>msg. exchange_http (\<lambda>b. map_sum id (jm_id_update (\<lambda>_. k)) (decode b)) h) method args n v =
     call_context marshal unmarshal (\<lambda>msg. exchange_http decode h) method args n v"
proof -
  have "send_http (\<lambda>b. map_sum id (jm_id_update (\<lambda>_. k)) (decode b)) h =
      map_sum id (jm_id_update (\<lambda>_. k)) (send_http decode h)"
    by (cases h) (simp_all add: send_http_def split: option.split)
  then show ?thesis
    by (cases "send_http decode h"; cases "new_message marshal method args n"; cases "fst (new_message marshal method args n)")
      (simp_all add: call_context_def exchange_http_def call_result_def split: option.split)
qed

section \<open>Witnesses\<close>

theorem calls_return_without_panic_witness:
  "\<exists>c w v' e n'. sample_reach c \<and> next_resp (rc_ops c ! 0) = Some w \<and> op_wait w = (None, Some ErrClientQuit) \<and>
     call_context Inr (\<lambda>r v. (r, None)) (\<lambda>msg. exchange_socket (SendTaken None) w) ''m'' ''[]'' 0 ''x'' = (Ret e v', n')"
proof -
  have r: "sample_reach call_1"
    by (rule reach_step [OF reach_new, where ev = "AcceptCall [''1'']"])
      (simp_all add: new_client_def fresh_ids_for_def call_1_def)
  have c1: "rc_ops call_1 = [new_op [''1''] None]" "rc_respWait call_1 = [(''1'', 0)]" "rc_subs call_1 = []"
    "\<not> rc_quit call_1" by (simp_all add: call_1_def accept_op_def new_client_def new_op_def map_put_def map_del_def)
  obtain c where c: "dispatch_step ''_subscription'' Inr (\<lambda>p. Inl (ErrExt ''json'')) CloseClient call_1 = Some (Ret () c)"
    "rc_ops c = [closed_with ErrClientQuit (new_op [''1''] None)]"
    using c1 by (simp add: close_request_ops_def close_resp_def new_op_def closed_with_def)
  have rc: "sample_reach c" by (rule reach_step [OF r disjI1 [OF c1(4)] _ c(1)]) (simp add: settled_def c1(3))
  have w: "next_resp (rc_ops c ! 0) = Some (WaitResp None (Some ErrClientQuit))"
    by (simp add: c(2) next_resp_def closed_with_def new_op_def)
  have "0 < length (rc_ops c)" "ro_sub (rc_ops c ! 0) = None" by (simp_all add: c(2) closed_with_def new_op_def)
  from calls_return_without_panic [OF rc this w, of Inr "\<lambda>r v. (r, None)" "''m''" "''[]''" 0 "''x''"] rc w
  show ?thesis by (intro exI [of _ c] exI [of _ "WaitResp None (Some ErrClientQuit)"]) simp
qed

text \<open>The batch of two requests again, answered in the other order on a connection.\<close>

definition sample_batch_client :: rpc_client where
  "sample_batch_client = accept_op (new_op [''1'', ''2''] None) new_client"

theorem socket_batches_are_sorted_witness:
  "\<exists>c b. sample_reach c \<and> ro_resp (rc_ops c ! 0) = [sample_answer ''2'' ''B'', sample_answer ''1'' ''A''] \<and>
     fst (batch_call_socket Inr (\<lambda>r v. (r, None)) (SendTaken None) (map answered (ro_resp (rc_ops c ! 0))) sample_batch 0) =
       Some (Ret None b) \<and> map be_result b = [''A'', ''B'']"
proof -
  let ?d = "dispatch_step ''_subscription'' Inr (\<lambda>p. Inl (ErrExt ''json''))"
  have r0: "sample_reach sample_batch_client"
    by (rule reach_step [OF reach_new, where ev = "AcceptCall [''1'', ''2'']"])
      (simp_all add: new_client_def fresh_ids_for_def sample_batch_client_def)
  obtain c1 where c1: "?d (Incoming (sample_answer ''2'' ''B'')) sample_batch_client = Some (Ret () c1)"
    "rc_ops c1 = [(new_op [''1'', ''2''] None)\<lparr>ro_resp := [sample_answer ''2'' ''B'']\<rparr>]"
    "rc_respWait c1 = [(''1'', 0)]" "rc_reading c1" "\<not> rc_quit c1"
    by (simp add: sample_batch_client_def accept_op_def new_client_def new_op_def map_put_def map_del_def upd_op_def
        handle_response_def sample_answer_def is_notification_def is_response_def has_valid_id_def)
  have r1: "sample_reach c1"
    by (rule reach_step [OF r0 _ _ c1(1)]) (simp_all add: sample_batch_client_def accept_op_def new_client_def)
  obtain c where c: "?d (Incoming (sample_answer ''1'' ''A'')) c1 = Some (Ret () c)"
    "rc_ops c = [(new_op [''1'', ''2''] None)\<lparr>ro_resp := [sample_answer ''2'' ''B'', sample_answer ''1'' ''A'']\<rparr>]"
    using c1(2-4) by (simp add: new_op_def map_del_def upd_op_def
        handle_response_def sample_answer_def is_notification_def is_response_def has_valid_id_def)
  have r: "sample_reach c" by (rule reach_step [OF r1 disjI1 [OF c1(5)] _ c(1)]) (simp add: c1(4))
  obtain m1 m2 where m: "batch_messages Inr sample_batch 0 = (Inr [m1, m2], 2)"
    "jm_id m1 = Some ''1''" "jm_id m2 = Some ''2''" using sample_batch_messages by blast
  let ?ds = "map answered (ro_resp (rc_ops c ! 0))"
  have "batch_deliveries (rc_ops c ! 0) ?ds"
    unfolding batch_deliveries_def Let_def
    by (intro exI [of _ "length (ro_resp (rc_ops c ! 0))"]) (simp add: batch_delivery_def)
  moreover have pre: "0 < length (rc_ops c)" "ro_sub (rc_ops c ! 0) = None"
      "map jm_id [m1, m2] = map Some (ro_ids (rc_ops c ! 0))" by (simp_all add: c(2) new_op_def m(2,3))
  moreover have len: "length sample_batch = 2" by (simp add: sample_batch_def)
  moreover have "length ?ds = length sample_batch" by (simp add: c(2) len)
  ultimately obtain b where b: "batch_call_socket Inr (\<lambda>r v. (r, None)) (SendTaken None) ?ds sample_batch 0 = (Some (Ret None b), 2)"
    "length b = 2" "\<forall>j < 2. \<exists>r \<in> set (ro_resp (rc_ops c ! 0)). jm_id r = jm_id ([m1, m2] ! j) \<and>
       b ! j = answer_elem (\<lambda>r v. (r, None)) r (sample_batch ! j)"
    using socket_batches_are_sorted [OF r pre(1,2) m(1) pre(3), of ?ds "\<lambda>r v. (r, None)"] by metis
  from b(3) [rule_format, of 0] m(2,3) c(2) have "be_result (b ! 0) = ''A''"
    by (auto simp: sample_answer_def answer_elem_def sample_batch_def)
  moreover from b(3) [rule_format, of 1] m(2,3) c(2) have "be_result (b ! 1) = ''B''"
    by (auto simp: sample_answer_def answer_elem_def sample_batch_def)
  ultimately have "map be_result b = [''A'', ''B'']" using b(2) by (cases b; cases "tl b") auto
  with b(1) r c(2) show ?thesis by (intro exI [of _ c] exI [of _ b]) simp
qed

end
