(* ===== verification/Rpc_Subscription.thy ===== *)
theory Rpc_Subscription
  imports Rpc_Dispatch
begin

text \<open>
  The life of one \<open>ClientSubscription\<close> of \<open>client/client.go\<close>, as its goroutines interleave: the dispatch loop, which
  delivers results to it and quits it; the goroutine of \<open>start\<close>, which runs \<open>forward\<close>; and any number of callers of
  \<open>Unsubscribe\<close>. They meet at \<open>quitOnce\<close>, \<open>errOnce\<close> and the channels \<open>in\<close>, \<open>quit\<close> and \<open>err\<close>. The theory
  Rpc_Dispatch sees a subscription from the loop only; here \<open>quitWithError\<close> is taken apart into the steps
  between which another goroutine can run. The lemmas show that no channel is closed twice or written after
  it was closed, that the error channel gets one value at most, and when \<open>Unsubscribe\<close> can return; and that the subscription of
  Rpc_Dispatch, with its \<open>forward\<close>, is a view of this one.
\<close>

section \<open>State\<close>

text \<open>Where a goroutine is: in the \<open>select\<close> of the loop; in \<open>deliver\<close>; locked up elsewhere, which happens to the loop when it
  takes a new connection before the old one has delivered its messages (\<open>reconnect_locks_up\<close> of Rpc_Connection) or at
  \<open>quitOnce\<close> of another subscription; in the \<open>select\<close> of \<open>forward\<close>, with its buffer; before \<open>quitOnce.Do\<close>, with the
  arguments of \<open>quitWithError\<close>; inside it, in \<open>requestUnsubscribe\<close>: before the loop has accepted the request, while it dials
  or writes, in \<open>reconnect\<close> with a connection for the loop, in \<open>wait\<close>; inside it, before the send on \<open>err\<close>; before \<open>errOnce.Do\<close>; at
  its end.\<close>

datatype 'v place =
    Idle
  | Delivering string
  | LockedUp
  | Forwarding "'v list"
  | Quitting "error option" bool
  | Requesting "error option"
  | Writing "error option"
  | Offering "error option"
  | Waiting "error option"
  | Reporting "error option"
  | ClosingErr
  | Finished

text \<open>A \<open>sync.Once\<close>: whoever comes while goroutine \<open>i\<close> runs its body waits.\<close>

datatype once_body = NotRun | RunBy nat | HasRun

text \<open>\<open>ss_answered\<close>: the channel \<open>resp\<close> of the unsubscribe call has its answer, or is closed. \<open>ss_err\<close> is the buffer of the
  channel \<open>err\<close>, of one place; \<open>ss_sent\<close> is all that was sent on it, and \<open>ss_got\<close> what
  the subscriber has received on its own channel. Goroutine 0 is the dispatch loop, 1 is \<open>start\<close>, the others call \<open>Unsubscribe\<close>.\<close>

record 'v sub_state =
  ss_quit :: bool
  ss_quitOnce :: once_body
  ss_answered :: bool
  ss_err :: "error option list"
  ss_sent :: "error option list"
  ss_errClosed :: bool
  ss_errOnce :: bool
  ss_got :: "'v list"
  ss_at :: "'v place list"

text \<open>The state when \<open>start\<close> begins, after the server has confirmed the subscription.\<close>

definition started_sub :: "'v sub_state" where
  "started_sub = \<lparr>ss_quit = False, ss_quitOnce = NotRun, ss_answered = False, ss_err = [], ss_sent = [], ss_errClosed = False,
     ss_errOnce = False, ss_got = [], ss_at = [Idle, Forwarding []]\<rparr>"

definition goes :: "nat \<Rightarrow> 'v place \<Rightarrow> 'v sub_state \<Rightarrow> 'v sub_state" where
  "goes i p s = s\<lparr>ss_at := (ss_at s)[i := p]\<rparr>"

section \<open>The methods\<close>

text \<open>A result comes in at \<open>forward\<close>.\<close>

definition forward_in :: "(string \<Rightarrow> error + 'v) \<Rightarrow> string \<Rightarrow> 'v list \<Rightarrow> 'v place" where
  "forward_in unmarshal r buffer =
     (case unmarshal r of
        Inl e \<Rightarrow> Quitting (Some e) True
      | Inr v \<Rightarrow>
          if length buffer = maxClientSubscriptionBuffer then Quitting (Some ErrSubscriptionQueueOverflow) True
          else Forwarding (buffer @ [v]))"

text \<open>What follows \<open>quitWithError\<close> in each goroutine.\<close>

definition after_quit :: "nat \<Rightarrow> 'v place" where
  "after_quit i = (if i = 0 then Idle else if i = 1 then Finished else ClosingErr)"

text \<open>The body of \<open>quitOnce\<close>: up to the request, and from the \<open>if\<close> on. A send on the full channel \<open>err\<close> would block.\<close>

definition quit_begin :: "nat \<Rightarrow> error option \<Rightarrow> bool \<Rightarrow> 'v sub_state \<Rightarrow> ('v sub_state, unit) outcome" where
  "quit_begin i e unsubscribeServer s =
     (let s1 = s\<lparr>ss_quitOnce := RunBy i\<rparr>
      in if ss_quit s1 then Panic CloseOfClosed s1
         else Ret () (goes i (if unsubscribeServer then Requesting e else Reporting e) (s1\<lparr>ss_quit := True\<rparr>)))"

definition quit_end :: "nat \<Rightarrow> error option \<Rightarrow> 'v sub_state \<Rightarrow> ('v sub_state, unit) outcome option" where
  "quit_end i e s =
     (case e of
        None \<Rightarrow> Some (Ret () (goes i (after_quit i) (s\<lparr>ss_quitOnce := HasRun\<rparr>)))
      | Some x \<Rightarrow>
          (let v = if x = ErrClientQuit then None else Some x
           in if ss_errClosed s then Some (Panic (ExplicitPanic ''send on closed channel'') s)
              else if ss_err s = []
                   then Some (Ret () (goes i (after_quit i)
                     (s\<lparr>ss_quitOnce := HasRun, ss_err := [v], ss_sent := ss_sent s @ [v]\<rparr>)))
                   else None))"

definition close_err :: "nat \<Rightarrow> 'v sub_state \<Rightarrow> ('v sub_state, unit) outcome" where
  "close_err i s =
     (if ss_errOnce s then Ret () (goes i Finished s)
      else if ss_errClosed s then Panic CloseOfClosed s
      else Ret () (goes i Finished (s\<lparr>ss_errOnce := True, ss_errClosed := True\<rparr>)))"

section \<open>Steps\<close>

text \<open>The loop may deliver, handle the answer of the unsubscribe call, close all calls and quit the subscription or not, end, or be
  locked up, with all calls closed or not. A goroutine that runs \<open>requestUnsubscribe\<close> goes on when the loop takes its
  request, or has ended; then its write or dial ends, or it offers a connection and goes on when the loop takes that, or
  has ended; then it waits for its answer.\<close>

inductive sub_step :: "(string \<Rightarrow> error + 'v) \<Rightarrow> 'v sub_state \<Rightarrow> ('v sub_state, unit) outcome \<Rightarrow> bool" for U where
  notification: "ss_at s ! 0 = Idle \<Longrightarrow> sub_step U s (Ret () (goes 0 (Delivering r) s))"
| deliver_in: "ss_at s ! 0 = Delivering r \<Longrightarrow> ss_at s ! 1 = Forwarding b \<Longrightarrow>
     sub_step U s (Ret () (goes 0 Idle (goes 1 (forward_in U r b) s)))"
| deliver_quit: "ss_at s ! 0 = Delivering r \<Longrightarrow> ss_quit s \<Longrightarrow> sub_step U s (Ret () (goes 0 Idle s))"
| loop_answers: "ss_at s ! 0 = Idle \<Longrightarrow> sub_step U s (Ret () (s\<lparr>ss_answered := True\<rparr>))"
| loop_quits: "ss_at s ! 0 = Idle \<Longrightarrow>
     sub_step U s (Ret () (goes 0 (Quitting (Some e) False) (s\<lparr>ss_answered := True\<rparr>)))"
| loop_ends: "ss_at s ! 0 = Idle \<Longrightarrow> sub_step U s (Ret () (goes 0 Finished (s\<lparr>ss_answered := True\<rparr>)))"
| loop_locks: "ss_at s ! 0 = Idle \<Longrightarrow>
     sub_step U s (Ret () (goes 0 LockedUp (s\<lparr>ss_answered := ss_answered s \<or> closed\<rparr>)))"
| forward_quit: "ss_at s ! 1 = Forwarding b \<Longrightarrow> ss_quit s \<Longrightarrow> sub_step U s (Ret () (goes 1 (Quitting None False) s))"
| forward_send: "ss_at s ! 1 = Forwarding (v # b) \<Longrightarrow>
     sub_step U s (Ret () (goes 1 (Forwarding b) (s\<lparr>ss_got := ss_got s @ [v]\<rparr>)))"
| unsubscribe: "sub_step U s (Ret () (s\<lparr>ss_at := ss_at s @ [Quitting None True]\<rparr>))"
| once_begins: "i < length (ss_at s) \<Longrightarrow> ss_at s ! i = Quitting e u \<Longrightarrow> ss_quitOnce s = NotRun \<Longrightarrow>
     sub_step U s (quit_begin i e u s)"
| once_done: "i < length (ss_at s) \<Longrightarrow> ss_at s ! i = Quitting e u \<Longrightarrow> ss_quitOnce s = HasRun \<Longrightarrow>
     sub_step U s (Ret () (goes i (after_quit i) s))"
| request: "i < length (ss_at s) \<Longrightarrow> ss_at s ! i = Requesting e \<Longrightarrow> ss_at s ! 0 = Idle \<Longrightarrow>
     sub_step U s (Ret () (goes i (Writing e) (s\<lparr>ss_answered := False\<rparr>)))"
| request_late: "i < length (ss_at s) \<Longrightarrow> ss_at s ! i = Requesting e \<Longrightarrow> ss_at s ! 0 = Finished \<Longrightarrow>
     sub_step U s (Ret () (goes i (Reporting e) s))"
| written: "i < length (ss_at s) \<Longrightarrow> ss_at s ! i = Writing e \<Longrightarrow> sub_step U s (Ret () (goes i (Waiting e) s))"
| write_fails: "i < length (ss_at s) \<Longrightarrow> ss_at s ! i = Writing e \<Longrightarrow> sub_step U s (Ret () (goes i (Reporting e) s))"
| dialled: "i < length (ss_at s) \<Longrightarrow> ss_at s ! i = Writing e \<Longrightarrow> sub_step U s (Ret () (goes i (Offering e) s))"
| offer_taken: "i < length (ss_at s) \<Longrightarrow> ss_at s ! i = Offering e \<Longrightarrow> ss_at s ! 0 = Idle \<Longrightarrow>
     sub_step U s (Ret () (goes i (Writing e) s))"
| offer_refused: "i < length (ss_at s) \<Longrightarrow> ss_at s ! i = Offering e \<Longrightarrow> ss_at s ! 0 = Finished \<Longrightarrow>
     sub_step U s (Ret () (goes i (Reporting e) s))"
| answer: "i < length (ss_at s) \<Longrightarrow> ss_at s ! i = Waiting e \<Longrightarrow> ss_answered s \<Longrightarrow>
     sub_step U s (Ret () (goes i (Reporting e) s))"
| once_ends: "i < length (ss_at s) \<Longrightarrow> ss_at s ! i = Reporting e \<Longrightarrow> quit_end i e s = Some r \<Longrightarrow> sub_step U s r"
| err_once: "i < length (ss_at s) \<Longrightarrow> ss_at s ! i = ClosingErr \<Longrightarrow> sub_step U s (close_err i s)"
| err_received: "ss_err s = x # xs \<Longrightarrow> sub_step U s (Ret () (s\<lparr>ss_err := xs\<rparr>))"

abbreviation sub_moves :: "(string \<Rightarrow> error + 'v) \<Rightarrow> 'v sub_state \<Rightarrow> 'v sub_state \<Rightarrow> bool" where
  "sub_moves U s s' \<equiv> sub_step U s (Ret () s')"

inductive sub_reach :: "(string \<Rightarrow> error + 'v) \<Rightarrow> 'v sub_state \<Rightarrow> bool" for U where
  begun: "sub_reach U started_sub"
| moved: "sub_reach U s \<Longrightarrow> sub_moves U s s' \<Longrightarrow> sub_reach U s'"

section \<open>Invariant\<close>

fun in_body :: "'v place \<Rightarrow> bool" where
  "in_body (Requesting e) = True"
| "in_body (Writing e) = True"
| "in_body (Offering e) = True"
| "in_body (Waiting e) = True"
| "in_body (Reporting e) = True"
| "in_body p = False"

text \<open>The places of each goroutine.\<close>

fun belongs :: "nat \<Rightarrow> 'v place \<Rightarrow> bool" where
  "belongs i Idle = (i = 0)"
| "belongs i (Delivering r) = (i = 0)"
| "belongs i LockedUp = (i = 0)"
| "belongs i (Forwarding b) = (i = 1 \<and> length b \<le> maxClientSubscriptionBuffer)"
| "belongs i (Quitting e u) = (if i = 0 then e \<noteq> None \<and> \<not> u else i = 1 \<or> e = None \<and> u)"
| "belongs i (Requesting e) = (i \<noteq> 0)"
| "belongs i (Writing e) = (i \<noteq> 0)"
| "belongs i (Offering e) = (i \<noteq> 0)"
| "belongs i (Waiting e) = (i \<noteq> 0)"
| "belongs i (Reporting e) = True"
| "belongs i ClosingErr = (2 \<le> i)"
| "belongs i Finished = True"

text \<open>Only the goroutine that runs the body of \<open>quitOnce\<close> is inside it, and nobody has passed it before it has run. A goroutine
  other than the loop that does not mean to tell the server has found \<open>quit\<close> closed.\<close>

definition placed :: "once_body \<Rightarrow> bool \<Rightarrow> nat \<Rightarrow> 'v place \<Rightarrow> bool" where
  "placed q closed i p \<longleftrightarrow> belongs i p \<and> (in_body p \<longleftrightarrow> q = RunBy i) \<and>
     (i \<noteq> 0 \<and> (\<exists>e. p = Quitting e False) \<longrightarrow> q \<noteq> NotRun) \<and>
     (i \<noteq> 0 \<and> (p = ClosingErr \<or> p = Finished) \<longrightarrow> q = HasRun) \<and> (2 \<le> i \<and> p = Finished \<longrightarrow> closed)"

definition sub_inv :: "'v sub_state \<Rightarrow> bool" where
  "sub_inv s \<longleftrightarrow> 2 \<le> length (ss_at s) \<and>
     (\<forall>i < length (ss_at s). placed (ss_quitOnce s) (ss_errClosed s) i (ss_at s ! i)) \<and>
     (\<forall>i. ss_quitOnce s = RunBy i \<longrightarrow> i < length (ss_at s)) \<and>
     (ss_quit s \<longleftrightarrow> ss_quitOnce s \<noteq> NotRun) \<and> ss_errOnce s = ss_errClosed s \<and>
     (ss_quitOnce s \<noteq> HasRun \<longrightarrow> ss_sent s = [] \<and> \<not> ss_errClosed s) \<and>
     length (ss_err s) \<le> length (ss_sent s) \<and> length (ss_sent s) \<le> 1"

lemma sub_invD:
  assumes "sub_inv s"
  shows "2 \<le> length (ss_at s)" "0 < length (ss_at s)" "1 < length (ss_at s)"
    "i < length (ss_at s) \<Longrightarrow> placed (ss_quitOnce s) (ss_errClosed s) i (ss_at s ! i)"
    "ss_quitOnce s = RunBy i \<Longrightarrow> i < length (ss_at s)"
    "ss_quit s \<longleftrightarrow> ss_quitOnce s \<noteq> NotRun" "ss_errOnce s = ss_errClosed s"
    "ss_quitOnce s \<noteq> HasRun \<Longrightarrow> ss_sent s = [] \<and> ss_err s = [] \<and> \<not> ss_errClosed s"
    "length (ss_err s) \<le> length (ss_sent s)" "length (ss_sent s) \<le> 1"
  using assms by (auto simp: sub_inv_def)

lemma goes_fields [simp]:
  "ss_at (goes i p s) = (ss_at s)[i := p]" "ss_quit (goes i p s) = ss_quit s" "ss_quitOnce (goes i p s) = ss_quitOnce s"
  "ss_err (goes i p s) = ss_err s" "ss_sent (goes i p s) = ss_sent s" "ss_errClosed (goes i p s) = ss_errClosed s"
  "ss_errOnce (goes i p s) = ss_errOnce s" "ss_got (goes i p s) = ss_got s" "ss_answered (goes i p s) = ss_answered s"
  by (simp_all add: goes_def)

lemma goes_inv:
  "sub_inv s \<Longrightarrow> i < length (ss_at s) \<Longrightarrow> placed (ss_quitOnce s) (ss_errClosed s) i p \<Longrightarrow> sub_inv (goes i p s)"
  by (auto simp: sub_inv_def nth_list_update)

lemma answered_inv: "sub_inv (s\<lparr>ss_answered := b\<rparr>) = sub_inv s"
  by (simp add: sub_inv_def)

lemma started_inv: "sub_inv started_sub"
  by (auto simp: sub_inv_def started_sub_def placed_def less_Suc_eq)

lemma forward_in_placed:
  "length b \<le> maxClientSubscriptionBuffer \<Longrightarrow> q \<noteq> RunBy 1 \<Longrightarrow> placed q closed 1 (forward_in U r b)"
  by (auto simp: placed_def forward_in_def split: sum.split)

lemma quit_begin_inv:
  assumes "sub_inv s" "i < length (ss_at s)" "ss_at s ! i = Quitting e u" "ss_quitOnce s = NotRun"
  shows "\<exists>s'. quit_begin i e u s = Ret () s' \<and> sub_inv s'"
proof -
  note v = sub_invD [OF assms(1)]
  have "placed (RunBy i) False i (Requesting e)" if u
    using v(4) [OF assms(2)] assms(3,4) that by (auto simp: placed_def split: if_splits)
  moreover have "placed (RunBy i) False i (Reporting e)" by (simp add: placed_def)
  moreover have "placed (RunBy i) False j (ss_at s ! j)" if "j < length (ss_at s)" "j \<noteq> i" for j
    using v(4) [OF that(1)] that(2) assms(3,4) v(8) by (auto simp: placed_def)
  moreover note assms v
  ultimately show ?thesis
    by (auto simp: quit_begin_def Let_def sub_inv_def nth_list_update split: if_splits)
qed

lemma quit_end_inv:
  assumes "sub_inv s" "i < length (ss_at s)" "ss_at s ! i = Reporting e"
  shows "\<exists>s'. quit_end i e s = Some (Ret () s') \<and> sub_inv s'"
proof -
  note v = sub_invD [OF assms(1)]
  have q: "ss_quitOnce s = RunBy i" using v(4) [OF assms(2)] assms(3) by (simp add: placed_def)
  have "placed HasRun False i (after_quit i)" by (simp add: placed_def after_quit_def)
  moreover have "placed HasRun False j (ss_at s ! j)" if "j < length (ss_at s)" "j \<noteq> i" for j
    using v(4) [OF that(1)] that(2) q v(8) by (auto simp: placed_def)
  moreover note assms(2) v q
  ultimately show ?thesis
    by (cases e) (auto simp: quit_end_def Let_def sub_inv_def nth_list_update)
qed

lemma close_err_inv:
  assumes "sub_inv s" "i < length (ss_at s)" "ss_at s ! i = ClosingErr"
  shows "\<exists>s'. close_err i s = Ret () s' \<and> sub_inv s'"
proof -
  note v = sub_invD [OF assms(1)]
  have q: "ss_quitOnce s = HasRun" "2 \<le> i" using v(4) [OF assms(2)] assms(3) by (auto simp: placed_def)
  have "placed HasRun True i Finished" using q by (simp add: placed_def)
  moreover have "placed HasRun True j (ss_at s ! j)" if "j < length (ss_at s)" for j
    using v(4) [OF that] q by (auto simp: placed_def)
  moreover note assms(2) v q
  ultimately show ?thesis
    by (auto simp: close_err_def sub_inv_def nth_list_update)
qed

lemma unsubscribe_inv:
  assumes "sub_inv s"
  shows "sub_inv (s\<lparr>ss_at := ss_at s @ [Quitting None True]\<rparr>)"
proof -
  note v = sub_invD [OF assms]
  have "ss_quitOnce s \<noteq> RunBy (length (ss_at s))" using v(5) [of "length (ss_at s)"] by blast
  then have new: "placed (ss_quitOnce s) (ss_errClosed s) (length (ss_at s)) (Quitting None True)"
    using v(1) by (auto simp: placed_def)
  have "placed (ss_quitOnce s) (ss_errClosed s) i ((ss_at s @ [Quitting None True]) ! i)"
    if "i < Suc (length (ss_at s))" for i
    using v(4) [of i] new that by (cases "i = length (ss_at s)") (simp_all add: nth_append)
  with assms show ?thesis by (auto simp: sub_inv_def less_Suc_eq)
qed

lemma sub_step_inv:
  assumes "sub_step U s r" "sub_inv s"
  obtains s' where "r = Ret () s'" "sub_inv s'"
proof -
  note v = sub_invD [OF assms(2)] and stays = goes_inv [OF assms(2)]
  note loop = v(4) [OF v(2)] and start = v(4) [OF v(3)]
  have "\<exists>s'. r = Ret () s' \<and> sub_inv s'"
    using assms(1)
  proof cases
    case (deliver_in x b)
    then have "placed (ss_quitOnce s) (ss_errClosed s) 1 (forward_in U x b)"
      using start by (intro forward_in_placed) (auto simp: placed_def)
    from goes_inv [OF stays [OF v(3) this], of 0 Idle] loop deliver_in v(2) show ?thesis by (auto simp: placed_def)
  next
    case (unsubscribe)
    with unsubscribe_inv [OF assms(2)] show ?thesis by blast
  next
    case (once_begins i e u)
    with quit_begin_inv [OF assms(2)] show ?thesis by auto
  next
    case (once_ends i e)
    with quit_end_inv [OF assms(2)] show ?thesis by fastforce
  next
    case (err_once i)
    with close_err_inv [OF assms(2)] show ?thesis by auto
  next
    case (once_done i e u)
    then show ?thesis using stays [of i "after_quit i"] v(4) [of i] by (auto simp: placed_def after_quit_def)
  next
    case (request i e)
    from request have "sub_inv (goes i (Writing e) (s\<lparr>ss_answered := False\<rparr>))"
      using v(4) [of i] by (intro goes_inv) (auto simp: placed_def answered_inv assms(2))
    with request show ?thesis by simp
  next
    case (request_late i e)
    then show ?thesis using stays [of i "Reporting e"] v(4) [of i] by (auto simp: placed_def)
  next
    case (answer i e)
    then show ?thesis using stays [of i "Reporting e"] v(4) [of i] by (auto simp: placed_def)
  next
    case (written i e)
    then show ?thesis using stays [of i "Waiting e"] v(4) [of i] by (auto simp: placed_def)
  next
    case (write_fails i e)
    then show ?thesis using stays [of i "Reporting e"] v(4) [of i] by (auto simp: placed_def)
  next
    case (dialled i e)
    then show ?thesis using stays [of i "Offering e"] v(4) [of i] by (auto simp: placed_def)
  next
    case (offer_taken i e)
    then show ?thesis using stays [of i "Writing e"] v(4) [of i] by (auto simp: placed_def)
  next
    case (offer_refused i e)
    then show ?thesis using stays [of i "Reporting e"] v(4) [of i] by (auto simp: placed_def)
  next
    case (loop_answers)
    with assms(2) show ?thesis by (simp add: answered_inv)
  next
    case (loop_quits e)
    have "sub_inv (goes 0 (Quitting (Some e) False) (s\<lparr>ss_answered := True\<rparr>))"
      using loop loop_quits v(2) by (intro goes_inv) (auto simp: placed_def answered_inv assms(2))
    with loop_quits show ?thesis by simp
  next
    case (loop_ends)
    have "sub_inv (goes 0 Finished (s\<lparr>ss_answered := True\<rparr>))"
      using loop loop_ends v(2) by (intro goes_inv) (auto simp: placed_def answered_inv assms(2))
    with loop_ends show ?thesis by simp
  next
    case (loop_locks closed)
    have "sub_inv (goes 0 LockedUp (s\<lparr>ss_answered := ss_answered s \<or> closed\<rparr>))"
      using loop loop_locks v(2) by (intro goes_inv) (auto simp: placed_def answered_inv assms(2))
    with loop_locks show ?thesis by simp
  next
    case (forward_quit b)
    then show ?thesis using stays [OF v(3), of "Quitting None False"] start v(6) by (auto simp: placed_def)
  next
    case (forward_send x b)
    then show ?thesis using stays [OF v(3), of "Forwarding b"] start by (auto simp: placed_def sub_inv_def)
  next
    case (err_received x xs)
    with v show ?thesis by (auto simp: sub_inv_def)
  qed (use loop start v(2,3) in \<open>auto intro!: stays simp: placed_def\<close>)
  then show thesis using that by blast
qed

lemma sub_reach_inv: "sub_reach U s \<Longrightarrow> sub_inv s"
  by (induction rule: sub_reach.induct) (auto intro: started_inv elim: sub_step_inv)

lemma sub_moves_inv:
  "(sub_moves U)\<^sup>*\<^sup>* s s' \<Longrightarrow> sub_inv s \<Longrightarrow> sub_inv s' \<and> length (ss_at s) \<le> length (ss_at s')"
proof (induction rule: rtranclp_induct)
  case (step s1 s2)
  have "sub_inv s2" by (rule sub_step_inv [OF step.hyps(2)]) (use step in auto)
  moreover have "length (ss_at s1) \<le> length (ss_at s2)"
    using step.hyps(2) by cases (auto simp: quit_begin_def quit_end_def close_err_def Let_def split: if_splits option.splits)
  ultimately show ?case using step by simp
qed simp

section \<open>The way out\<close>

text \<open>When nobody leaves \<open>quitOnce\<close> any more: the loop is locked up elsewhere before anyone has begun its body, so whoever begins
  it waits for the loop to take the request; or the body waits for the loop, to take its request or its connection, and the loop
  is locked up, or waits for the body; or the body waits for an answer from a loop that is locked up.\<close>

definition locked :: "'v sub_state \<Rightarrow> bool" where
  "locked s \<longleftrightarrow> (case ss_quitOnce s of
      NotRun \<Rightarrow> ss_at s ! 0 = LockedUp
    | RunBy i \<Rightarrow>
        (case ss_at s ! i of
           Requesting e \<Rightarrow> ss_at s ! 0 = LockedUp \<or> (\<exists>e u. ss_at s ! 0 = Quitting e u)
         | Offering e \<Rightarrow> ss_at s ! 0 = LockedUp \<or> (\<exists>e u. ss_at s ! 0 = Quitting e u)
         | Waiting e \<Rightarrow> ss_at s ! 0 = LockedUp \<and> \<not> ss_answered s
         | _ \<Rightarrow> False)
    | HasRun \<Rightarrow> False)"

lemma locked_once: "locked s \<Longrightarrow> ss_quitOnce s \<noteq> HasRun"
  by (auto simp: locked_def)

lemma locked_not_run:
  assumes "sub_inv s" "locked s" "ss_quitOnce s = NotRun" "sub_moves U s s'"
  shows "locked s'"
proof -
  note v = sub_invD [OF assms(1)]
  have loop: "ss_at s ! 0 = LockedUp" using assms(2,3) by (simp add: locked_def)
  have out: "\<not> in_body (ss_at s ! j)" "j = 0 \<or> ss_at s ! j \<noteq> ClosingErr" if "j < length (ss_at s)" for j
    using v(4) [OF that] assms(3) by (auto simp: placed_def)
  from assms(4) show ?thesis
  proof cases
    case (once_begins i e u)
    have "i \<noteq> 0" using once_begins(3) loop by (cases "i = 0") auto
    moreover from this have "u" using v(4) [OF once_begins(2)] once_begins(3) assms(3) by (auto simp: placed_def)
    moreover note once_begins
    ultimately show ?thesis using loop by (auto simp: quit_begin_def Let_def locked_def split: if_splits)
  next
    case (err_once i)
    with out(2) [of i] loop show ?thesis by auto
  qed (use loop assms(3) v(2,3) out(1) in \<open>auto simp: locked_def nth_list_update nth_append dest!: out(1)\<close>)
qed

lemma locked_run_by:
  assumes "sub_inv s" "locked s" "ss_quitOnce s = RunBy i" "sub_moves U s s'"
  shows "locked s'"
proof -
  note v = sub_invD [OF assms(1)]
  have body: "j = i" if "j < length (ss_at s)" "in_body (ss_at s ! j)" for j
    using v(4) [OF that(1)] that(2) assms(3) by (auto simp: placed_def)
  have early: "ss_at s ! j \<noteq> ClosingErr" if "j < length (ss_at s)" for j
    using v(4) [OF that] assms(3) by (auto simp: placed_def)
  have i: "i < length (ss_at s)" by (rule v(5) [OF assms(3)])
  have at: "(\<exists>e. ss_at s ! i = Requesting e \<or> ss_at s ! i = Offering e) \<and> (ss_at s ! 0 = LockedUp \<or> (\<exists>e u. ss_at s ! 0 = Quitting e u)) \<or>
      (\<exists>e. ss_at s ! i = Waiting e) \<and> ss_at s ! 0 = LockedUp \<and> \<not> ss_answered s"
    using assms(2,3) by (auto simp: locked_def split: place.splits)
  then have "i \<noteq> 0" by (cases "i = 0") auto
  have same: "locked s'" if "ss_quitOnce s' = RunBy i" "ss_at s' ! i = ss_at s ! i" "ss_at s' ! 0 = ss_at s ! 0" "ss_answered s' = ss_answered s"
    using assms(2,3) that by (cases "ss_at s ! i") (simp_all add: locked_def)
  from assms(4) show ?thesis
  proof cases
    case (once_ends j e)
    with body [of j] at show ?thesis by auto
  next
    case (err_once j)
    with early [of j] show ?thesis by simp
  next
    case (written j e)
    with body [of j] at show ?thesis by auto
  next
    case (write_fails j e)
    with body [of j] at show ?thesis by auto
  next
    case (dialled j e)
    with body [of j] at show ?thesis by auto
  next
    case (answer j e)
    with body [of j] at show ?thesis by auto
  next
    case (forward_quit b)
    have "i \<noteq> 1" using at forward_quit(2) by auto
    then show ?thesis using forward_quit assms(3) by (intro same) simp_all
  next
    case (forward_send x b)
    have "i \<noteq> 1" using at forward_send(2) by auto
    then show ?thesis using forward_send assms(3) by (intro same) simp_all
  next
    case (unsubscribe)
    then show ?thesis using i v(2) assms(3) by (intro same) (simp_all add: nth_append)
  next
    case (err_received x xs)
    then show ?thesis using assms(3) by (intro same) simp_all
  qed (use at assms(3) in auto)
qed

lemma locked_for_ever:
  "(sub_moves U)\<^sup>*\<^sup>* s s' \<Longrightarrow> sub_inv s \<Longrightarrow> locked s \<Longrightarrow> locked s'"
proof (induction rule: rtranclp_induct)
  case (step y z)
  from step have inv: "sub_inv y" "locked y" by (auto dest: sub_moves_inv)
  then show ?case using locked_not_run [OF inv _ step.hyps(2)] locked_run_by [OF inv _ step.hyps(2)] locked_once [OF inv(2)]
    by (cases "ss_quitOnce y") auto
qed

text \<open>A loop that has come to quit the subscription, or has ended, has closed all calls.\<close>

definition calls_closed :: "'v sub_state \<Rightarrow> bool" where
  "calls_closed s \<longleftrightarrow> ((\<exists>e u. ss_at s ! 0 = Quitting e u) \<or> ss_at s ! 0 = Finished \<longrightarrow> ss_answered s)"

lemma sub_reach_closed: "sub_reach U s \<Longrightarrow> calls_closed s"
proof (induction rule: sub_reach.induct)
  case begun
  show ?case by (simp add: calls_closed_def started_sub_def)
next
  case (moved s s')
  note v = sub_invD [OF sub_reach_inv [OF moved.hyps(1)]]
  from moved.hyps(2) moved.IH v(2,3) v(4) [OF v(2)] show ?case
    by cases (auto simp: calls_closed_def placed_def quit_begin_def quit_end_def close_err_def after_quit_def forward_in_def Let_def
        nth_list_update nth_append split: if_splits option.splits sum.splits)
qed

text \<open>The body of \<open>quitOnce\<close> ends, step by step from its last statement.\<close>

definition ends_once :: "(string \<Rightarrow> error + 'v) \<Rightarrow> 'v sub_state \<Rightarrow> bool" where
  "ends_once U s \<longleftrightarrow> (\<exists>s'. (sub_moves U)\<^sup>*\<^sup>* s s' \<and> ss_quitOnce s' = HasRun)"

lemma ends_once_later: "sub_moves U s s1 \<Longrightarrow> ends_once U s1 \<Longrightarrow> ends_once U s"
  unfolding ends_once_def by (meson converse_rtranclp_into_rtranclp)

lemma reporting_ends:
  assumes "sub_inv s" "i < length (ss_at s)" "ss_at s ! i = Reporting e"
  shows "ends_once U s"
proof -
  obtain s' where s': "quit_end i e s = Some (Ret () s')" using quit_end_inv [OF assms] by blast
  then have "ss_quitOnce s' = HasRun" by (auto simp: quit_end_def Let_def split: option.splits if_splits)
  with sub_step.once_ends [OF assms(2,3) s'] show ?thesis unfolding ends_once_def by blast
qed

text \<open>A step of the body to another of its places, or to its last statement.\<close>

lemma body_goes:
  assumes "sub_inv s" "i < length (ss_at s)" "in_body (ss_at s ! i)" "i \<noteq> 0" "in_body p"
  shows "sub_inv (goes i p s)"
  using assms(5) sub_invD(4) [OF assms(1,2)] assms(3,4) by (intro goes_inv [OF assms(1,2)]) (cases p; auto simp: placed_def)+

lemma goes_to_report:
  assumes "sub_inv s" "i < length (ss_at s)" "in_body (ss_at s ! i)" "i \<noteq> 0" "sub_moves U s (goes i (Reporting e) s)"
  shows "ends_once U s"
proof (rule ends_once_later [OF assms(5)])
  have "sub_inv (goes i (Reporting e) s)" by (rule body_goes [OF assms(1-4)]) simp
  then show "ends_once U (goes i (Reporting e) s)" by (rule reporting_ends) (use assms(2) in auto)
qed

lemma writing_ends:
  assumes "sub_inv s" "i < length (ss_at s)" "ss_at s ! i = Writing e"
  shows "ends_once U s"
proof -
  have "i \<noteq> 0" using sub_invD(4) [OF assms(1,2)] assms(3) by (auto simp: placed_def)
  with goes_to_report [OF assms(1,2) _ _ sub_step.write_fails [OF assms(2,3)]] assms(3) show ?thesis by simp
qed

text \<open>With a loop in its \<open>select\<close> the body ends from everywhere.\<close>

lemma idle_loop_ends:
  assumes "sub_inv s" "i < length (ss_at s)" "in_body (ss_at s ! i)" "ss_at s ! 0 = Idle"
  shows "ends_once U s"
proof -
  have i: "i \<noteq> 0" using assms(3,4) by (cases "i = 0") auto
  show ?thesis
  proof (cases "ss_at s ! i")
    case (Requesting e)
    have "sub_inv (goes i (Writing e) (s\<lparr>ss_answered := False\<rparr>))"
      using assms i by (intro body_goes) (simp_all add: answered_inv)
    then have "ends_once U (goes i (Writing e) (s\<lparr>ss_answered := False\<rparr>))" by (rule writing_ends) (use assms(2) in auto)
    then show ?thesis by (rule ends_once_later [OF sub_step.request [OF assms(2) Requesting assms(4)]])
  next
    case (Offering e)
    have "sub_inv (goes i (Writing e) s)" using assms i by (intro body_goes) simp_all
    then have "ends_once U (goes i (Writing e) s)" by (rule writing_ends) (use assms(2) in auto)
    then show ?thesis by (rule ends_once_later [OF sub_step.offer_taken [OF assms(2) Offering assms(4)]])
  next
    case (Waiting e)
    let ?t = "s\<lparr>ss_answered := True\<rparr>"
    have "sub_moves U ?t (goes i (Reporting e) ?t)" by (rule sub_step.answer) (use assms(2) Waiting in simp_all)
    then have "ends_once U ?t" by (rule goes_to_report [rotated 4]) (use assms i in \<open>simp_all add: answered_inv\<close>)
    then show ?thesis by (rule ends_once_later [OF sub_step.loop_answers [OF assms(4)]])
  qed (use assms(1-3) writing_ends reporting_ends in auto)
qed

lemma body_ends:
  assumes "sub_inv s" "ss_quitOnce s = RunBy i" "\<not> locked s" "calls_closed s"
  shows "ends_once U s"
proof -
  note v = sub_invD [OF assms(1)]
  have i: "i < length (ss_at s)" by (rule v(5) [OF assms(2)])
  have body: "in_body (ss_at s ! i)" using v(4) [OF i] assms(2) by (simp add: placed_def)
  consider (w) e where "ss_at s ! i = Writing e" | (r) e where "ss_at s ! i = Reporting e"
    | (rest) "\<exists>e. ss_at s ! i = Requesting e \<or> ss_at s ! i = Offering e \<or> ss_at s ! i = Waiting e"
    using body by (cases "ss_at s ! i") auto
  then show ?thesis
  proof cases
    case w
    with writing_ends [OF assms(1) i] show ?thesis by blast
  next
    case r
    with reporting_ends [OF assms(1) i] show ?thesis by blast
  next
    case rest
    have i0: "i \<noteq> 0" using rest v(4) [OF i] by (auto simp: placed_def)
    have late: "ends_once U s" if "ss_answered s" "ss_at s ! i = Waiting e" for e
      by (rule goes_to_report [OF assms(1) i body i0 sub_step.answer [OF i that(2,1)]])
    show ?thesis
    proof (cases "ss_at s ! 0")
      case Idle
      with idle_loop_ends [OF assms(1) i body] show ?thesis by blast
    next
      case (Delivering x)
      have quit: "ss_quit s" using v(6) assms(2) by simp
      have "sub_inv (goes 0 Idle s)"
        using v(4) [OF v(2)] Delivering by (intro goes_inv [OF assms(1) v(2)]) (auto simp: placed_def)
      then have "ends_once U (goes 0 Idle s)" by (rule idle_loop_ends [where i = i]) (use i i0 body v(2) in auto)
      then show ?thesis by (rule ends_once_later [OF sub_step.deliver_quit [OF Delivering quit]])
    next
      case LockedUp
      with rest assms(2,3) late show ?thesis by (auto simp: locked_def)
    next
      case (Quitting a u)
      with assms(4) have "ss_answered s" by (simp add: calls_closed_def)
      with Quitting rest assms(2,3) late show ?thesis by (auto simp: locked_def)
    next
      case Finished
      with assms(4) have "ss_answered s" by (simp add: calls_closed_def)
      with rest late goes_to_report [OF assms(1) i body i0 sub_step.request_late [OF i _ Finished]]
        goes_to_report [OF assms(1) i body i0 sub_step.offer_refused [OF i _ Finished]] show ?thesis by auto
    qed (use v(4) [OF v(2)] i0 assms(2) in \<open>auto simp: placed_def\<close>)
  qed
qed

lemma entering_ends:
  assumes "sub_inv s" "ss_quitOnce s = NotRun" "i < length (ss_at s)" "ss_at s ! i = Quitting e u"
    and "\<And>s'. quit_begin i e u s = Ret () s' \<Longrightarrow> sub_inv s' \<Longrightarrow> ends_once U s'"
  shows "ends_once U s"
proof -
  obtain s' where s': "quit_begin i e u s = Ret () s'" "sub_inv s'"
    using quit_begin_inv [OF assms(1,3,4,2)] by blast
  from sub_step.once_begins [OF assms(3,4,2), of U] have "sub_moves U s s'" by (simp add: s'(1))
  from ends_once_later [OF this assms(5) [OF s']] show ?thesis .
qed

lemma once_can_end:
  assumes "sub_inv s" "\<not> locked s" "calls_closed s" "2 \<le> k" "k < length (ss_at s)"
  shows "ends_once U s"
proof (cases "ss_quitOnce s")
  case HasRun
  then show ?thesis unfolding ends_once_def by blast
next
  case (RunBy i)
  then show ?thesis by (rule body_ends [OF assms(1) _ assms(2,3)])
next
  case NotRun
  note enters = entering_ends [OF assms(1) NotRun]
  note loop = sub_invD(4) [OF assms(1) sub_invD(2) [OF assms(1)]]
  show ?thesis
  proof (cases "\<exists>e u. ss_at s ! 0 = Quitting e u")
    case True
    then obtain e where "ss_at s ! 0 = Quitting e False" using loop by (auto simp: placed_def split: if_splits)
    with sub_invD(2) [OF assms(1)] show ?thesis
    proof (rule enters)
      fix s' assume s': "quit_begin 0 e False s = Ret () s'" "sub_inv s'"
      with sub_invD(2) [OF assms(1)] have "0 < length (ss_at s')" "ss_at s' ! 0 = Reporting e"
        by (auto simp: quit_begin_def Let_def split: if_splits)
      then show "ends_once U s'" by (rule reporting_ends [OF s'(2)])
    qed
  next
    case False
    have "ss_at s ! k = Quitting None True"
      using sub_invD(4) [OF assms(1,5)] NotRun assms(4) by (cases "ss_at s ! k") (auto simp: placed_def split: if_splits)
    with assms(5) show ?thesis
    proof (rule enters)
      fix s' assume s': "quit_begin k None True s = Ret () s'" "sub_inv s'"
      with assms(2-5) False NotRun have "ss_quitOnce s' = RunBy k" "\<not> locked s'" "calls_closed s'"
        by (auto simp: quit_begin_def Let_def locked_def calls_closed_def split: if_splits)
      then show "ends_once U s'" by (rule body_ends [OF s'(2)])
    qed
  qed
qed

lemma caller_finishes:
  assumes "sub_inv s" "ss_quitOnce s = HasRun" "2 \<le> k" "k < length (ss_at s)"
  shows "\<exists>s'. (sub_moves U)\<^sup>*\<^sup>* s s' \<and> ss_at s' ! k = Finished"
proof -
  have closing: "\<exists>s'. (sub_moves U)\<^sup>*\<^sup>* t s' \<and> ss_at s' ! k = Finished"
    if "sub_inv t" "k < length (ss_at t)" "ss_at t ! k = ClosingErr" for t
  proof -
    note at = that
    obtain s' where s': "close_err k t = Ret () s'" using close_err_inv [OF at] by blast
    with at(2) have "ss_at s' ! k = Finished" by (auto simp: close_err_def split: if_splits)
    moreover from sub_step.err_once [OF at(2,3), of U] have "sub_moves U t s'" by (simp add: s')
    ultimately show ?thesis by blast
  qed
  consider "ss_at s ! k = ClosingErr" | "ss_at s ! k = Finished" | e u where "ss_at s ! k = Quitting e u"
    using sub_invD(4) [OF assms(1,4)] assms(2,3) by (cases "ss_at s ! k") (auto simp: placed_def)
  then show ?thesis
  proof cases
    case (3 e u)
    have "sub_inv (goes k ClosingErr s)"
      by (rule goes_inv [OF assms(1,4)]) (use assms(2,3) in \<open>simp add: placed_def\<close>)
    then obtain s' where s': "(sub_moves U)\<^sup>*\<^sup>* (goes k ClosingErr s) s'" "ss_at s' ! k = Finished"
      using closing [of "goes k ClosingErr s"] assms(4) by auto
    have "sub_moves U s (goes k ClosingErr s)"
      using sub_step.once_done [OF assms(4) 3 assms(2), of U] assms(3) by (simp add: after_quit_def)
    with s' show ?thesis by (meson converse_rtranclp_into_rtranclp)
  qed (use closing assms(1,4) in blast)+
qed

section \<open>The loop of forward\<close>

lemma forward_append:
  "forward U (evs @ evs') b got = (case forward U evs b got of
     FwdRunning b1 got1 \<Rightarrow> forward U evs' b1 got1 | FwdEnded e u got1 \<Rightarrow> FwdEnded e u got1)"
  by (induction U evs b got rule: forward.induct) (auto split: sum.split list.split)

text \<open>The goroutine of \<open>start\<close> runs the \<open>forward\<close> of Rpc_Dispatch: its buffer and what the subscriber has received are those
  of some sequence of its events. Its bound and its order hold of them.\<close>

lemma start_runs_forward:
  "sub_reach U s \<Longrightarrow> ss_at s ! 1 = Forwarding b \<Longrightarrow> \<exists>evs. forward U evs [] [] = FwdRunning b (ss_got s)"
proof (induction arbitrary: b rule: sub_reach.induct)
  case begun
  then have "forward U [] [] [] = FwdRunning b (ss_got started_sub)" by (simp add: started_sub_def)
  then show ?case by blast
next
  case (moved s s')
  note v = sub_invD [OF sub_reach_inv [OF moved.hyps(1)]]
  from moved.hyps(2) show ?case
  proof cases
    case (deliver_in r b0)
    obtain evs where evs: "forward U evs [] [] = FwdRunning b0 (ss_got s)" using moved.IH [OF deliver_in(3)] by blast
    from deliver_in moved.prems v(3) have "forward U [FwdIn r] b0 (ss_got s) = FwdRunning b (ss_got s')"
      by (auto simp: forward_in_def split: sum.splits if_splits)
    with evs have "forward U (evs @ [FwdIn r]) [] [] = FwdRunning b (ss_got s')" by (simp only: forward_append forward_result.case)
    then show ?thesis by blast
  next
    case (forward_send x b0)
    obtain evs where evs: "forward U evs [] [] = FwdRunning (x # b0) (ss_got s)" using moved.IH [OF forward_send(2)] by blast
    from forward_send moved.prems v(3) have "forward U [FwdSent] (x # b0) (ss_got s) = FwdRunning b (ss_got s')" by simp
    with evs have "forward U (evs @ [FwdSent]) [] [] = FwdRunning b (ss_got s')" by (simp only: forward_append forward_result.case)
    then show ?thesis by blast
  qed (use moved.prems v(3) in \<open>auto simp: nth_list_update nth_append after_quit_def quit_begin_def quit_end_def close_err_def Let_def
        intro!: moved.IH [unfolded One_nat_def] split: if_splits option.splits\<close>)
qed

section \<open>What the dispatch loop sees\<close>

text \<open>The subscription of Rpc_Dispatch that stands for a state: there the send on \<open>err\<close> is part of the end of the body.\<close>

definition seen :: "'v sub_state \<Rightarrow> client_sub \<Rightarrow> bool" where
  "seen s f \<longleftrightarrow> cs_quit f = ss_quit s \<and>
     (case ss_quitOnce s of
        NotRun \<Rightarrow> cs_once f = OnceFree
      | HasRun \<Rightarrow> cs_once f = OnceDone
      | RunBy i \<Rightarrow>
          (case ss_at s ! i of
             Requesting e \<Rightarrow> cs_once f = OnceRequesting
           | Writing e \<Rightarrow> \<exists>n. cs_once f = OnceCalling n
           | Offering e \<Rightarrow> \<exists>n. cs_once f = OnceCalling n
           | Waiting e \<Rightarrow> \<exists>n. cs_once f = OnceCalling n
           | _ \<Rightarrow> cs_once f = OnceDone))"

lemma seen_same:
  "seen s f \<Longrightarrow> ss_quit s' = ss_quit s \<Longrightarrow> ss_quitOnce s' = ss_quitOnce s \<Longrightarrow>
     (\<And>i. ss_quitOnce s = RunBy i \<Longrightarrow> ss_at s' ! i = ss_at s ! i) \<Longrightarrow> seen s' f"
  by (simp add: seen_def split: once_body.splits)

text \<open>A goroutine that is not inside the body may go anywhere.\<close>

lemma seen_goes:
  assumes "sub_inv s" "seen s f" "i < length (ss_at s)" "\<not> in_body (ss_at s ! i)"
    and "ss_quit s' = ss_quit s" "ss_quitOnce s' = ss_quitOnce s" "ss_at s' = (ss_at s)[i := p]"
  shows "seen s' f"
  using sub_invD(4) [OF assms(1,3)] assms(4)
  by (intro seen_same [OF assms(2,5,6)]) (auto simp: assms(7) placed_def nth_list_update)

text \<open>The moves of the machine of Rpc_Dispatch that concern subscription \<open>x\<close>, and what they make of it.\<close>

definition sub_moved ::
  "string \<Rightarrow> (string \<Rightarrow> error + string) \<Rightarrow> (string \<Rightarrow> error + string \<times> string) \<Rightarrow> nat \<Rightarrow> rpc_client \<Rightarrow> rpc_client \<Rightarrow> bool" where
  "sub_moved sfx ui un x c c' \<longleftrightarrow>
     (\<exists>ev k. ev \<in> {BeginUnsubscribe x, AcceptUnsubscribe x k, EndUnsubscribe x} \<and> dispatch_step sfx ui un ev c = Some (Ret () c')) \<or>
     (\<exists>e. quit_with_error e x c = Some c')"

lemma sub_moved_effect:
  assumes "x < length (rc_heap c)"
  shows "\<exists>c'. sub_moved sfx ui un x c c' \<and> rc_heap c' ! x = (rc_heap c ! x)\<lparr>cs_quit := True, cs_once := OnceRequesting\<rparr>"
    "\<exists>c'. sub_moved sfx ui un x c c' \<and> rc_heap c' ! x = (rc_heap c ! x)\<lparr>cs_once := OnceCalling (length (rc_ops c))\<rparr>"
    "\<exists>c'. sub_moved sfx ui un x c c' \<and> rc_heap c' ! x = (rc_heap c ! x)\<lparr>cs_once := OnceDone\<rparr>"
    "cs_once (rc_heap c ! x) = OnceFree \<Longrightarrow>
       \<exists>c'. sub_moved sfx ui un x c c' \<and> cs_quit (rc_heap c' ! x) \<and> cs_once (rc_heap c' ! x) = OnceDone"
proof -
  have step: "\<exists>c'. sub_moved sfx ui un x c c' \<and> rc_heap c' ! x = f"
    if "dispatch_step sfx ui un ev c = Some (Ret () c')" "ev \<in> {BeginUnsubscribe x, AcceptUnsubscribe x [], EndUnsubscribe x}"
      "rc_heap c' ! x = f" for ev c' f
    using that unfolding sub_moved_def by blast
  show "\<exists>c'. sub_moved sfx ui un x c c' \<and> rc_heap c' ! x = (rc_heap c ! x)\<lparr>cs_quit := True, cs_once := OnceRequesting\<rparr>"
    by (rule step [where ev = "BeginUnsubscribe x"], simp, simp, simp add: assms)
  show "\<exists>c'. sub_moved sfx ui un x c c' \<and> rc_heap c' ! x = (rc_heap c ! x)\<lparr>cs_once := OnceCalling (length (rc_ops c))\<rparr>"
    by (rule step [where ev = "AcceptUnsubscribe x []"], simp, simp, simp add: assms accept_op_def)
  show "\<exists>c'. sub_moved sfx ui un x c c' \<and> rc_heap c' ! x = (rc_heap c ! x)\<lparr>cs_once := OnceDone\<rparr>"
    by (rule step [where ev = "EndUnsubscribe x"], simp, simp, simp add: assms)
  assume "cs_once (rc_heap c ! x) = OnceFree"
  then obtain c' where c': "quit_with_error ErrClientQuit x c = Some c'" by (simp add: quit_with_error_def)
  with \<open>cs_once (rc_heap c ! x) = OnceFree\<close> assms have "cs_quit (rc_heap c' ! x)" "cs_once (rc_heap c' ! x) = OnceDone"
    by (auto simp: quit_with_error_def)
  with c' show "\<exists>c'. sub_moved sfx ui un x c c' \<and> cs_quit (rc_heap c' ! x) \<and> cs_once (rc_heap c' ! x) = OnceDone"
    unfolding sub_moved_def by blast
qed

text \<open>The moves of the goroutines are moves of the machine of Rpc_Dispatch, or it does not see them, as long as the loop has
  not ended, when that machine has no moves.\<close>

theorem loop_sees_the_subscription:
  assumes "sub_reach U s" "sub_moves U s s'" "ss_at s ! 0 \<noteq> Finished" "x < length (rc_heap c)" "seen s (rc_heap c ! x)"
  shows "seen s' (rc_heap c ! x) \<or> (\<exists>c'. sub_moved sfx ui un x c c' \<and> seen s' (rc_heap c' ! x))"
proof -
  note inv = sub_reach_inv [OF assms(1)]
  note v = sub_invD [OF inv] and away = seen_goes [OF inv assms(5)] and effect = sub_moved_effect [OF assms(4), of sfx ui un]
  have run: "ss_quitOnce s = RunBy i" if "i < length (ss_at s)" "in_body (ss_at s ! i)" for i
    using v(4) [OF that(1)] that(2) by (simp add: placed_def)
  have loop: "seen s' (rc_heap c ! x)"
    if "s' = goes 0 p t" "\<not> in_body (ss_at s ! 0)" "ss_quit t = ss_quit s" "ss_quitOnce t = ss_quitOnce s" "ss_at t = ss_at s" for p t
    by (rule away [OF v(2)]) (use that in simp_all)
  have start: "seen s' (rc_heap c ! x)"
    if "s' = goes 1 p t" "ss_at s ! 1 = Forwarding b" "ss_quit t = ss_quit s" "ss_quitOnce t = ss_quitOnce s" "ss_at t = ss_at s" for p t b
    by (rule away [OF v(3)]) (use that in simp_all)
  from assms(2) show ?thesis
  proof cases
    case (once_begins i a u)
    then have s': "ss_quit s'" "ss_quitOnce s' = RunBy i" "ss_at s' ! i = (if u then Requesting a else Reporting a)"
      by (auto simp: quit_begin_def Let_def split: if_splits)
    from assms(5) once_begins(4) have "cs_once (rc_heap c ! x) = OnceFree" by (simp add: seen_def)
    from effect(1) effect(4) [OF this] s' show ?thesis by (cases u) (auto simp: seen_def)
  next
    case (request i a)
    with run [of i] effect(2) assms(5) show ?thesis by (auto simp: seen_def)
  next
    case (answer i a)
    with run [of i] effect(3) assms(5) show ?thesis by (auto simp: seen_def)
  next
    case (write_fails i a)
    with run [of i] effect(3) assms(5) show ?thesis by (auto simp: seen_def)
  next
    case (offer_refused i a)
    with run [of i] effect(3) assms(5) show ?thesis by (auto simp: seen_def)
  next
    case (written i a)
    with run [of i] assms(5) show ?thesis by (auto simp: seen_def)
  next
    case (dialled i a)
    with run [of i] assms(5) show ?thesis by (auto simp: seen_def)
  next
    case (offer_taken i a)
    with run [of i] assms(5) show ?thesis by (auto simp: seen_def)
  next
    case (loop_answers)
    then have "seen s' (rc_heap c ! x)" by (intro seen_same [OF assms(5)]) auto
    then show ?thesis by blast
  next
    case (loop_quits e)
    with loop [of "Quitting (Some e) False" "s\<lparr>ss_answered := True\<rparr>"] show ?thesis by simp
  next
    case (loop_ends)
    with loop [of Finished "s\<lparr>ss_answered := True\<rparr>"] show ?thesis by simp
  next
    case (loop_locks closed)
    with loop [of LockedUp "s\<lparr>ss_answered := ss_answered s \<or> closed\<rparr>"] show ?thesis by simp
  next
    case (notification r)
    with loop [of "Delivering r" s] show ?thesis by simp
  next
    case (deliver_quit r)
    with loop [of Idle s] show ?thesis by simp
  next
    case (once_ends i a)
    with run [of i] assms(5) show ?thesis by (auto simp: seen_def quit_end_def Let_def split: option.splits if_splits)
  next
    case (deliver_in r b)
    have "seen (goes 1 (forward_in U r b) s) (rc_heap c ! x)" by (rule away [OF v(3)]) (use deliver_in in simp_all)
    then have "seen s' (rc_heap c ! x)"
      using v(4) [OF v(2)] deliver_in by (elim seen_same) (auto simp: placed_def nth_list_update)
    then show ?thesis by blast
  next
    case (unsubscribe)
    then have "seen s' (rc_heap c ! x)" using v(5) by (intro seen_same [OF assms(5)]) (auto simp: nth_append)
    then show ?thesis by blast
  next
    case (err_once i)
    then have "seen s' (rc_heap c ! x)"
      by (intro away [where i = i and p = Finished]) (auto simp: close_err_def split: if_splits)
    then show ?thesis by blast
  next
    case (once_done i a u)
    then have "seen s' (rc_heap c ! x)" by (intro away [where i = i and p = "after_quit i"]) auto
    then show ?thesis by blast
  next
    case (err_received a as)
    then have "seen s' (rc_heap c ! x)" by (intro seen_same [OF assms(5)]) auto
    then show ?thesis by blast
  next
    case (forward_quit b)
    with start [of "Quitting None False" s b] show ?thesis by simp
  next
    case (forward_send a b)
    with start [of "Forwarding b" "s\<lparr>ss_got := ss_got s @ [a]\<rparr>" "a # b"] show ?thesis by simp
  qed (use loop assms(3) in auto)
qed

section \<open>Properties\<close>

text \<open>C37: The goroutines of a subscription never panic, however they interleave: \<open>quit\<close> and \<open>err\<close> are closed once, and
  nothing is sent on \<open>err\<close> after it was closed. At most one error is ever sent on it, so that the send in \<open>quitWithError\<close>
  finds the place of the channel free and does not block.\<close>

theorem subscription_never_panics:
  assumes "sub_reach U s"
  shows "(sub_step U s r \<longrightarrow> (\<exists>s'. r = Ret () s')) \<and> length (ss_sent s) \<le> 1 \<and>
    (ss_errClosed s \<longrightarrow> (\<forall>i < length (ss_at s). \<not> in_body (ss_at s ! i))) \<and>
    (i < length (ss_at s) \<longrightarrow> ss_at s ! i = Reporting e \<longrightarrow> (\<exists>s'. quit_end i e s = Some (Ret () s')))"
proof -
  note inv = sub_reach_inv [OF assms]
  have "sub_step U s r \<longrightarrow> (\<exists>s'. r = Ret () s')" by (auto elim: sub_step_inv [OF _ inv])
  moreover have "ss_errClosed s \<longrightarrow> (\<forall>i < length (ss_at s). \<not> in_body (ss_at s ! i))"
    using sub_invD(4,8) [OF inv] by (auto simp: placed_def)
  ultimately show ?thesis using quit_end_inv [OF inv] sub_invD(10) [OF inv] by blast
qed

text \<open>C38: \<open>Unsubscribe\<close> can return, with the error channel closed, in every reachable state but the locked ones, from which no
  \<open>Unsubscribe\<close> ever returns: the goroutine inside \<open>quitOnce\<close> waits for the loop, to take its request or the connection
  it dialled, while the loop waits at \<open>quitOnce\<close>, where it came after a lost connection or a Close; or the loop is locked up
  elsewhere and the goroutine needs it for its request, its connection or its answer, or nobody has begun the body yet.\<close>

theorem unsubscribe_returns_unless_locked:
  assumes "sub_reach U s" "2 \<le> k" "k < length (ss_at s)"
  shows "(\<exists>s'. (sub_moves U)\<^sup>*\<^sup>* s s' \<and> ss_at s' ! k = Finished \<and> ss_errClosed s') \<longleftrightarrow> \<not> locked s"
proof
  note inv = sub_reach_inv [OF assms(1)]
  assume "\<not> locked s"
  from once_can_end [OF inv this sub_reach_closed [OF assms(1)] assms(2,3), of U] obtain s1 where
    s1: "(sub_moves U)\<^sup>*\<^sup>* s s1" "ss_quitOnce s1 = HasRun" by (auto simp: ends_once_def)
  from sub_moves_inv [OF s1(1) inv] assms(3) have inv1: "sub_inv s1" "k < length (ss_at s1)" by auto
  from caller_finishes [OF inv1(1) s1(2) assms(2) inv1(2), of U] obtain s2 where
    s2: "(sub_moves U)\<^sup>*\<^sup>* s1 s2" "ss_at s2 ! k = Finished" by blast
  from sub_moves_inv [OF s2(1) inv1(1)] inv1(2) have "sub_inv s2" "k < length (ss_at s2)" by auto
  from sub_invD(4) [OF this] s2(2) assms(2) have "ss_errClosed s2" by (simp add: placed_def)
  with s1(1) s2 show "\<exists>s'. (sub_moves U)\<^sup>*\<^sup>* s s' \<and> ss_at s' ! k = Finished \<and> ss_errClosed s'" by (meson rtranclp_trans)
next
  note inv = sub_reach_inv [OF assms(1)]
  assume "\<exists>s'. (sub_moves U)\<^sup>*\<^sup>* s s' \<and> ss_at s' ! k = Finished \<and> ss_errClosed s'"
  then obtain s' where s': "(sub_moves U)\<^sup>*\<^sup>* s s'" "ss_errClosed s'" by blast
  show "\<not> locked s"
  proof
    assume "locked s"
    from locked_once [OF locked_for_ever [OF s'(1) inv this]] sub_moves_inv [OF s'(1) inv] s'(2)
    show False using sub_invD(8) [of s'] by auto
  qed
qed

text \<open>\<open>deliver\<close> never holds up the loop for ever: the goroutine of \<open>start\<close> receives, or it has left \<open>forward\<close> and
  closes \<open>quit\<close> without the help of the loop, unless another goroutine has done so.\<close>

theorem deliver_can_finish:
  assumes "sub_reach U s" "ss_at s ! 0 = Delivering r"
  shows "\<exists>s'. (sub_moves U)\<^sup>*\<^sup>* s s' \<and> ss_at s' ! 0 = Idle"
proof -
  note inv = sub_reach_inv [OF assms(1)]
  note v = sub_invD [OF inv]
  have quit: "\<exists>s'. (sub_moves U)\<^sup>*\<^sup>* t s' \<and> ss_at s' ! 0 = Idle"
    if "ss_quit t" "ss_at t ! 0 = Delivering r" "0 < length (ss_at t)" for t
    using sub_step.deliver_quit [OF that(2,1), of U] that(3) by (intro exI [of _ "goes 0 Idle t"]) auto
  show ?thesis
  proof (cases "ss_quit s")
    case True
    with quit assms(2) v(2) show ?thesis by blast
  next
    case False
    with v(6) have once: "ss_quitOnce s = NotRun" by blast
    consider b where "ss_at s ! 1 = Forwarding b" | e u where "ss_at s ! 1 = Quitting e u"
      using v(4) [OF v(3)] once by (cases "ss_at s ! 1") (auto simp: placed_def)
    then show ?thesis
    proof cases
      case (1 b)
      from sub_step.deliver_in [OF assms(2) 1, of U] v(2) show ?thesis
        by (intro exI [of _ "goes 0 Idle (goes 1 (forward_in U r b) s)"]) auto
    next
      case (2 e u)
      obtain s1 where s1: "quit_begin 1 e u s = Ret () s1" using quit_begin_inv [OF inv v(3) 2 once] by blast
      with assms(2) v(2) have "ss_quit s1" "ss_at s1 ! 0 = Delivering r" "0 < length (ss_at s1)"
        by (auto simp: quit_begin_def Let_def split: if_splits)
      from quit [OF this] obtain s2 where "(sub_moves U)\<^sup>*\<^sup>* s1 s2" "ss_at s2 ! 0 = Idle" by blast
      moreover from sub_step.once_begins [OF v(3) 2 once, of U] have "sub_moves U s s1" by (simp only: s1)
      ultimately show ?thesis by (meson converse_rtranclp_into_rtranclp)
    qed
  qed
qed

section \<open>Witnesses\<close>

lemma reach_step: "sub_reach U s \<Longrightarrow> sub_step U s r \<Longrightarrow> r = Ret () s' \<Longrightarrow> sub_reach U s'"
  by (auto intro: sub_reach.moved)

text \<open>A result that does not decode comes in; then the connection is lost before the loop has taken the request
  to unsubscribe. Nobody has called \<open>Unsubscribe\<close>.\<close>

definition lost_sub :: "error \<Rightarrow> error \<Rightarrow> 'v sub_state" where
  "lost_sub e x = started_sub\<lparr>ss_quit := True, ss_quitOnce := RunBy 1, ss_answered := True,
     ss_at := [Quitting (Some x) False, Requesting (Some e)]\<rparr>"

lemma lost_sub_reach:
  assumes "U r = Inl e"
  shows "sub_reach U (lost_sub e x)"
proof -
  let ?s = "\<lambda>a b. started_sub\<lparr>ss_at := [a, b]\<rparr>"
  have start: "started_sub = ?s Idle (Forwarding [])" by (simp add: started_sub_def)
  have "sub_reach U (?s (Delivering r) (Forwarding []))"
    by (rule reach_step [OF sub_reach.begun sub_step.notification]) (simp_all add: started_sub_def goes_def)
  then have "sub_reach U (?s Idle (Quitting (Some e) True))"
    by (rule reach_step [OF _ sub_step.deliver_in [where r = r]]) (simp_all add: goes_def forward_in_def assms)
  then have "sub_reach U (started_sub\<lparr>ss_quit := True, ss_quitOnce := RunBy 1, ss_at := [Idle, Requesting (Some e)]\<rparr>)"
    by (rule reach_step [OF _ sub_step.once_begins [where i = 1 and e = "Some e" and u = True]])
      (simp_all add: goes_def quit_begin_def started_sub_def)
  then show ?thesis
    by (rule reach_step [OF _ sub_step.loop_quits]) (simp_all add: goes_def lost_sub_def)
qed

text \<open>One result that does not decode is enough to lock up the client, when the connection is lost at the wrong moment.\<close>

theorem bad_result_can_lock_up:
  assumes "U r = Inl e"
  shows "\<exists>s. sub_reach U s \<and> length (ss_at s) = 2 \<and> (\<forall>s'. (sub_moves U)\<^sup>*\<^sup>* s s' \<longrightarrow> locked s')"
proof (intro exI conjI allI impI)
  let ?s = "lost_sub e ErrClientQuit"
  show reach: "sub_reach U ?s" by (rule lost_sub_reach [where U = U and r = r, OF assms])
  show "length (ss_at ?s) = 2" by (simp add: lost_sub_def)
  have lock: "locked ?s" by (auto simp: locked_def lost_sub_def)
  fix s' assume "(sub_moves U)\<^sup>*\<^sup>* ?s s'"
  from locked_for_ever [OF this sub_reach_inv [OF reach] lock] show "locked s'" .
qed

theorem bad_result_can_lock_up_witness:
  "\<exists>s. sub_reach (\<lambda>r. if r = ''1'' then Inr (1 :: nat) else Inl (ErrExt ''json'')) s \<and> length (ss_at s) = 2 \<and> locked s"
proof -
  let ?U = "\<lambda>r. if r = ''1'' then Inr (1 :: nat) else Inl (ErrExt ''json'')"
  have "?U ''x'' = Inl (ErrExt ''json'')" by simp
  from bad_result_can_lock_up [where U = ?U and r = "''x''", OF this] show ?thesis by (meson rtranclp.rtrancl_refl)
qed

lemma called_sub_reach: "sub_reach U (started_sub\<lparr>ss_at := [Idle, Forwarding [], Quitting None True]\<rparr>)"
  by (rule reach_step [OF sub_reach.begun sub_step.unsubscribe]) (simp add: started_sub_def)

text \<open>And so is an \<open>Unsubscribe\<close> that has to dial, when the connection is lost while it offers the new one to the loop.\<close>

theorem dialling_can_lock_up:
  "\<exists>s. sub_reach U s \<and> ss_at s = [Quitting (Some x) False, Forwarding [], Offering None] \<and>
     (\<forall>s'. (sub_moves U)\<^sup>*\<^sup>* s s' \<longrightarrow> locked s')"
proof (intro exI conjI allI impI)
  let ?s = "\<lambda>a p. started_sub\<lparr>ss_quit := True, ss_quitOnce := RunBy 2, ss_answered := a, ss_at := p\<rparr>"
  let ?lock = "?s True [Quitting (Some x) False, Forwarding [], Offering None]"
  have "sub_reach U (?s False [Idle, Forwarding [], Requesting None])"
    by (rule reach_step [OF called_sub_reach sub_step.once_begins [where i = 2 and e = None and u = True]])
      (simp_all add: goes_def quit_begin_def started_sub_def)
  then have "sub_reach U (?s False [Idle, Forwarding [], Writing None])"
    by (rule reach_step [OF _ sub_step.request [where i = 2 and e = None]]) (simp_all add: goes_def started_sub_def)
  then have "sub_reach U (?s False [Idle, Forwarding [], Offering None])"
    by (rule reach_step [OF _ sub_step.dialled [where i = 2 and e = None]]) (simp_all add: goes_def started_sub_def)
  then show reach: "sub_reach U ?lock"
    by (rule reach_step [OF _ sub_step.loop_quits [where e = x]]) (simp_all add: goes_def started_sub_def)
  show "ss_at ?lock = [Quitting (Some x) False, Forwarding [], Offering None]" by simp
  have lock: "locked ?lock" by (auto simp: locked_def)
  fix s' assume "(sub_moves U)\<^sup>*\<^sup>* ?lock s'"
  from locked_for_ever [OF this sub_reach_inv [OF reach] lock] show "locked s'" .
qed

theorem subscription_never_panics_witness:
  "\<exists>s s'. sub_reach (Inr :: string \<Rightarrow> error + string) s \<and> ss_at s ! 2 = Quitting None True \<and> sub_step Inr s (Ret () s') \<and>
     ss_quit s' \<and> length (ss_sent s) \<le> 1"
proof -
  let ?s = "started_sub\<lparr>ss_at := [Idle, Forwarding [], Quitting None True]\<rparr> :: string sub_state"
  have step: "sub_step Inr ?s (quit_begin 2 None True ?s)"
    by (rule sub_step.once_begins) (simp_all add: started_sub_def)
  note safe = subscription_never_panics [OF called_sub_reach [of Inr], of "quit_begin 2 None True ?s"]
  from safe step obtain s' where s': "quit_begin 2 None True ?s = Ret () s'" by blast
  then have "ss_quit s'" by (auto simp: quit_begin_def Let_def split: if_splits)
  moreover have "sub_step Inr ?s (Ret () s')" using step by (simp only: s')
  moreover have "length (ss_sent ?s) \<le> 1" using safe by blast
  moreover have "ss_at ?s ! 2 = Quitting None True" by simp
  ultimately show ?thesis using called_sub_reach [of Inr] by blast
qed

theorem unsubscribe_returns_unless_locked_witness:
  "\<exists>s s'. sub_reach (Inr :: string \<Rightarrow> error + string) s \<and> ss_at s ! 2 = Quitting None True \<and>
     (sub_moves Inr)\<^sup>*\<^sup>* s s' \<and> ss_at s' ! 2 = Finished \<and> ss_errClosed s'"
proof -
  let ?s = "started_sub\<lparr>ss_at := [Idle, Forwarding [], Quitting None True]\<rparr> :: string sub_state"
  have "\<not> locked ?s" by (simp add: locked_def started_sub_def)
  with unsubscribe_returns_unless_locked [OF called_sub_reach, of 2 Inr] obtain s' where
    "(sub_moves Inr)\<^sup>*\<^sup>* ?s s'" "ss_at s' ! 2 = Finished" "ss_errClosed s'" by auto
  with called_sub_reach [of Inr] show ?thesis by (intro exI [of _ ?s] exI [of _ s']) simp
qed

theorem deliver_can_finish_witness:
  "\<exists>s s'. sub_reach (Inr :: string \<Rightarrow> error + string) s \<and> ss_at s ! 0 = Delivering ''1'' \<and>
     (sub_moves Inr)\<^sup>*\<^sup>* s s' \<and> ss_at s' ! 0 = Idle"
proof -
  let ?s = "goes 0 (Delivering ''1'') started_sub :: string sub_state"
  have "sub_reach Inr ?s" "ss_at ?s ! 0 = Delivering ''1''"
    by (rule sub_reach.moved [OF sub_reach.begun sub_step.notification]) (simp_all add: started_sub_def)
  with deliver_can_finish [OF this] show ?thesis by blast
qed

end
