(* ===== verification/Spec2Isabelle.thy ===== *)
theory Spec2Isabelle
  imports Task_Request Notifier Watcher Live_System Main_Program Rpc_Dial Rpc_Call Rpc_Subscription
begin

text \<open>
  A verification development of airtask, a scheduler of delayed tasks written in Go. This theory only
  collects the others; each of them opens with a note on what it holds.

  \<^bold>\<open>The program.\<close> \<open>src/main.go\<close> builds a node (\<open>node/admin/node.go\<close>) from a configuration
  (\<open>node/conf/conf.go\<close>) and registers one service with it, the task manager (\<open>node/task/manager.go\<close>). The node
  starts the manager and opens an HTTP and a websocket endpoint for the APIs of both. A request for a
  task (\<open>node/task/api.go\<close>) becomes a job (\<open>node/common\<close>), which the manager stores in a table of a key-value
  database (\<open>node/store\<close>) and puts on a timing wheel (\<open>node/tw/timewheel.go\<close>). A ticker turns the wheel; the
  jobs whose time has come are executed in a goroutine of their own: as a shell command, as a script
  file, or by a plugin (\<open>node/module/plugin.go\<close>). Results are stored in a second table and broadcast to
  subscribers (\<open>node/subscribe/subscribe.go\<close>). The client (\<open>client/client.go\<close>) calls such APIs over JSON-RPC.

  \<^bold>\<open>Theories and code.\<close>
  \<^item> Prelude, Go_Std: machine words, bytes and strings, panics and the outcome of a call that may panic
    after it has changed its receiver; the functions of Go's library the code uses
    (\<open>strings\<close>, \<open>strconv\<close>, \<open>path/filepath\<close>, \<open>time.Duration.Seconds\<close>).
  \<^item> Delay_Queue, Time_Wheel: the abstract contract of a queue of delays, as a locale, and
    \<open>timewheel.go\<close>: slots hold addresses of entries on a heap, as the lists of pointers do. The wheel is an
    interpretation of the queue.
  \<^item> Errors, Item_Id, Json, Job_Type, Job, Task_Result: \<open>node/common\<close>. Json is \<open>encoding/json\<close> as far as these
    records use it: printing with its escapes and its treatment of bytes that are not UTF-8, and
    a parser with fuel. The generated methods \<open>MarshalJSON\<close> and \<open>UnmarshalJSON\<close> are in Job and Task_Result.
  \<^item> Kv_Store, Record_Table: \<open>node/store\<close> over an abstract LevelDB (locale \<open>key_value\<close>), and what the manager
    relies on when it keeps encoded records in tables (locales \<open>codec\<close>, \<open>record_table\<close>, \<open>task_tables\<close>).
  \<^item> Plugin_Module, Module_Table, Watcher: loading and retried execution of plugins, with the two sample plugins; the
    names of plugin files, the table of modules, \<open>loadModules\<close>; the goroutine and the channels of the watcher
    (\<open>node/task/watcher.go\<close>).
  \<^item> Manager: every method of \<open>Manager\<close> and every branch of its goroutine \<open>update\<close>; the world outside (clock,
    shell, files, LevelDB, identifier generator) is the record \<open>platform\<close>. Manager_Steps: the interleavings of
    requests, ticks, executions and watcher events, and the invariant of the running system. Manager_Correct: what
    holds of the whole manager. Manager_Execute: executions, with a reference for their loop. Task_Lifecycle:
    the life of a task, from \<open>AddTask\<close> to its stored result. Task_Api: the request methods on top of it. Task_Request: a
    request from end to end.
  \<^item> Event_Msg: the event loop of \<open>subscribe.go\<close>, its clients and the channels between them, as a step relation.
    Channels may be buffered or not. Notifier: the methods \<open>Results\<close> and \<open>NewTask\<close> of the API, whose goroutines pass the events
    on to a client, as a machine beside the event system. Live_System:
    the manager and the event loop composed as \<open>Manager.Start\<close> does it, with the sends under the mutex.
  \<^item> Config, Node, Node_Admin, Node_Task: \<open>conf.go\<close>; every operation of the node, over the record \<open>host\<close> of
    its services and of the RPC server; the admin API and runs of a node; and the boot and shutdown of \<open>main.go\<close>: the
    node whose services are the managers of the theory Manager. Main_Program: the whole of \<open>main\<close>, with its flags,
    \<open>node/version\<close> and its signals. The locale \<open>node_host\<close> is what a node relies on; every RPC server that
    keeps \<open>server_contract\<close>, with the model of the manager, is proved to be such a host.
  \<^item> Rpc_Message, Rpc_Dispatch, Rpc_Subscription, Rpc_Connection, Rpc_Dial, Rpc_Call: \<open>client.go\<close>: messages, single calls and batches;
    the dispatch loop with its operations and subscriptions as a state machine, with the phase of the caller that holds the send
    lock (it writes, or offers a connection it has dialled, or is done), and the buffer of a subscription; the goroutines of
    one subscription; the connections, with the goroutines of the loop, of \<open>read\<close> and of the caller that writes or reconnects, as a machine that
    refines it; dialling; calls as their callers see them.

  \<^bold>\<open>What the lemmas show.\<close> The wheel keeps its invariant and refines the queue, so an added task fires at its
  tick and at no other, and a deleted one never; the manager inherits this under every interleaving,
  keeps every scheduled task findable and executes each at most once; a request that the API accepts ends with its result, which
  the API returns from then on. Jobs and results survive their JSON form, but for the identifier of a job. Tables with different prefixes do not interfere. Subscribers
  get every event in order, and in the composed system what reaches them follows what the manager announces.
  A boot of \<open>main\<close> gives one running manager behind two listeners, and its shutdown undoes it; the program keeps this manager until a signal stops it. The
  client routes each response to the call that waits for it and releases every call when the connection
  ends, unless an \<open>Unsubscribe\<close> waits for the loop; its connections refine the loop and do not leak; the goroutines of a subscription never panic, and can end unless they
  and the loop wait for each other. Decoding keeps jobs well typed, and the loop of an execution is
  equivalent to one without its shared variable. The error properties fix what the code does where it fails its purpose: panics on negative intervals, a
  watcher that misnames plugins, scripts that are never removed, services that outlive a failed start, ways to
  lock up a loop through \<open>Unsubscribe\<close> or through one result that does not decode, an \<open>Unsubscribe\<close> that must dial first, subscribers that freeze the scheduler, and a reconnect that locks up the client.

  \<^bold>\<open>Conventions.\<close> A method that may panic returns an \<open>outcome\<close>, with the receiver in the state the statements
  before the panic left. A call that never returns is \<^const>\<open>None\<close> or the lack of a step. A mutex is held
  from the first to the last statement of each method that takes it, so such a method is one step. The order of
  a range over a map is a parameter, or any order. A step that panics has no next state, as the process ends (\<open>manager_panics\<close>
  lists those of the manager). A branch of the client's loop that closes everything is one event, taken
  when callers that still write or dial inside \<open>Unsubscribe\<close> are through (\<open>settled\<close>). The 64-bit integers of Go are words, so that
  overflow is as in the code; \<open>int\<close> is used for the values of the type \<open>int\<close>, which never leave their range here. The
  parser of Json is given twice the length of its input as fuel, as at most every other call consumes no character; the round
  trips prove that it does on what the printer makes.

  \<^bold>\<open>Parameters.\<close> LevelDB, the identifier generator (snowflake), \<open>hexutil\<close>, \<open>types.NewVersion\<close>,
  \<open>common.AbsolutePath\<close>, the feeds of \<open>event\<close> and the RPC server of airfk, the plugin loader, the shell and the operating system are arguments of
  the definitions. What is assumed of them (\<open>hexutil_ok\<close>, \<open>platform_ok\<close>, \<open>key_value\<close>, \<open>feed_ok\<close>, \<open>server_contract\<close>) is
  instantiated by sample ones for the witnesses. Jobs whose delay is natural and fits a \<open>time.Duration\<close>, with a UTF-8 name, are called
  \<open>acceptable\<close>; others are the subject of the error properties. The identifiers of a client are taken to be fresh, which holds of
  the first \<open>2\<^sup>3\<^sup>2\<close> of them (\<open>call_ids_fresh\<close>).

  \<^bold>\<open>Not modelled.\<close> Logging and metrics; parsing the command line and the profiling server of \<open>main\<close>; the tests. Of the
  client: what its callers do once it has quit, the deferred calls of the loop after a panic, which ends the program in any case, and
  the bytes on the wire. The functions it uses that are defined nowhere in the repository (\<open>isBatch\<close>,
  the suffixes of the subscription methods, the error of a subscription over HTTP) are parameters.
\<close>

end
